(* ===== verification/Elyra_Prelude.thy ===== *)
theory Elyra_Prelude
  imports Main "HOL-Library.Word" "HOL-Library.List_Lexorder"
begin

unbundle bit_operations_syntax

section \<open>Prelude: machine types, results, byte strings\<close>

text \<open>
  What every component of the model shares:
  \<^item> the machine types of the Rust code: \<open>u8\<close> to \<open>u128\<close> as words read with \<open>unat\<close>, the
    signed types as words of the same width read with \<open>sint\<close>;
  \<^item> \<open>Result\<close> as a sum type, with the \<open>?\<close> operator as \<open>bindE\<close> and a fallible loop as
    \<open>foldE\<close>;
  \<^item> byte strings with the lexicographic order that Rust's slices and the storage engine's
    B-tree use (the library's order on lists of words), and the little- and big-endian
    encodings of integers (\<open>to_le_bytes\<close>, \<open>to_be_bytes\<close>);
  \<^item> the collections \<open>result_simps\<close> and \<open>byte_simps\<close> the component proofs add to the simpset.
\<close>

named_theorems result_simps "case distinctions on Result values"
named_theorems byte_simps "byte strings and integer encodings"

type_synonym u8 = "8 word"
type_synonym u16 = "16 word"
type_synonym u32 = "32 word"
type_synonym u64 = "64 word"
type_synonym u128 = "128 word"
type_synonym i32 = "32 word"
type_synonym i64 = "64 word"
type_synonym i128 = "128 word"

type_synonym bytes = "u8 list"
type_synonym kv = "bytes \<times> bytes"

subsection \<open>Results\<close>

definition bindE :: "'e + 'a \<Rightarrow> ('a \<Rightarrow> 'e + 'b) \<Rightarrow> 'e + 'b" where
  "bindE m f = (case m of Inl e \<Rightarrow> Inl e | Inr x \<Rightarrow> f x)"

definition map_err :: "('e \<Rightarrow> 'f) \<Rightarrow> 'e + 'a \<Rightarrow> 'f + 'a" where
  "map_err g m = (case m of Inl e \<Rightarrow> Inl (g e) | Inr x \<Rightarrow> Inr x)"

definition is_ok :: "'e + 'a \<Rightarrow> bool" where
  "is_ok m = (case m of Inl _ \<Rightarrow> False | Inr _ \<Rightarrow> True)"

text \<open>A \<open>for\<close> loop whose body may return early with an error.\<close>

fun foldE :: "('s \<Rightarrow> 'a \<Rightarrow> 'e + 's) \<Rightarrow> 's \<Rightarrow> 'a list \<Rightarrow> 'e + 's" where
  "foldE f s [] = Inr s"
| "foldE f s (x # xs) = bindE (f s x) (\<lambda>s'. foldE f s' xs)"

text \<open>A \<open>for\<close> loop whose body may also \<open>break\<close>: it answers whether to go on.\<close>

fun foldE_until :: "('s \<Rightarrow> 'a \<Rightarrow> 'e + 's \<times> bool) \<Rightarrow> 's \<Rightarrow> 'a list \<Rightarrow> 'e + 's" where
  "foldE_until f s [] = Inr s"
| "foldE_until f s (x # xs) =
     bindE (f s x) (\<lambda>(s', go). if go then foldE_until f s' xs else Inr s')"

lemma bindE_simps [simp]: "bindE (Inl e) f = Inl e" "bindE (Inr x) f = f x"
  by (simp_all add: bindE_def)

lemma map_err_simps [simp]: "map_err g (Inl e) = Inl (g e)" "map_err g (Inr x) = Inr x"
  by (simp_all add: map_err_def)

lemma is_ok_simps [simp]: "is_ok (Inl e) = False" "is_ok (Inr x) = True"
  by (simp_all add: is_ok_def)

lemma bindE_eq_Inr [result_simps]:
  "bindE m f = Inr y \<longleftrightarrow> (\<exists>x. m = Inr x \<and> f x = Inr y)"
  by (cases m) auto

lemma map_err_eq_Inr [result_simps]: "map_err g m = Inr x \<longleftrightarrow> m = Inr x"
  by (cases m) auto

lemma map_err_eq_Inl [result_simps]: "map_err g m = Inl y \<longleftrightarrow> (\<exists>e. m = Inl e \<and> y = g e)"
  by (cases m) auto

lemma is_ok_iff [result_simps]: "is_ok m \<longleftrightarrow> (\<exists>x. m = Inr x)"
  by (cases m) auto

lemma bindE_assoc: "bindE (bindE m f) g = bindE m (\<lambda>x. bindE (f x) g)"
  by (cases m) simp_all

lemma foldE_append: "foldE f s (xs @ ys) = bindE (foldE f s xs) (\<lambda>s'. foldE f s' ys)"
  by (induction xs arbitrary: s) (auto simp: bindE_assoc)

lemma foldE_Inr:
  assumes "\<And>s x s'. f s x = Inr s' \<Longrightarrow> h s' = g (h s) x"
    and "foldE f s xs = Inr s'"
  shows "h s' = foldl g (h s) xs"
  using assms(2)
proof (induction xs arbitrary: s)
  case (Cons x xs)
  then obtain s1 where "f s x = Inr s1" and "foldE f s1 xs = Inr s'"
    by (auto simp: result_simps)
  with Cons.IH assms(1) show ?case by fastforce
qed simp

lemma foldE_Inl:
  "foldE f s xs = Inl e \<Longrightarrow> \<exists>s x. x \<in> set xs \<and> f s x = Inl e"
proof (induction xs arbitrary: s)
  case (Cons x xs)
  then show ?case by (cases "f s x") fastforce+
qed simp

subsection \<open>The order of byte strings\<close>

text \<open>A byte-string literal \<open>b"..."\<close> (ASCII).\<close>

definition ascii :: "string \<Rightarrow> bytes" where
  "ascii s = map of_char s"

definition starts_with :: "'a list \<Rightarrow> 'a list \<Rightarrow> bool" where
  "starts_with k p = (take (length p) k = p)"

lemma starts_with_iff [byte_simps]: "starts_with k p \<longleftrightarrow> (\<exists>r. k = p @ r)"
  unfolding starts_with_def by (metis append_take_drop_id append_eq_conv_conj)

lemma starts_with_Nil [simp]: "starts_with k []"
  by (simp add: starts_with_def)

lemma starts_with_Cons [simp]:
  "starts_with (x # xs) (y # ys) \<longleftrightarrow> x = y \<and> starts_with xs ys"
  "\<not> starts_with [] (y # ys)"
  by (auto simp: starts_with_def)

lemma append_less_append [simp]: "(p @ a < p @ b) = (a < (b :: 'a :: order list))"
  by (induction p) auto

lemma append_le_append [simp]: "(p @ a \<le> p @ b) = (a \<le> (b :: 'a :: order list))"
  by (induction p) auto

lemma le_append [simp]: "p \<le> p @ (r :: 'a :: order list)"
  by (induction p) auto

text \<open>Keys with a common prefix form a contiguous block of the order.\<close>

lemma starts_with_mono:
  fixes p :: "'a :: linorder list"
  assumes "p \<le> k" and "k \<le> k'" and "starts_with k' p"
  shows "starts_with k p"
  using assms
proof (induction p arbitrary: k k')
  case (Cons x p)
  then obtain r where k': "k' = x # p @ r"
    by (auto simp: byte_simps)
  from Cons.prems(1) obtain y ys where k: "k = y # ys"
    by (cases k) auto
  from Cons.prems(1,2) k k' have "y = x" "p \<le> ys" "ys \<le> p @ r"
    by auto
  moreover from this have "starts_with ys p"
    using Cons.IH [of ys "p @ r"] by (auto simp: byte_simps)
  ultimately show ?case using k by simp
qed simp

lemma sorted_wrt_map_fst_distinct:
  "sorted_wrt (<) (map fst (es :: ('a :: linorder \<times> 'b) list)) \<Longrightarrow> distinct (map fst es)"
  by (simp add: strict_sorted_iff)

lemma sorted_keys_unique:
  fixes es fs :: "('a :: linorder \<times> 'b) list"
  assumes "sorted_wrt (<) (map fst es)" and "sorted_wrt (<) (map fst fs)" and "set es = set fs"
  shows "es = fs"
proof -
  have inj: "inj_on fst (set es \<union> set fs)"
    using assms by (auto simp: distinct_map dest: sorted_wrt_map_fst_distinct)
  have "set (map fst es) = set (map fst fs)"
    using assms(3) by simp
  then have "map fst es = map fst fs"
    by (rule strict_sorted_equal [OF assms(2,1)])
  then show ?thesis
    using inj by (simp add: inj_on_map_eq_map)
qed

subsection \<open>Little- and big-endian integers\<close>

text \<open>
  \<open>nat_le n v\<close> are the \<open>n\<close> low bytes of \<open>v\<close>, least significant first, and \<open>le_nat\<close> reads
  them back. \<open>x.to_le_bytes()\<close> of a \<open>w\<close>-bit integer is \<open>to_le_bytes (w div 8) x\<close>.
\<close>

fun nat_le :: "nat \<Rightarrow> nat \<Rightarrow> bytes" where
  "nat_le 0 v = []"
| "nat_le (Suc n) v = of_nat (v mod 256) # nat_le n (v div 256)"

fun le_nat :: "bytes \<Rightarrow> nat" where
  "le_nat [] = 0"
| "le_nat (b # bs) = unat b + 256 * le_nat bs"

definition to_le_bytes :: "nat \<Rightarrow> 'w::len word \<Rightarrow> bytes" where
  "to_le_bytes n x = nat_le n (unat x)"

definition to_be_bytes :: "nat \<Rightarrow> 'w::len word \<Rightarrow> bytes" where
  "to_be_bytes n x = rev (nat_le n (unat x))"

definition from_le_bytes :: "bytes \<Rightarrow> 'w::len word" where
  "from_le_bytes bs = of_nat (le_nat bs)"

lemma unat_byte_of_nat [simp]: "unat (of_nat (v mod 256) :: u8) = v mod 256"
  by (simp add: unat_of_nat)

lemma length_nat_le [simp]: "length (nat_le n v) = n"
  by (induction n v rule: nat_le.induct) auto

lemma length_to_le_bytes [simp]: "length (to_le_bytes n x) = n"
  by (simp add: to_le_bytes_def)

lemma length_to_be_bytes [simp]: "length (to_be_bytes n x) = n"
  by (simp add: to_be_bytes_def)

lemma le_nat_nat_le [byte_simps]: "le_nat (nat_le n v) = v mod 256 ^ n"
proof (induction n v rule: nat_le.induct)
  case (2 n v)
  then show ?case by (simp add: mod_mult2_eq)
qed simp

lemma le_nat_bound: "le_nat bs < 256 ^ length bs"
proof (induction bs)
  case (Cons b bs)
  have "unat b < 256" using unsigned_less [of b] by simp
  with Cons show ?case by simp
qed simp

lemma nat_le_le_nat [byte_simps]: "nat_le (length bs) (le_nat bs) = bs"
proof (induction bs)
  case (Cons b bs)
  have "unat b < 256" using unsigned_less [of b] by simp
  with Cons show ?case by (simp add: mod_mult2_eq)
qed simp

lemma from_to_le_bytes [byte_simps]:
  assumes "LENGTH('w::len) = 8 * n"
  shows "from_le_bytes (to_le_bytes n (x :: 'w word)) = x"
proof -
  have "unat x < 256 ^ n"
    using unsigned_less [of x] assms by (simp add: power_mult)
  then show ?thesis
    by (simp add: from_le_bytes_def to_le_bytes_def le_nat_nat_le)
qed

lemma to_from_le_bytes [byte_simps]:
  assumes "LENGTH('w::len) = 8 * n" and "length bs = n"
  shows "to_le_bytes n (from_le_bytes bs :: 'w word) = bs"
proof -
  have "le_nat bs < 2 ^ LENGTH('w)"
    using le_nat_bound [of bs] assms by (simp add: power_mult)
  then have "unat (of_nat (le_nat bs) :: 'w word) = le_nat bs"
    by (simp add: unat_of_nat)
  then show ?thesis
    using nat_le_le_nat [of bs] assms(2) by (simp add: from_le_bytes_def to_le_bytes_def)
qed

lemma to_le_bytes_inject:
  assumes "LENGTH('w::len) = 8 * n"
  shows "to_le_bytes n (x :: 'w word) = to_le_bytes n y \<longleftrightarrow> x = y"
  using from_to_le_bytes [OF assms] by metis

text \<open>Big-endian encodings of one width are ordered as the numbers are.\<close>

lemma append_less_append_same_length:
  fixes a b :: "'a :: linorder list"
  shows "length a = length b \<Longrightarrow> a @ c < b @ d \<longleftrightarrow> a < b \<or> a = b \<and> c < d"
  by (induction a b rule: list_induct2) auto

lemma rev_nat_le_less:
  "rev (nat_le n v) < rev (nat_le n w) \<longleftrightarrow> v mod 256 ^ n < w mod 256 ^ n"
proof (induction n arbitrary: v w)
  case (Suc n)
  have eq: "rev (nat_le n (v div 256)) = rev (nat_le n (w div 256))
      \<longleftrightarrow> v div 256 mod 256 ^ n = w div 256 mod 256 ^ n"
    by (metis le_nat_nat_le nat_le_le_nat length_nat_le rev_rev_ident)
  have less: "(of_nat (v mod 256) :: u8) < of_nat (w mod 256) \<longleftrightarrow> v mod 256 < w mod 256"
    by (simp add: word_less_nat_alt)
  have split: "x mod (256 * 256 ^ n) = x mod 256 + 256 * (x div 256 mod 256 ^ n)" for x :: nat
    by (simp add: mod_mult2_eq)
  have "v mod 256 < 256" "w mod 256 < 256" by simp_all
  then have "v mod 256 + 256 * a < w mod 256 + 256 * b \<longleftrightarrow> a < b \<or> a = b \<and> v mod 256 < w mod 256"
    for a b :: nat
    by (cases a b rule: linorder_cases) auto
  with eq less split Suc.IH show ?case
    by (simp add: append_less_append_same_length)
qed simp

lemma to_be_bytes_less:
  assumes "LENGTH('w::len) = 8 * n"
  shows "to_be_bytes n (x :: 'w word) < to_be_bytes n y \<longleftrightarrow> x < y"
proof -
  have "unat z < 256 ^ n" for z :: "'w word"
    using unsigned_less [of z] assms by (simp add: power_mult)
  then show ?thesis
    by (simp add: to_be_bytes_def rev_nat_le_less word_less_nat_alt)
qed

subsection \<open>Decimal digits\<close>

text \<open>The digits of a number, most significant first, as \<open>to_string\<close> prints them.\<close>

fun dec_digits :: "nat \<Rightarrow> nat list" where
  "dec_digits n = (if n < 10 then [n] else dec_digits (n div 10) @ [n mod 10])"

declare dec_digits.simps [simp del]

definition digits_nat :: "nat list \<Rightarrow> nat" where
  "digits_nat = foldl (\<lambda>a d. a * 10 + d) 0"

definition show_nat :: "nat \<Rightarrow> string" where
  "show_nat n = map (\<lambda>d. char_of (48 + d)) (dec_digits n)"

lemma dec_digits_range: "d \<in> set (dec_digits n) \<Longrightarrow> d < 10"
proof (induction n rule: dec_digits.induct)
  case (1 n)
  then show ?case by (subst (asm) (2) dec_digits.simps) (auto split: if_splits)
qed

lemma digits_nat_dec_digits [simp]: "digits_nat (dec_digits n) = n"
proof (induction n rule: dec_digits.induct)
  case (1 n)
  then show ?case by (subst dec_digits.simps) (simp add: digits_nat_def)
qed

lemma dec_digits_nonempty [simp]: "dec_digits n \<noteq> []"
  by (subst dec_digits.simps) simp

subsection \<open>Ordered maps and sets\<close>

text \<open>
  \<open>BTreeMap\<close> and \<open>BTreeSet\<close> as the sequences their iterators yield: association lists with
  strictly increasing keys, and strictly increasing lists.
\<close>

fun bt_insert :: "'k::linorder \<Rightarrow> 'v \<Rightarrow> ('k \<times> 'v) list \<Rightarrow> ('k \<times> 'v) list" where
  "bt_insert k v [] = [(k, v)]"
| "bt_insert k v (e # es) =
     (if k < fst e then (k, v) # e # es
      else if k = fst e then (k, v) # es
      else e # bt_insert k v es)"

definition bt_remove :: "'k \<Rightarrow> ('k \<times> 'v) list \<Rightarrow> ('k \<times> 'v) list" where
  "bt_remove k es = filter (\<lambda>e. fst e \<noteq> k) es"

fun bs_insert :: "'k::linorder \<Rightarrow> 'k list \<Rightarrow> 'k list" where
  "bs_insert k [] = [k]"
| "bs_insert k (x # xs) =
     (if k < x then k # x # xs else if k = x then x # xs else x # bs_insert k xs)"

definition bs_remove :: "'k \<Rightarrow> 'k list \<Rightarrow> 'k list" where
  "bs_remove k xs = filter (\<lambda>x. x \<noteq> k) xs"

abbreviation bt_sorted :: "('k::linorder \<times> 'v) list \<Rightarrow> bool" where
  "bt_sorted es \<equiv> sorted_wrt (<) (map fst es)"

abbreviation bs_sorted :: "'k::linorder list \<Rightarrow> bool" where
  "bs_sorted xs \<equiv> sorted_wrt (<) xs"

lemma set_bs_insert [simp]: "set (bs_insert k xs) = insert k (set xs)"
  by (induction xs) auto

lemma bs_sorted_insert [simp]: "bs_sorted xs \<Longrightarrow> bs_sorted (bs_insert k xs)"
  by (induction xs) auto

lemma set_bs_remove [simp]: "set (bs_remove k xs) = set xs - {k}"
  by (auto simp: bs_remove_def)

lemma bs_sorted_remove [simp]: "bs_sorted xs \<Longrightarrow> bs_sorted (bs_remove k xs)"
  by (simp add: bs_remove_def sorted_wrt_filter)

lemma keys_bt_insert [simp]: "fst ` set (bt_insert k v es) = insert k (fst ` set es)"
  by (induction es) auto

lemma bt_sorted_insert [simp]: "bt_sorted es \<Longrightarrow> bt_sorted (bt_insert k v es)"
  by (induction es) auto

lemma map_of_bt_insert [simp]: "map_of (bt_insert k v es) = (map_of es)(k \<mapsto> v)"
  by (induction es) (auto simp: fun_upd_twist)

lemma map_of_bt_remove [simp]: "map_of (bt_remove k es) = (map_of es)(k := None)"
  unfolding bt_remove_def by (induction es) auto

lemma keys_bt_remove [simp]: "fst ` set (bt_remove k es) = fst ` set es - {k}"
  by (auto simp: bt_remove_def)

lemma bt_sorted_remove [simp]: "bt_sorted es \<Longrightarrow> bt_sorted (bt_remove k es)"
  by (simp add: bt_remove_def sorted_wrt_map sorted_wrt_filter)

lemma bt_sorted_eqI:
  assumes "bt_sorted es" and "bt_sorted fs" and "map_of es = map_of fs"
  shows "es = fs"
proof (rule sorted_keys_unique [OF assms(1,2)])
  have "distinct (map fst es)" "distinct (map fst fs)"
    using assms sorted_wrt_map_fst_distinct by auto
  then show "set es = set fs"
    using assms(3) by (metis map_of_inject_set)
qed

lemma bs_sorted_eqI: "bs_sorted xs \<Longrightarrow> bs_sorted ys \<Longrightarrow> set xs = set ys \<Longrightarrow> xs = ys"
  by (rule strict_sorted_equal)

text \<open>A size that adds up over the entries, under insertion and removal.\<close>

lemma bt_insert_sum:
  fixes f :: "'k::linorder \<times> 'v \<Rightarrow> nat"
  assumes "bt_sorted es"
  shows "sum_list (map f (bt_insert k v es)) + (case map_of es k of None \<Rightarrow> 0 | Some w \<Rightarrow> f (k, w))
    = sum_list (map f es) + f (k, v)"
  using assms
proof (induction es)
  case (Cons e es)
  then have "k < fst e \<Longrightarrow> map_of es k = None"
    by (force simp: map_of_eq_None_iff)
  with Cons show ?case by (cases e) (auto split: option.splits)
qed simp

lemma bt_remove_sum:
  fixes f :: "'k::linorder \<times> 'v \<Rightarrow> nat"
  assumes "bt_sorted es"
  shows "sum_list (map f (bt_remove k es)) + (case map_of es k of None \<Rightarrow> 0 | Some w \<Rightarrow> f (k, w))
    = sum_list (map f es)"
  using assms
proof (induction es)
  case (Cons e es)
  then have "k = fst e \<Longrightarrow> bt_remove k es = es"
    by (force simp: bt_remove_def filter_id_conv)
  with Cons show ?case by (cases e) (auto simp: bt_remove_def split: option.splits)
qed (simp add: bt_remove_def)

lemma bs_insert_sum:
  fixes f :: "'k::linorder \<Rightarrow> nat"
  assumes "bs_sorted xs"
  shows "sum_list (map f (bs_insert k xs)) = sum_list (map f xs) + (if k \<in> set xs then 0 else f k)"
  using assms by (induction xs) auto

lemma bs_remove_sum:
  fixes f :: "'k::linorder \<Rightarrow> nat"
  assumes "bs_sorted xs"
  shows "sum_list (map f (bs_remove k xs)) + (if k \<in> set xs then f k else 0) = sum_list (map f xs)"
  using assms
proof (induction xs)
  case (Cons x xs)
  then have "k = x \<Longrightarrow> bs_remove k xs = xs"
    by (force simp: bs_remove_def filter_id_conv)
  with Cons show ?case by (auto simp: bs_remove_def)
qed (simp add: bs_remove_def)

end
