(* ===== verification/Errors.thy ===== *)
theory Errors
  imports Elyra_Prelude
begin

section \<open>The error model\<close>

text \<open>
  \<open>crates/elyra-core/src/error.rs\<close>: the \<open>Error\<close> enum every crate returns, the kinds a
  catalog refusal and a duplicate carry, and the two functions that turn an error into what
  a MySQL client sees, the numeric code (\<open>mysql_code\<close>) and the five-character SQLSTATE
  (\<open>sqlstate\<close>). The payload of \<open>Io\<close>, a \<open>std::io::Error\<close>, is its message.
\<close>

datatype CatalogError = Missing | Exists | UnknownCol | IndexExists | UnknownIndex

datatype DuplicateError = Entry | ColumnName

datatype (plugins only: code) Error =
    Parse string
  | Catalog CatalogError string
  | UnknownDatabase string
  | UnknownTable string
  | UnknownColumn string
  | Storage string
  | StorageLocked string
  | InvalidGroupFunction string
  | Query string
  | Conflict string
  | Duplicate DuplicateError string
  | ForeignKey string
  | ReferencedRow string
  | NotNull string
  | CheckViolated string
  | DataTruncated string nat
  | Type string
  | OutOfRange string
  | DataTooLong string
  | VectorError string
  | Analytics string
  | Unsupported string
  | ReadOnlyTransaction
  | TransactionInProgress
  | DatabaseMissing string
  | IntoColumnCount
  | UndeclaredVariable string
  | RoutineMissing string string
  | AccountOperation string string
  | ViewRights string
  | TriggerMissing
  | NotView string
  | TableLockedForRead string
  | TableNotLocked string
  | ConflictingReadLock
  | UnknownCollation string
  | CollationCharset string
  | CollationMix string string string
  | NotUniqueTable string
  | SubqueryRows
  | TargetInSubquery string
  | ViewPreventsOperation string string string
  | TooManyRows
  | Io string

definition mysql_code :: "Error \<Rightarrow> u16" where
  "mysql_code e =
     (case e of
        Parse _ \<Rightarrow> 1064
      | Catalog kind _ \<Rightarrow> (case kind of Missing \<Rightarrow> 1146 | Exists \<Rightarrow> 1050 | UnknownCol \<Rightarrow> 1054
        | IndexExists \<Rightarrow> 1061 | UnknownIndex \<Rightarrow> 1176)
      | UnknownDatabase _ \<Rightarrow> 1049
      | UnknownTable _ \<Rightarrow> 1109
      | UnknownColumn _ \<Rightarrow> 1054
      | Type _ \<Rightarrow> 1366
      | OutOfRange _ \<Rightarrow> 1264
      | DataTooLong _ \<Rightarrow> 1406
      | Unsupported _ \<Rightarrow> 1235
      | Conflict _ \<Rightarrow> 1213
      | StorageLocked _ \<Rightarrow> 1015
      | InvalidGroupFunction _ \<Rightarrow> 1111
      | Duplicate ColumnName _ \<Rightarrow> 1060
      | Duplicate Entry _ \<Rightarrow> 1062
      | ForeignKey _ \<Rightarrow> 1452
      | ReferencedRow _ \<Rightarrow> 1451
      | NotNull _ \<Rightarrow> 1048
      | CheckViolated _ \<Rightarrow> 3819
      | DataTruncated _ _ \<Rightarrow> 1265
      | ReadOnlyTransaction \<Rightarrow> 1792
      | TransactionInProgress \<Rightarrow> 1568
      | DatabaseMissing _ \<Rightarrow> 1008
      | IntoColumnCount \<Rightarrow> 1222
      | TooManyRows \<Rightarrow> 1172
      | SubqueryRows \<Rightarrow> 1242
      | TargetInSubquery _ \<Rightarrow> 1093
      | ViewPreventsOperation _ _ _ \<Rightarrow> 1443
      | UndeclaredVariable _ \<Rightarrow> 1327
      | RoutineMissing _ _ \<Rightarrow> 1305
      | AccountOperation _ _ \<Rightarrow> 1396
      | ViewRights _ \<Rightarrow> 1356
      | TriggerMissing \<Rightarrow> 1360
      | NotView _ \<Rightarrow> 1347
      | TableLockedForRead _ \<Rightarrow> 1099
      | TableNotLocked _ \<Rightarrow> 1100
      | ConflictingReadLock \<Rightarrow> 1223
      | NotUniqueTable _ \<Rightarrow> 1066
      | UnknownCollation _ \<Rightarrow> 1273
      | CollationCharset _ \<Rightarrow> 1253
      | CollationMix _ _ _ \<Rightarrow> 1267
      | _ \<Rightarrow> 1105)"

definition sqlstate :: "Error \<Rightarrow> string" where
  "sqlstate e =
     (case e of
        Parse _ \<Rightarrow> ''42000''
      | Catalog kind _ \<Rightarrow> (case kind of UnknownCol \<Rightarrow> ''42S22'' | Exists \<Rightarrow> ''42S01''
        | IndexExists \<Rightarrow> ''42000'' | UnknownIndex \<Rightarrow> ''42000'' | Missing \<Rightarrow> ''42S02'')
      | UnknownDatabase _ \<Rightarrow> ''42000''
      | UnknownTable _ \<Rightarrow> ''42S02''
      | UnknownColumn _ \<Rightarrow> ''42S22''
      | OutOfRange _ \<Rightarrow> ''22003''
      | DataTooLong _ \<Rightarrow> ''22001''
      | Duplicate ColumnName _ \<Rightarrow> ''42S21''
      | Duplicate Entry _ \<Rightarrow> ''23000''
      | ForeignKey _ \<Rightarrow> ''23000''
      | ReferencedRow _ \<Rightarrow> ''23000''
      | NotNull _ \<Rightarrow> ''23000''
      | DataTruncated _ _ \<Rightarrow> ''01000''
      | ReadOnlyTransaction \<Rightarrow> ''25006''
      | TransactionInProgress \<Rightarrow> ''25001''
      | IntoColumnCount \<Rightarrow> ''21000''
      | SubqueryRows \<Rightarrow> ''21000''
      | TooManyRows \<Rightarrow> ''42000''
      | UndeclaredVariable _ \<Rightarrow> ''42000''
      | RoutineMissing _ _ \<Rightarrow> ''42000''
      | NotUniqueTable _ \<Rightarrow> ''42000''
      | CollationCharset _ \<Rightarrow> ''42000''
      | _ \<Rightarrow> ''HY000'')"

text \<open>
  Every SQLSTATE has the five characters the wire format has room for, and every code is in
  the range of MySQL's server error codes.
\<close>

lemma sqlstate_length: "length (sqlstate e) = 5"
  by (simp add: sqlstate_def split: Error.split CatalogError.split DuplicateError.split)

lemma mysql_code_range: "1000 \<le> mysql_code e \<and> mysql_code e < 4000"
  by (simp add: mysql_code_def split: Error.split CatalogError.split DuplicateError.split)

end
