(* ===== verification/Storage_Engine.thy ===== *)
theory Storage_Engine
  imports Errors
begin

section \<open>The storage engine\<close>

text \<open>
  \<open>crates/elyra-storage/src/lib.rs\<close>: one flat, ordered keyspace in one file. The file itself
  is a \<open>redb\<close> database, a third-party crate, so its operations are a parameter of the model:
  the record \<open>redb\<close> below, an argument of every definition. Each of its calls can fail with
  a message, which the code turns into \<open>Error::Storage\<close>. What the code relies on is the
  documented contract of \<open>redb\<close> (an ordered map with snapshot reads and atomic commits), the
  assumptions of the locale \<open>redb_laws\<close>.

  A write transaction that is dropped before its commit leaves the database as it was: the
  model threads the transaction as a value of its own and only \<open>rb_commit\<close> yields a new
  database.
\<close>

subsection \<open>The interface of \<open>redb\<close>\<close>

datatype durability = Immediate | Eventual

record ('db, 'tx) redb =
  rb_begin_write :: "'db \<Rightarrow> string + 'tx"
  rb_begin_read :: "'db \<Rightarrow> string + 'tx"
  rb_get :: "'tx \<Rightarrow> bytes \<Rightarrow> string + bytes option"
  rb_insert :: "'tx \<Rightarrow> bytes \<Rightarrow> bytes \<Rightarrow> string + 'tx \<times> bytes option"
  rb_remove :: "'tx \<Rightarrow> bytes \<Rightarrow> string + 'tx \<times> bytes option"
  rb_range :: "'tx \<Rightarrow> bytes \<Rightarrow> bytes option \<Rightarrow> string + (string + kv) list"
  rb_range_rev :: "'tx \<Rightarrow> bytes \<Rightarrow> bytes option \<Rightarrow> string + (string + kv) list"
  rb_commit :: "'db \<Rightarrow> durability \<Rightarrow> 'tx \<Rightarrow> string + 'db"

type_synonym kvmap = "bytes \<rightharpoonup> bytes"

definition in_range :: "bytes \<Rightarrow> bytes option \<Rightarrow> bytes \<Rightarrow> bool" where
  "in_range lo hi k \<longleftrightarrow> lo \<le> k \<and> (case hi of None \<Rightarrow> True | Some h \<Rightarrow> k < h)"

text \<open>\<open>es\<close> are the entries of \<open>m\<close> from \<open>lo\<close> (included) to \<open>hi\<close> (excluded), in key order.\<close>

definition is_range :: "kvmap \<Rightarrow> bytes \<Rightarrow> bytes option \<Rightarrow> kv list \<Rightarrow> bool" where
  "is_range m lo hi es \<longleftrightarrow> sorted_wrt (<) (map fst es)
     \<and> set es = {(k, v). m k = Some v \<and> in_range lo hi k}"

subsection \<open>State and data of the crate\<close>

record 'db storage =
  st_db :: 'db
  st_durability :: durability
  st_flush_seq :: u64
  st_wseq :: u64
  st_schema_gen :: u64

record RangeSnapshot =
  rs_start :: bytes
  rs_end :: "bytes option"
  rs_content :: "kv list"

record ValidatedCommit =
  vc_keys :: "(bytes \<times> bytes option) list"
  vc_ranges :: "RangeSnapshot list"
  vc_puts :: "kv list"
  vc_deletes :: "bytes list"

record PlainJob =
  pj_new :: "kv list option"
  pj_puts :: "kv list"
  pj_deletes :: "bytes list"

definition WSEQ_KEY :: bytes where
  "WSEQ_KEY = ascii ''meta::wseq''"

definition decode_wseq :: "bytes option \<Rightarrow> u64" where
  "decode_wseq v = (case v of Some b \<Rightarrow> (if length b = 8 then from_le_bytes b else 0) | None \<Rightarrow> 0)"

definition SCHEMA_PREFIXES :: "bytes list" where
  "SCHEMA_PREFIXES = map ascii [''sys::'', ''catalog::'', ''view::'', ''viewsec::'', ''matview::'',
     ''coldecl::'', ''colwidth::'', ''meta::generation::'']"

definition touches_schema :: "bytes list \<Rightarrow> bool" where
  "touches_schema ks \<longleftrightarrow> (\<exists>k \<in> set ks. \<exists>p \<in> set SCHEMA_PREFIXES. starts_with k p)"

definition bump_schema_generation :: "'db storage \<Rightarrow> 'db storage" where
  "bump_schema_generation s = s\<lparr>st_schema_gen := st_schema_gen s + 1\<rparr>"

text \<open>
  The loop of \<open>prefix_upper_bound\<close> drops trailing \<open>0xFF\<close> bytes and increments the last one
  that is left. It is written on the reversed prefix, whose head is \<open>u.last()\<close>.
\<close>

fun prefix_upper_bound_rev :: "bytes \<Rightarrow> bytes option" where
  "prefix_upper_bound_rev [] = None"
| "prefix_upper_bound_rev (b # u) =
     (if b < 0xFF then Some (rev ((b + 1) # u)) else prefix_upper_bound_rev u)"

definition prefix_upper_bound :: "bytes \<Rightarrow> bytes option" where
  "prefix_upper_bound prefix = prefix_upper_bound_rev (rev prefix)"

subsection \<open>Write transactions\<close>

text \<open>
  Every write path ends the same way: the next write sequence is taken and stored under
  \<open>meta::wseq\<close>, the transaction is committed at the configured durability, and the schema
  generation moves on when a schema key was touched. The sequence number is used up even
  when the commit then fails.
\<close>

definition wseq_commit ::
  "('db, 'tx) redb \<Rightarrow> 'db storage \<Rightarrow> 'tx \<Rightarrow> bool \<Rightarrow> 'db storage \<times> (Error + unit)" where
  "wseq_commit R s t schema =
     (let n = st_wseq s + 1; s1 = s\<lparr>st_wseq := n\<rparr> in
      case rb_insert R t WSEQ_KEY (to_le_bytes 8 n) of
        Inl e \<Rightarrow> (s1, Inl (Storage e))
      | Inr (t', _) \<Rightarrow>
          (case rb_commit R (st_db s) (st_durability s) t' of
             Inl e \<Rightarrow> (s1, Inl (Storage e))
           | Inr db' \<Rightarrow>
               (let s2 = s1\<lparr>st_db := db'\<rparr>
                in (if schema then bump_schema_generation s2 else s2, Inr ()))))"

definition write_txn ::
  "('db, 'tx) redb \<Rightarrow> 'db storage \<Rightarrow> ('tx \<Rightarrow> Error + 'tx \<times> 'r \<times> bool)
     \<Rightarrow> 'db storage \<times> (Error + 'r)" where
  "write_txn R s body =
     (case rb_begin_write R (st_db s) of
        Inl e \<Rightarrow> (s, Inl (Storage e))
      | Inr t \<Rightarrow>
          (case body t of
             Inl e \<Rightarrow> (s, Inl e)
           | Inr (t', r, schema) \<Rightarrow>
               (let (s', c) = wseq_commit R s t' schema in (s', bindE c (\<lambda>_. Inr r)))))"

definition tx_remove :: "('db, 'tx) redb \<Rightarrow> 'tx \<Rightarrow> bytes \<Rightarrow> Error + 'tx" where
  "tx_remove R t k = map_err Storage (bindE (rb_remove R t k) (\<lambda>(t', _). Inr t'))"

definition tx_insert :: "('db, 'tx) redb \<Rightarrow> 'tx \<Rightarrow> kv \<Rightarrow> Error + 'tx" where
  "tx_insert R t e = map_err Storage (bindE (rb_insert R t (fst e) (snd e)) (\<lambda>(t', _). Inr t'))"

definition delete_all :: "('db, 'tx) redb \<Rightarrow> 'tx \<Rightarrow> bytes list \<Rightarrow> Error + 'tx" where
  "delete_all R = foldE (tx_remove R)"

definition insert_all :: "('db, 'tx) redb \<Rightarrow> 'tx \<Rightarrow> kv list \<Rightarrow> Error + 'tx" where
  "insert_all R = foldE (tx_insert R)"

definition storage_put ::
  "('db, 'tx) redb \<Rightarrow> 'db storage \<Rightarrow> bytes \<Rightarrow> bytes \<Rightarrow> 'db storage \<times> (Error + unit)" where
  "storage_put R s key value =
     write_txn R s (\<lambda>t. bindE (tx_insert R t (key, value)) (\<lambda>t. Inr (t, (), touches_schema [key])))"

definition storage_delete ::
  "('db, 'tx) redb \<Rightarrow> 'db storage \<Rightarrow> bytes \<Rightarrow> 'db storage \<times> (Error + bool)" where
  "storage_delete R s key =
     write_txn R s (\<lambda>t. bindE (map_err Storage (rb_remove R t key))
       (\<lambda>(t, old). Inr (t, old \<noteq> None, touches_schema [key])))"

definition storage_apply ::
  "('db, 'tx) redb \<Rightarrow> 'db storage \<Rightarrow> kv list \<Rightarrow> bytes list \<Rightarrow> 'db storage \<times> (Error + unit)" where
  "storage_apply R s puts deletes =
     write_txn R s (\<lambda>t. bindE (delete_all R t deletes) (\<lambda>t. bindE (insert_all R t puts)
       (\<lambda>t. Inr (t, (), touches_schema (map fst puts) \<or> touches_schema deletes))))"

text \<open>
  \<open>apply_insert\<close>: the first key of \<open>new\<close> that was already present aborts the transaction.
\<close>

definition duplicate_primary :: Error where
  "duplicate_primary =
     Duplicate Entry (''Duplicate entry for key '' @ CHR 0x27 # ''PRIMARY'' @ [CHR 0x27])"

definition insert_new :: "('db, 'tx) redb \<Rightarrow> 'tx \<Rightarrow> kv \<Rightarrow> Error + 'tx" where
  "insert_new R t e =
     bindE (map_err Storage (rb_insert R t (fst e) (snd e))) (\<lambda>(t', old).
       if old \<noteq> None then Inl duplicate_primary else Inr t')"

definition apply_insert ::
  "('db, 'tx) redb \<Rightarrow> 'db storage \<Rightarrow> kv list \<Rightarrow> kv list \<Rightarrow> bytes list
     \<Rightarrow> 'db storage \<times> (Error + unit)" where
  "apply_insert R s new aux deletes =
     write_txn R s (\<lambda>t. bindE (delete_all R t deletes) (\<lambda>t. bindE (foldE (insert_new R) t new)
       (\<lambda>t. bindE (insert_all R t aux)
       (\<lambda>t. Inr (t, (), touches_schema (map fst (new @ aux)) \<or> touches_schema deletes)))))"

text \<open>
  Optimistic validation: the loops over the expected keys and over the scanned ranges stop
  at the first difference.
\<close>

fun collect_items :: "(string + kv) list \<Rightarrow> string + kv list" where
  "collect_items [] = Inr []"
| "collect_items (i # is) = bindE i (\<lambda>e. bindE (collect_items is) (\<lambda>es. Inr (e # es)))"

fun keys_match :: "('db, 'tx) redb \<Rightarrow> 'tx \<Rightarrow> (bytes \<times> bytes option) list \<Rightarrow> Error + bool" where
  "keys_match R t [] = Inr True"
| "keys_match R t ((k, exp) # ks) =
     bindE (map_err Storage (rb_get R t k)) (\<lambda>current.
       if current \<noteq> exp then Inr False else keys_match R t ks)"

fun ranges_match :: "('db, 'tx) redb \<Rightarrow> 'tx \<Rightarrow> RangeSnapshot list \<Rightarrow> Error + bool" where
  "ranges_match R t [] = Inr True"
| "ranges_match R t (r # rs) =
     bindE (map_err Storage (rb_range R t (rs_start r) (rs_end r))) (\<lambda>items.
       bindE (map_err Storage (collect_items items)) (\<lambda>current.
         if current \<noteq> rs_content r then Inr False else ranges_match R t rs))"

definition row_conflict :: Error where
  "row_conflict = Conflict ''row modified by another transaction since snapshot''"

definition range_conflict :: Error where
  "range_conflict = Conflict ''a scanned range changed since snapshot (phantom or update)''"

definition apply_validated ::
  "('db, 'tx) redb \<Rightarrow> 'db storage \<Rightarrow> (bytes \<times> bytes option) list \<Rightarrow> RangeSnapshot list
     \<Rightarrow> kv list \<Rightarrow> bytes list \<Rightarrow> 'db storage \<times> (Error + unit)" where
  "apply_validated R s keys ranges puts deletes =
     write_txn R s (\<lambda>t. bindE (keys_match R t keys) (\<lambda>ok. if \<not> ok then Inl row_conflict else
       bindE (ranges_match R t ranges) (\<lambda>ok. if \<not> ok then Inl range_conflict else
       bindE (delete_all R t deletes) (\<lambda>t. bindE (insert_all R t puts)
       (\<lambda>t. Inr (t, (), touches_schema (map fst puts) \<or> touches_schema deletes))))))"

text \<open>
  The group commit of validated transactions: one write transaction, each job validated
  against the state the earlier jobs of the batch left.
\<close>

definition validated_step ::
  "('db, 'tx) redb \<Rightarrow> 'tx \<times> (Error + unit) list \<Rightarrow> ValidatedCommit
     \<Rightarrow> Error + 'tx \<times> (Error + unit) list" where
  "validated_step R st job =
     (let (t, results) = st in
      bindE (keys_match R t (vc_keys job)) (\<lambda>ok.
      bindE (if ok then ranges_match R t (vc_ranges job) else Inr False) (\<lambda>ok.
        if ok then
          bindE (delete_all R t (vc_deletes job)) (\<lambda>t. bindE (insert_all R t (vc_puts job))
            (\<lambda>t. Inr (t, results @ [Inr ()])))
        else Inr (t, results @ [Inl row_conflict]))))"

definition apply_validated_batch ::
  "('db, 'tx) redb \<Rightarrow> 'db storage \<Rightarrow> ValidatedCommit list
     \<Rightarrow> 'db storage \<times> (Error + (Error + unit) list)" where
  "apply_validated_batch R s jobs =
     write_txn R s (\<lambda>t. bindE (foldE (validated_step R) (t, []) jobs) (\<lambda>(t, results).
       Inr (t, results,
         \<exists>j \<in> set jobs. touches_schema (map fst (vc_puts j)) \<or> touches_schema (vc_deletes j))))"

text \<open>
  The group commit of plain and \<open>INSERT\<close> jobs: a job whose new keys are present (after its
  own deletes) or repeat is refused before any of it is written.
\<close>

fun finds_duplicate ::
  "('db, 'tx) redb \<Rightarrow> 'tx \<Rightarrow> bytes set \<Rightarrow> bytes set \<Rightarrow> kv list \<Rightarrow> Error + bool" where
  "finds_duplicate R t deleted seen [] = Inr False"
| "finds_duplicate R t deleted seen ((k, v) # new) =
     bindE (if k \<in> deleted then Inr False
            else bindE (map_err Storage (rb_get R t k)) (\<lambda>cur. Inr (cur \<noteq> None))) (\<lambda>present.
       if present \<or> k \<in> seen then Inr True
       else finds_duplicate R t deleted (insert k seen) new)"

definition job_step ::
  "('db, 'tx) redb \<Rightarrow> 'tx \<times> (Error + unit) list \<times> bool \<Rightarrow> PlainJob
     \<Rightarrow> Error + 'tx \<times> (Error + unit) list \<times> bool" where
  "job_step R st job =
     (let (t, results, schema) = st; new = (case pj_new job of None \<Rightarrow> [] | Some n \<Rightarrow> n) in
      bindE (case pj_new job of None \<Rightarrow> Inr False
             | Some n \<Rightarrow> finds_duplicate R t (set (pj_deletes job)) {} n) (\<lambda>duplicate.
        if duplicate then Inr (t, results @ [Inl duplicate_primary], schema)
        else
          bindE (delete_all R t (pj_deletes job)) (\<lambda>t.
          bindE (insert_all R t (new @ pj_puts job)) (\<lambda>t.
            Inr (t, results @ [Inr ()],
              schema \<or> touches_schema (map fst (new @ pj_puts job))
                \<or> touches_schema (pj_deletes job))))))"

definition apply_jobs ::
  "('db, 'tx) redb \<Rightarrow> 'db storage \<Rightarrow> PlainJob list
     \<Rightarrow> 'db storage \<times> (Error + (Error + unit) list)" where
  "apply_jobs R s jobs =
     write_txn R s (\<lambda>t. foldE (job_step R) (t, [], False) jobs)"

text \<open>
  \<open>flush\<close> commits a marker of its own at \<open>Immediate\<close> durability, so that the commits queued
  before it are on disk; it does not move the write sequence.
\<close>

definition storage_flush ::
  "('db, 'tx) redb \<Rightarrow> 'db storage \<Rightarrow> 'db storage \<times> (Error + unit)" where
  "storage_flush R s =
     (let n = st_flush_seq s + 1; s1 = s\<lparr>st_flush_seq := n\<rparr> in
      case rb_begin_write R (st_db s) of
        Inl e \<Rightarrow> (s1, Inl (Storage e))
      | Inr t \<Rightarrow>
          (case rb_insert R t (ascii ''meta::flush_seq'') (to_le_bytes 8 n) of
             Inl e \<Rightarrow> (s1, Inl (Storage e))
           | Inr (t', _) \<Rightarrow>
               (case rb_commit R (st_db s) Immediate t' of
                  Inl e \<Rightarrow> (s1, Inl (Storage e))
                | Inr db' \<Rightarrow> (s1\<lparr>st_db := db'\<rparr>, Inr ()))))"

subsection \<open>Reads\<close>

definition snapshot_get :: "('db, 'tx) redb \<Rightarrow> 'tx \<Rightarrow> bytes \<Rightarrow> Error + bytes option" where
  "snapshot_get R t key = map_err Storage (rb_get R t key)"

fun snapshot_multi_get ::
  "('db, 'tx) redb \<Rightarrow> 'tx \<Rightarrow> bytes list \<Rightarrow> Error + bytes option list" where
  "snapshot_multi_get R t [] = Inr []"
| "snapshot_multi_get R t (k # ks) =
     bindE (map_err Storage (rb_get R t k)) (\<lambda>v.
     bindE (snapshot_multi_get R t ks) (\<lambda>vs. Inr (v # vs)))"

text \<open>
  \<open>scan_range\<close>: the loop pushes an entry and then tests the length, so a limit of \<open>0\<close> still
  returns one entry. The accumulator is the output so far.
\<close>

definition push_limited ::
  "nat \<Rightarrow> kv list \<Rightarrow> string + kv \<Rightarrow> Error + kv list \<times> bool" where
  "push_limited limit out item =
     bindE (map_err Storage item) (\<lambda>e.
       let out' = out @ [e] in Inr (out', \<not> limit \<le> length out'))"

definition snapshot_scan_range ::
  "('db, 'tx) redb \<Rightarrow> 'tx \<Rightarrow> bytes \<Rightarrow> bytes option \<Rightarrow> nat \<Rightarrow> Error + kv list" where
  "snapshot_scan_range R t start end limit =
     bindE (map_err Storage (rb_range R t start end)) (foldE_until (push_limited limit) [])"

definition storage_snapshot :: "('db, 'tx) redb \<Rightarrow> 'db storage \<Rightarrow> Error + 'tx" where
  "storage_snapshot R s = map_err Storage (rb_begin_read R (st_db s))"

definition storage_get :: "('db, 'tx) redb \<Rightarrow> 'db storage \<Rightarrow> bytes \<Rightarrow> Error + bytes option" where
  "storage_get R s key = bindE (storage_snapshot R s) (\<lambda>t. snapshot_get R t key)"

definition storage_multi_get ::
  "('db, 'tx) redb \<Rightarrow> 'db storage \<Rightarrow> bytes list \<Rightarrow> Error + bytes option list" where
  "storage_multi_get R s keys = bindE (storage_snapshot R s) (\<lambda>t. snapshot_multi_get R t keys)"

definition storage_scan_range ::
  "('db, 'tx) redb \<Rightarrow> 'db storage \<Rightarrow> bytes \<Rightarrow> bytes option \<Rightarrow> nat \<Rightarrow> Error + kv list" where
  "storage_scan_range R s start end limit =
     bindE (storage_snapshot R s) (\<lambda>t. snapshot_scan_range R t start end limit)"

definition write_epoch :: "('db, 'tx) redb \<Rightarrow> 'db storage \<Rightarrow> Error + u64" where
  "write_epoch R s = bindE (storage_get R s WSEQ_KEY) (\<lambda>v. Inr (decode_wseq v))"

text \<open>\<open>scan_batch\<close>: from the cursor (or the prefix) on, until the prefix or the limit ends it.\<close>

definition batch_lower :: "bytes \<Rightarrow> bytes option \<Rightarrow> bytes" where
  "batch_lower prefix after = (case after of Some a \<Rightarrow> a @ [0] | None \<Rightarrow> prefix)"

definition push_prefixed ::
  "bytes \<Rightarrow> nat \<Rightarrow> kv list \<Rightarrow> string + kv \<Rightarrow> Error + kv list \<times> bool" where
  "push_prefixed prefix limit out item =
     bindE (map_err Storage item) (\<lambda>e.
       if \<not> starts_with (fst e) prefix then Inr (out, False)
       else let out' = out @ [e] in Inr (out', \<not> limit \<le> length out'))"

definition scan_batch ::
  "('db, 'tx) redb \<Rightarrow> 'db storage \<Rightarrow> bytes \<Rightarrow> bytes option \<Rightarrow> nat \<Rightarrow> Error + kv list" where
  "scan_batch R s prefix after limit =
     bindE (storage_snapshot R s) (\<lambda>t.
     bindE (map_err Storage (rb_range R t (batch_lower prefix after) None))
       (foldE_until (push_prefixed prefix limit) []))"

definition count_prefix :: "('db, 'tx) redb \<Rightarrow> 'db storage \<Rightarrow> bytes \<Rightarrow> Error + nat" where
  "count_prefix R s prefix =
     bindE (storage_snapshot R s) (\<lambda>t.
     bindE (map_err Storage (rb_range R t prefix (prefix_upper_bound prefix)))
       (foldE (\<lambda>n item. bindE (map_err Storage item) (\<lambda>_. Inr (n + 1))) 0))"

text \<open>
  The paging loop of a replica's bootstrap snapshot (\<open>repl.rs\<close>) and of the catalog scans:
  the last key of a batch is the next cursor, a batch shorter than the chunk is the last. The
  loop is given fuel; \<open>None\<close> is running out of it.
\<close>

fun page_all ::
  "nat \<Rightarrow> ('db, 'tx) redb \<Rightarrow> 'db storage \<Rightarrow> bytes \<Rightarrow> nat \<Rightarrow> bytes option
     \<Rightarrow> (Error + kv list list) option" where
  "page_all 0 R s prefix chunk cursor = None"
| "page_all (Suc fuel) R s prefix chunk cursor =
     (case scan_batch R s prefix cursor chunk of
        Inl e \<Rightarrow> Some (Inl e)
      | Inr batch \<Rightarrow>
          if batch = [] then Some (Inr [])
          else if length batch < chunk then Some (Inr [batch])
          else map_option (\<lambda>r. bindE r (\<lambda>pages. Inr (batch # pages)))
                 (page_all fuel R s prefix chunk (Some (fst (last batch)))))"

text \<open>\<open>scan_prefix_until\<close>: the callback is a state transformer that says whether to go on.\<close>

definition visit_prefixed ::
  "bytes \<Rightarrow> ('a \<Rightarrow> bytes \<Rightarrow> bytes \<Rightarrow> Error + 'a \<times> bool) \<Rightarrow> 'a \<Rightarrow> string + kv
     \<Rightarrow> Error + 'a \<times> bool" where
  "visit_prefixed prefix f acc item =
     bindE (map_err Storage item) (\<lambda>e.
       if \<not> starts_with (fst e) prefix then Inr (acc, False) else f acc (fst e) (snd e))"

definition scan_prefix_until ::
  "('db, 'tx) redb \<Rightarrow> 'db storage \<Rightarrow> bytes \<Rightarrow> ('a \<Rightarrow> bytes \<Rightarrow> bytes \<Rightarrow> Error + 'a \<times> bool)
     \<Rightarrow> 'a \<Rightarrow> Error + 'a" where
  "scan_prefix_until R s prefix f acc =
     bindE (storage_snapshot R s) (\<lambda>t.
     bindE (map_err Storage (rb_range R t prefix None))
       (foldE_until (visit_prefixed prefix f) acc))"

definition scan_prefix_each ::
  "('db, 'tx) redb \<Rightarrow> 'db storage \<Rightarrow> bytes \<Rightarrow> ('a \<Rightarrow> bytes \<Rightarrow> bytes \<Rightarrow> Error + 'a)
     \<Rightarrow> 'a \<Rightarrow> Error + 'a" where
  "scan_prefix_each R s prefix f acc =
     scan_prefix_until R s prefix (\<lambda>a k v. bindE (f a k v) (\<lambda>a. Inr (a, True))) acc"

text \<open>\<open>scan_prefix\<close> walks the whole keyspace and keeps the keys with the prefix.\<close>

definition scan_prefix :: "('db, 'tx) redb \<Rightarrow> 'db storage \<Rightarrow> bytes \<Rightarrow> Error + kv list" where
  "scan_prefix R s prefix =
     bindE (storage_snapshot R s) (\<lambda>t.
     bindE (map_err Storage (rb_range R t [] None))
       (foldE (\<lambda>out item. bindE (map_err Storage item) (\<lambda>e.
          Inr (if starts_with (fst e) prefix then out @ [e] else out))) []))"

text \<open>The range scans with a callback, on a snapshot and on the current state.\<close>

definition snapshot_scan_range_each ::
  "('db, 'tx) redb \<Rightarrow> 'tx \<Rightarrow> bytes \<Rightarrow> bytes option \<Rightarrow> ('a \<Rightarrow> bytes \<Rightarrow> bytes \<Rightarrow> Error + 'a)
     \<Rightarrow> 'a \<Rightarrow> Error + 'a" where
  "snapshot_scan_range_each R t start end f acc =
     bindE (map_err Storage (rb_range R t start end))
       (foldE (\<lambda>a item. bindE (map_err Storage item) (\<lambda>e. f a (fst e) (snd e))) acc)"

definition snapshot_scan_prefix_each ::
  "('db, 'tx) redb \<Rightarrow> 'tx \<Rightarrow> bytes \<Rightarrow> ('a \<Rightarrow> bytes \<Rightarrow> bytes \<Rightarrow> Error + 'a) \<Rightarrow> 'a \<Rightarrow> Error + 'a" where
  "snapshot_scan_prefix_each R t prefix f acc =
     snapshot_scan_range_each R t prefix (prefix_upper_bound prefix) f acc"

definition scan_range_each ::
  "('db, 'tx) redb \<Rightarrow> 'db storage \<Rightarrow> bytes \<Rightarrow> bytes \<Rightarrow> ('a \<Rightarrow> bytes \<Rightarrow> bytes \<Rightarrow> Error + 'a)
     \<Rightarrow> 'a \<Rightarrow> Error + 'a" where
  "scan_range_each R s start end f acc =
     bindE (storage_snapshot R s) (\<lambda>t. snapshot_scan_range_each R t start (Some end) f acc)"

text \<open>
  The reverse scan and the ordered index walks count down a number of entries to skip before
  they call back. An index entry's value is the key of the row it stands for; an entry whose
  row is gone is passed over.
\<close>

definition visit_prefixed_skip ::
  "bytes \<Rightarrow> ('a \<Rightarrow> bytes \<Rightarrow> bytes \<Rightarrow> Error + 'a \<times> bool) \<Rightarrow> 'a \<times> nat \<Rightarrow> string + kv
     \<Rightarrow> Error + ('a \<times> nat) \<times> bool" where
  "visit_prefixed_skip prefix f st item =
     (let (acc, remaining_skip) = st in
      bindE (map_err Storage item) (\<lambda>e.
        if \<not> starts_with (fst e) prefix then Inr (st, False)
        else if remaining_skip > 0 then Inr ((acc, remaining_skip - 1), True)
        else bindE (f acc (fst e) (snd e)) (\<lambda>(acc', go). Inr ((acc', remaining_skip), go))))"

definition scan_prefix_rev_until ::
  "('db, 'tx) redb \<Rightarrow> 'db storage \<Rightarrow> bytes \<Rightarrow> nat \<Rightarrow> ('a \<Rightarrow> bytes \<Rightarrow> bytes \<Rightarrow> Error + 'a \<times> bool)
     \<Rightarrow> 'a \<Rightarrow> Error + 'a" where
  "scan_prefix_rev_until R s prefix skip f acc =
     bindE (storage_snapshot R s) (\<lambda>t.
     bindE (map_err Storage (rb_range_rev R t prefix (prefix_upper_bound prefix))) (\<lambda>items.
     bindE (foldE_until (visit_prefixed_skip prefix f) (acc, skip) items) (\<lambda>st. Inr (fst st))))"

definition visit_row ::
  "('db, 'tx) redb \<Rightarrow> 'tx \<Rightarrow> ('a \<Rightarrow> bytes \<Rightarrow> bytes \<Rightarrow> Error + 'a \<times> bool) \<Rightarrow> 'a \<Rightarrow> bytes
     \<Rightarrow> Error + 'a \<times> bool" where
  "visit_row R t f acc data_key =
     bindE (map_err Storage (rb_get R t data_key)) (\<lambda>row.
       case row of Some r \<Rightarrow> f acc data_key r | None \<Rightarrow> Inr (acc, True))"

definition index_visit ::
  "('db, 'tx) redb \<Rightarrow> 'tx \<Rightarrow> ('a \<Rightarrow> bytes \<Rightarrow> bytes \<Rightarrow> Error + 'a \<times> bool) \<Rightarrow> 'a \<times> nat
     \<Rightarrow> string + kv \<Rightarrow> Error + ('a \<times> nat) \<times> bool" where
  "index_visit R t f st item =
     (let (acc, remaining_skip) = st in
      bindE (map_err Storage item) (\<lambda>e.
        if remaining_skip > 0 then Inr ((acc, remaining_skip - 1), True)
        else bindE (visit_row R t f acc (snd e)) (\<lambda>(acc', go). Inr ((acc', remaining_skip), go))))"

definition directed_range ::
  "('db, 'tx) redb \<Rightarrow> 'tx \<Rightarrow> bool \<Rightarrow> bytes \<Rightarrow> Error + (string + kv) list" where
  "directed_range R t rv prefix =
     map_err Storage ((if rv then rb_range_rev R else rb_range R) t prefix (prefix_upper_bound prefix))"

definition scan_index_ordered ::
  "('db, 'tx) redb \<Rightarrow> 'db storage \<Rightarrow> bytes \<Rightarrow> bool \<Rightarrow> nat
     \<Rightarrow> ('a \<Rightarrow> bytes \<Rightarrow> bytes \<Rightarrow> Error + 'a \<times> bool) \<Rightarrow> 'a \<Rightarrow> Error + 'a" where
  "scan_index_ordered R s index_prefix rv skip f acc =
     bindE (storage_snapshot R s) (\<lambda>t.
     bindE (directed_range R t rv index_prefix) (\<lambda>items.
     bindE (foldE_until (index_visit R t f) (acc, skip) items) (\<lambda>st. Inr (fst st))))"

text \<open>
  \<open>scan_two_ordered\<close> walks two prefixes in turn. Its \<open>stop\<close> flag is the third component of
  the state: a callback that stops the first walk also keeps the second from starting.
\<close>

definition two_visit ::
  "('db, 'tx) redb \<Rightarrow> 'tx \<Rightarrow> ('a \<Rightarrow> bytes \<Rightarrow> bytes \<Rightarrow> Error + 'a \<times> bool) \<Rightarrow> 'a \<times> nat \<times> bool
     \<Rightarrow> string + kv \<Rightarrow> Error + ('a \<times> nat \<times> bool) \<times> bool" where
  "two_visit R t f st item =
     (let (acc, remaining_skip, stop) = st in
      bindE (map_err Storage item) (\<lambda>e.
        if remaining_skip > 0 then Inr ((acc, remaining_skip - 1, stop), True)
        else bindE (visit_row R t f acc (snd e)) (\<lambda>(acc', go).
          Inr ((acc', remaining_skip, \<not> go), go))))"

definition scan_two_ordered ::
  "('db, 'tx) redb \<Rightarrow> 'db storage \<Rightarrow> bytes \<Rightarrow> bytes \<Rightarrow> bool \<Rightarrow> nat
     \<Rightarrow> ('a \<Rightarrow> bytes \<Rightarrow> bytes \<Rightarrow> Error + 'a \<times> bool) \<Rightarrow> 'a \<Rightarrow> Error + 'a" where
  "scan_two_ordered R s first second rv skip f acc =
     bindE (storage_snapshot R s) (\<lambda>t.
     bindE (foldE (\<lambda>st prefix.
         if snd (snd st) then Inr st
         else bindE (directed_range R t rv prefix) (foldE_until (two_visit R t f) st))
       (acc, skip, False) [first, second]) (\<lambda>st. Inr (fst st)))"

text \<open>The first and the last key under a prefix.\<close>

definition prefix_bounds ::
  "('db, 'tx) redb \<Rightarrow> 'db storage \<Rightarrow> bytes \<Rightarrow> Error + (bytes \<times> bytes) option" where
  "prefix_bounds R s prefix =
     bindE (storage_snapshot R s) (\<lambda>t.
     bindE (map_err Storage (rb_range R t prefix (prefix_upper_bound prefix))) (\<lambda>items.
       case items of
         [] \<Rightarrow> Inr None
       | i # rest \<Rightarrow>
           bindE (map_err Storage i) (\<lambda>first.
             case rest of
               [] \<Rightarrow> Inr (Some (fst first, fst first))
             | _ \<Rightarrow> bindE (map_err Storage (last rest)) (\<lambda>l. Inr (Some (fst first, fst l))))))"

subsection \<open>Opening a file and copying it\<close>

text \<open>
  \<open>Storage::open\<close>: \<open>created\<close> is the outcome of \<open>redb\<close>'s \<open>create\<close> on the path,
  \<open>configured\<close> the durability the environment asks for. The write sequence resumes from the
  value the file holds.
\<close>

datatype 'db open_result = Opened 'db | DatabaseAlreadyOpen | OpenFailed string

definition storage_open ::
  "('db, 'tx) redb \<Rightarrow> string \<Rightarrow> 'db open_result \<Rightarrow> durability \<Rightarrow> u64 \<Rightarrow> Error + 'db storage" where
  "storage_open R path created configured schema_gen =
     (case created of
        DatabaseAlreadyOpen \<Rightarrow> Inl (StorageLocked path)
      | OpenFailed e \<Rightarrow> Inl (Storage e)
      | Opened db \<Rightarrow>
          bindE (map_err Storage (rb_begin_write R db)) (\<lambda>t.
          bindE (map_err Storage (rb_get R t WSEQ_KEY)) (\<lambda>v.
          bindE (map_err Storage (rb_commit R db Immediate t)) (\<lambda>db'.
            Inr (bump_schema_generation
              \<lparr>st_db = db', st_durability = configured, st_flush_seq = 0, st_wseq = decode_wseq v,
               st_schema_gen = schema_gen\<rparr>)))))"

text \<open>
  \<open>backup_to\<close>: the snapshot is copied into the fresh database \<open>out\<close> in transactions of at
  most \<open>BATCH\<close> entries.
\<close>

definition BACKUP_BATCH :: nat where
  "BACKUP_BATCH = 50000"

definition backup_flush :: "('db, 'tx) redb \<Rightarrow> 'db \<Rightarrow> kv list \<Rightarrow> Error + 'db" where
  "backup_flush R out batch =
     (if batch = [] then Inr out
      else bindE (map_err Storage (rb_begin_write R out)) (\<lambda>t.
           bindE (insert_all R t batch) (\<lambda>t. map_err Storage (rb_commit R out Immediate t))))"

definition backup_step ::
  "('db, 'tx) redb \<Rightarrow> 'db \<times> kv list \<times> nat \<Rightarrow> string + kv \<Rightarrow> Error + 'db \<times> kv list \<times> nat" where
  "backup_step R st item =
     (let (out, batch, count) = st in
      bindE (map_err Storage item) (\<lambda>e.
        let batch' = batch @ [e] in
        if length batch' \<ge> BACKUP_BATCH
        then bindE (backup_flush R out batch') (\<lambda>out'. Inr (out', [], count + 1))
        else Inr (out, batch', count + 1)))"

definition backup_to ::
  "('db, 'tx) redb \<Rightarrow> 'tx \<Rightarrow> string \<Rightarrow> bool \<Rightarrow> string + 'db \<Rightarrow> Error + 'db \<times> nat" where
  "backup_to R src dest dest_exists create =
     (if dest_exists then Inl (Storage (''backup target already exists: '' @ dest))
      else bindE (map_err Storage create) (\<lambda>out.
           bindE (map_err Storage (rb_range R src [] None)) (\<lambda>items.
           bindE (foldE (backup_step R) (out, [], 0) items) (\<lambda>(out, batch, count).
           bindE (backup_flush R out batch) (\<lambda>out'. Inr (out', count))))))"

text \<open>The byte strings written out, for evaluation.\<close>

lemma WSEQ_KEY_bytes [code]: "WSEQ_KEY = [109, 101, 116, 97, 58, 58, 119, 115, 101, 113]"
  by (simp add: WSEQ_KEY_def ascii_def)

lemma SCHEMA_PREFIXES_bytes [code]: "SCHEMA_PREFIXES =
     [[115, 121, 115, 58, 58],
      [99, 97, 116, 97, 108, 111, 103, 58, 58],
      [118, 105, 101, 119, 58, 58],
      [118, 105, 101, 119, 115, 101, 99, 58, 58],
      [109, 97, 116, 118, 105, 101, 119, 58, 58],
      [99, 111, 108, 100, 101, 99, 108, 58, 58],
      [99, 111, 108, 119, 105, 100, 116, 104, 58, 58],
      [109, 101, 116, 97, 58, 58, 103, 101, 110, 101, 114, 97, 116, 105, 111, 110, 58, 58]]"
  by (simp add: SCHEMA_PREFIXES_def ascii_def)

end
