(* ===== verification/Storage_Laws.thy ===== *)
theory Storage_Laws
  imports Storage_Engine
begin

section \<open>What the storage engine guarantees\<close>

text \<open>
  The contract of \<open>redb\<close> as a locale, the effect of every write path on the keyspace seen as
  a map, and the reference implementation of \<open>redb\<close> (a sorted association list) that the
  witnesses run on.
\<close>

subsection \<open>The keyspace as a map\<close>

definition put_map :: "kvmap \<Rightarrow> kv list \<Rightarrow> kvmap" where
  "put_map = foldl (\<lambda>m e. m(fst e \<mapsto> snd e))"

definition del_map :: "kvmap \<Rightarrow> bytes list \<Rightarrow> kvmap" where
  "del_map = foldl (\<lambda>m k. m(k := None))"

definition apply_map :: "kvmap \<Rightarrow> kv list \<Rightarrow> bytes list \<Rightarrow> kvmap" where
  "apply_map m puts deletes = put_map (del_map m deletes) puts"

definition keys_valid :: "kvmap \<Rightarrow> (bytes \<times> bytes option) list \<Rightarrow> bool" where
  "keys_valid m keys \<longleftrightarrow> (\<forall>(k, e) \<in> set keys. m k = e)"

definition ranges_valid :: "kvmap \<Rightarrow> RangeSnapshot list \<Rightarrow> bool" where
  "ranges_valid m ranges \<longleftrightarrow>
     (\<forall>r \<in> set ranges. is_range m (rs_start r) (rs_end r) (rs_content r))"

lemma del_map_apply: "del_map m ks k = (if k \<in> set ks then None else m k)"
  unfolding del_map_def by (induction ks arbitrary: m) auto

lemma put_map_apply:
  "put_map m es k = (case map_of (rev es) k of None \<Rightarrow> m k | Some v \<Rightarrow> Some v)"
  unfolding put_map_def
  by (induction es arbitrary: m) (auto simp: map_add_def split: option.splits)

lemma put_map_append: "put_map m (xs @ ys) = put_map (put_map m xs) ys"
  by (simp add: put_map_def)

lemma put_map_Cons [simp]: "put_map m (e # es) = put_map (m(fst e \<mapsto> snd e)) es"
  by (simp add: put_map_def)

lemma put_map_Nil [simp]: "put_map m [] = m"
  by (simp add: put_map_def)

text \<open>Two keyspaces that agree outside a key stay in agreement under the same writes.\<close>

definition agree_off :: "bytes \<Rightarrow> kvmap \<Rightarrow> kvmap \<Rightarrow> bool" where
  "agree_off x m m' \<longleftrightarrow> (\<forall>k. k \<noteq> x \<longrightarrow> m k = m' k)"

lemma agree_off_refl [simp]: "agree_off x m m"
  by (simp add: agree_off_def)

lemma agree_off_upd [simp]:
  "agree_off x (m(x \<mapsto> v)) m' = agree_off x m m'" "agree_off x m (m'(x \<mapsto> v)) = agree_off x m m'"
  by (auto simp: agree_off_def)

lemma agree_off_apply_map:
  "agree_off x m m' \<Longrightarrow> agree_off x (apply_map m puts dels) (apply_map m' puts dels)"
  by (auto simp: agree_off_def apply_map_def put_map_apply del_map_apply split: option.split)

lemma is_range_unique: "is_range m lo hi es \<Longrightarrow> is_range m lo hi fs \<Longrightarrow> es = fs"
  by (rule sorted_keys_unique) (auto simp: is_range_def)

lemma is_range_agree:
  assumes "agree_off x m m'" and "\<not> in_range lo hi x"
  shows "is_range m lo hi es \<longleftrightarrow> is_range m' lo hi es"
proof -
  have "{(k, v). m k = Some v \<and> in_range lo hi k} = {(k, v). m' k = Some v \<and> in_range lo hi k}"
    using assms by (auto simp: agree_off_def)
  then show ?thesis by (simp add: is_range_def)
qed

subsection \<open>The contract of \<open>redb\<close>\<close>

text \<open>
  An iterator over a range yields the entries in order; a read error may end it early.
\<close>

definition range_items :: "kv list \<Rightarrow> (string + kv) list \<Rightarrow> bool" where
  "range_items es items \<longleftrightarrow> items = map Inr es
     \<or> (\<exists>n e rest. n \<le> length es \<and> items = map Inr (take n es) @ Inl e # rest)"

locale redb_laws =
  fixes R :: "('db, 'tx) redb"
    and contents :: "'db \<Rightarrow> kvmap"
    and view :: "'tx \<Rightarrow> kvmap"
  assumes begin_write: "rb_begin_write R db = Inr t \<Longrightarrow> view t = contents db"
    and begin_read: "rb_begin_read R db = Inr t \<Longrightarrow> view t = contents db"
    and get: "rb_get R t k = Inr found \<Longrightarrow> found = view t k"
    and insert: "rb_insert R t k v = Inr (t', old) \<Longrightarrow> old = view t k \<and> view t' = (view t)(k \<mapsto> v)"
    and remove: "rb_remove R t k = Inr (t', old) \<Longrightarrow> old = view t k \<and> view t' = (view t)(k := None)"
    and range: "rb_range R t lo hi = Inr items
      \<Longrightarrow> \<exists>es. is_range (view t) lo hi es \<and> range_items es items"
    and range_rev: "rb_range_rev R t lo hi = Inr items
      \<Longrightarrow> \<exists>es. is_range (view t) lo hi es \<and> range_items (rev es) items"
    and commit: "rb_commit R db d t = Inr db' \<Longrightarrow> contents db' = view t"

lemma collect_items_Inr: "collect_items items = Inr es \<Longrightarrow> items = map Inr es"
  by (induction items arbitrary: es) (auto simp: result_simps)

lemma range_items_collect: "range_items es items \<Longrightarrow> collect_items items = Inr fs \<Longrightarrow> fs = es"
  by (drule collect_items_Inr) (auto simp: range_items_def map_eq_append_conv Cons_eq_map_conv)

context redb_laws
begin

lemma tx_remove_view: "tx_remove R t k = Inr t' \<Longrightarrow> view t' = (view t)(k := None)"
  by (auto simp: tx_remove_def result_simps dest: remove)

lemma tx_insert_view: "tx_insert R t e = Inr t' \<Longrightarrow> view t' = (view t)(fst e \<mapsto> snd e)"
  by (auto simp: tx_insert_def result_simps dest: insert)

lemma delete_all_view: "delete_all R t ks = Inr t' \<Longrightarrow> view t' = del_map (view t) ks"
  unfolding delete_all_def del_map_def by (rule foldE_Inr [where h = view]) (auto dest: tx_remove_view)

lemma insert_all_view: "insert_all R t es = Inr t' \<Longrightarrow> view t' = put_map (view t) es"
  unfolding insert_all_def put_map_def by (rule foldE_Inr [where h = view]) (auto dest: tx_insert_view)

lemma delete_insert_view:
  "bindE (delete_all R t ds) (\<lambda>t. insert_all R t ps) = Inr t' \<Longrightarrow> view t' = apply_map (view t) ps ds"
  by (auto simp: result_simps apply_map_def dest!: delete_all_view insert_all_view)

lemma keys_match_view: "keys_match R t ks = Inr b \<Longrightarrow> b \<longleftrightarrow> keys_valid (view t) ks"
proof (induction ks arbitrary: b)
  case (Cons x ks)
  then obtain k e current where "x = (k, e)" and "rb_get R t k = Inr current"
    and "(if current \<noteq> e then Inr False else keys_match R t ks) = Inr b"
    by (cases x) (auto simp: result_simps)
  with Cons.IH [of b] get show ?case
    by (auto simp: keys_valid_def split: if_splits)
qed (simp add: keys_valid_def)

lemma range_collect:
  "rb_range R t lo hi = Inr items \<Longrightarrow> collect_items items = Inr es \<Longrightarrow> is_range (view t) lo hi es"
  using range range_items_collect by blast

lemma ranges_match_view: "ranges_match R t rs = Inr b \<Longrightarrow> b \<longleftrightarrow> ranges_valid (view t) rs"
proof (induction rs arbitrary: b)
  case (Cons r rs)
  then obtain items current where items: "rb_range R t (rs_start r) (rs_end r) = Inr items"
    and current: "collect_items items = Inr current"
    and b: "(if current \<noteq> rs_content r then Inr False else ranges_match R t rs) = Inr b"
    by (auto simp: result_simps)
  have "is_range (view t) (rs_start r) (rs_end r) current"
    by (rule range_collect [OF items current])
  with b Cons.IH show ?case
    by (auto simp: ranges_valid_def split: if_splits dest: is_range_unique)
qed (simp add: ranges_valid_def)

text \<open>
  The outcome of a write transaction: it commits what its body did together with the next
  write sequence, or it leaves the database as it was.
\<close>

lemma write_txn_Inr:
  assumes "write_txn R s body = (s', Inr r)"
  obtains t t' schema where "view t = contents (st_db s)" and "body t = Inr (t', r, schema)"
    and "contents (st_db s') = (view t')(WSEQ_KEY \<mapsto> to_le_bytes 8 (st_wseq s + 1))"
    and "st_wseq s' = st_wseq s + 1"
    and "st_schema_gen s' = (if schema then st_schema_gen s + 1 else st_schema_gen s)"
  using assms
  by (auto simp: write_txn_def wseq_commit_def bump_schema_generation_def Let_def result_simps
      split: sum.splits prod.splits if_splits dest!: begin_write insert commit)

lemma write_txn_Inl:
  assumes "write_txn R s body = (s', Inl e)"
  shows "st_db s' = st_db s \<and> st_schema_gen s' = st_schema_gen s
    \<and> ((\<exists>m. e = Storage m) \<or> (\<exists>t. view t = contents (st_db s) \<and> body t = Inl e))"
  using assms
  by (auto simp: write_txn_def wseq_commit_def Let_def bindE_def
      split: sum.splits prod.splits if_splits dest!: begin_write)

end

lemma delete_all_Inl: "delete_all R t ks = Inl e \<Longrightarrow> \<exists>m. e = Storage m"
  unfolding delete_all_def by (drule foldE_Inl) (auto simp: tx_remove_def bindE_def map_err_def split: sum.splits)

lemma insert_all_Inl: "insert_all R t es = Inl e \<Longrightarrow> \<exists>m. e = Storage m"
  unfolding insert_all_def by (drule foldE_Inl) (auto simp: tx_insert_def bindE_def map_err_def split: sum.splits)

lemma keys_match_Inl: "keys_match R t ks = Inl e \<Longrightarrow> \<exists>m. e = Storage m"
  by (induction R t ks rule: keys_match.induct)
    (auto simp: bindE_def map_err_def split: sum.splits if_splits)

lemma ranges_match_Inl: "ranges_match R t rs = Inl e \<Longrightarrow> \<exists>m. e = Storage m"
  by (induction R t rs rule: ranges_match.induct)
    (auto simp: bindE_def map_err_def split: sum.splits if_splits)

subsection \<open>The reference implementation of \<open>redb\<close>\<close>

text \<open>
  An association list whose first binding of a key counts. It never fails; the laws hold of
  it, and the examples below run on it.
\<close>

definition ref_range :: "kv list \<Rightarrow> bytes \<Rightarrow> bytes option \<Rightarrow> kv list" where
  "ref_range t lo hi =
     map (\<lambda>k. (k, the (map_of t k))) (filter (in_range lo hi) (sort (remdups (map fst t))))"

definition ref_redb :: "(kv list, kv list) redb" where
  "ref_redb = \<lparr>
     rb_begin_write = Inr,
     rb_begin_read = Inr,
     rb_get = (\<lambda>t k. Inr (map_of t k)),
     rb_insert = (\<lambda>t k v. Inr ((k, v) # t, map_of t k)),
     rb_remove = (\<lambda>t k. Inr (filter (\<lambda>e. fst e \<noteq> k) t, map_of t k)),
     rb_range = (\<lambda>t lo hi. Inr (map Inr (ref_range t lo hi))),
     rb_range_rev = (\<lambda>t lo hi. Inr (map Inr (rev (ref_range t lo hi)))),
     rb_commit = (\<lambda>db d t. Inr t)\<rparr>"

lemma map_of_filter_neq: "map_of (filter (\<lambda>e. fst e \<noteq> k) t) = (map_of t)(k := None)"
  by (induction t) auto

lemma ref_range_is_range: "is_range (map_of t) lo hi (ref_range t lo hi)"
proof -
  have "map fst (ref_range t lo hi) = filter (in_range lo hi) (sort (remdups (map fst t)))"
    by (simp add: ref_range_def comp_def)
  moreover have "sorted_wrt (<) (sort (remdups (map fst t)))"
    by (simp add: strict_sorted_iff)
  moreover have "k \<in> fst ` set t \<longleftrightarrow> map_of t k \<noteq> None" for k
    by (simp add: map_of_eq_None_iff)
  ultimately show ?thesis
    by (auto simp: is_range_def ref_range_def sorted_wrt_filter image_iff)
qed

interpretation ref: redb_laws ref_redb map_of map_of
  by unfold_locales
    (auto simp: ref_redb_def map_of_filter_neq range_items_def intro: ref_range_is_range)

definition ref_storage :: "kv list \<Rightarrow> u64 \<Rightarrow> kv list storage" where
  "ref_storage db n = \<lparr>st_db = db, st_durability = Immediate, st_flush_seq = 0, st_wseq = n,
     st_schema_gen = 0\<rparr>"

subsection \<open>Executing a batch and executing its jobs one by one\<close>

text \<open>
  \<open>serial\<close> is the abstract reading of a batch: a job is accepted, and changes the state, or
  is refused. \<open>run_each\<close> executes an operation once per job.
\<close>

fun serial :: "('m \<Rightarrow> 'j \<Rightarrow> 'm option) \<Rightarrow> 'm \<Rightarrow> 'j list \<Rightarrow> 'm \<times> bool list" where
  "serial f m [] = (m, [])"
| "serial f m (j # js) =
     (case f m j of
        None \<Rightarrow> (let (m', oks) = serial f m js in (m', False # oks))
      | Some m1 \<Rightarrow> (let (m', oks) = serial f m1 js in (m', True # oks)))"

fun run_each :: "('s \<Rightarrow> 'j \<Rightarrow> 's \<times> 'r) \<Rightarrow> 's \<Rightarrow> 'j list \<Rightarrow> 's \<times> 'r list" where
  "run_each op s [] = (s, [])"
| "run_each op s (j # js) =
     (let (s1, r) = op s j; (s2, rs) = run_each op s1 js in (s2, r # rs))"

lemma run_each_serial:
  assumes step: "\<And>m s j s' r. rel m s \<Longrightarrow> okj j \<Longrightarrow> op s j = (s', r) \<Longrightarrow> good r
      \<Longrightarrow> (case f m j of None \<Rightarrow> \<not> is_ok r \<and> rel m s' | Some m' \<Rightarrow> is_ok r \<and> rel m' s')"
    and "rel m s" and "run_each op s js = (s', rs)"
    and "\<forall>j \<in> set js. okj j" and "\<forall>r \<in> set rs. good r"
  shows "rel (fst (serial f m js)) s' \<and> map is_ok rs = snd (serial f m js)"
  using assms(2-)
proof (induction js arbitrary: m s rs)
  case (Cons j js)
  obtain s1 r where op: "op s j = (s1, r)" by force
  obtain s2 rs' where rest: "run_each op s1 js = (s2, rs')" by force
  from Cons.prems op rest have "s2 = s'" "rs = r # rs'" "good r" "okj j" by auto
  with Cons.prems op rest have
    "case f m j of None \<Rightarrow> \<not> is_ok r \<and> rel m s1 | Some m' \<Rightarrow> is_ok r \<and> rel m' s1"
    by (intro step [of m s j s1 r]) auto
  moreover have "rel (fst (serial f n js)) s' \<and> map is_ok rs' = snd (serial f n js)"
    if "rel n s1" for n
    using Cons.IH [of n s1 rs'] Cons.prems rest that \<open>s2 = s'\<close> \<open>rs = r # rs'\<close> by auto
  ultimately show ?case
    using \<open>rs = r # rs'\<close> by (cases "f m j") (fastforce split: prod.splits)+
qed simp

lemma foldE_serial:
  assumes step: "\<And>t j t'. g t j = Inr t' \<Longrightarrow>
      (case f (vw t) j of None \<Rightarrow> vw t' = vw t \<and> oks t' = oks t @ [False]
       | Some m' \<Rightarrow> vw t' = m' \<and> oks t' = oks t @ [True])"
    and "foldE g t js = Inr t'"
  shows "vw t' = fst (serial f (vw t) js) \<and> oks t' = oks t @ snd (serial f (vw t) js)"
  using assms(2)
proof (induction js arbitrary: t)
  case (Cons j js)
  then obtain t1 where t1: "g t j = Inr t1" and rest: "foldE g t1 js = Inr t'"
    by (auto simp: result_simps)
  show ?case
    using step [OF t1] Cons.IH [OF rest] by (auto split: option.splits prod.splits)
qed simp

definition commit_spec :: "kvmap \<Rightarrow> ValidatedCommit \<Rightarrow> kvmap option" where
  "commit_spec m j =
     (if keys_valid m (vc_keys j) \<and> ranges_valid m (vc_ranges j)
      then Some (apply_map m (vc_puts j) (vc_deletes j)) else None)"

definition new_keys_clash :: "kvmap \<Rightarrow> kv list \<Rightarrow> bool" where
  "new_keys_clash m new \<longleftrightarrow> (\<exists>k \<in> fst ` set new. m k \<noteq> None) \<or> \<not> distinct (map fst new)"

definition job_new :: "PlainJob \<Rightarrow> kv list" where
  "job_new j = (case pj_new j of None \<Rightarrow> [] | Some n \<Rightarrow> n)"

definition job_spec :: "kvmap \<Rightarrow> PlainJob \<Rightarrow> kvmap option" where
  "job_spec m j =
     (if new_keys_clash (del_map m (pj_deletes j)) (job_new j) then None
      else Some (apply_map m (job_new j @ pj_puts j) (pj_deletes j)))"

text \<open>A job that neither reads nor writes the key of the write sequence.\<close>

definition avoids_wseq :: "ValidatedCommit \<Rightarrow> bool" where
  "avoids_wseq j \<longleftrightarrow> WSEQ_KEY \<notin> fst ` set (vc_keys j)
     \<and> (\<forall>r \<in> set (vc_ranges j). \<not> in_range (rs_start r) (rs_end r) WSEQ_KEY)"

definition is_conflict :: "Error \<Rightarrow> bool" where
  "is_conflict e \<longleftrightarrow> e = row_conflict \<or> e = range_conflict"

lemma Storage_not_conflict [simp]: "\<not> is_conflict (Storage m)" "Storage m \<noteq> duplicate_primary"
  "duplicate_primary \<noteq> Storage m"
  by (simp_all add: is_conflict_def row_conflict_def range_conflict_def duplicate_primary_def)

context redb_laws
begin

lemma validated_step_spec:
  assumes "validated_step R p j = Inr p'"
  shows "case commit_spec (view (fst p)) j of
      None \<Rightarrow> view (fst p') = view (fst p) \<and> map is_ok (snd p') = map is_ok (snd p) @ [False]
    | Some m \<Rightarrow> view (fst p') = m \<and> map is_ok (snd p') = map is_ok (snd p) @ [True]"
  using assms
  by (cases p; cases p')
    (auto simp: validated_step_def commit_spec_def result_simps apply_map_def split: if_splits
      dest!: keys_match_view ranges_match_view delete_all_view insert_all_view)

lemma apply_validated_batch_spec:
  assumes "apply_validated_batch R s jobs = (s', Inr rs)"
  shows "contents (st_db s') = (fst (serial commit_spec (contents (st_db s)) jobs))
           (WSEQ_KEY \<mapsto> to_le_bytes 8 (st_wseq s + 1))
    \<and> map is_ok rs = snd (serial commit_spec (contents (st_db s)) jobs)"
proof -
  from assms obtain t t' where t: "view t = contents (st_db s)"
    and fold: "foldE (validated_step R) (t, []) jobs = Inr (t', rs)"
    and s': "contents (st_db s') = (view t')(WSEQ_KEY \<mapsto> to_le_bytes 8 (st_wseq s + 1))"
    unfolding apply_validated_batch_def by (rule write_txn_Inr) (auto simp: result_simps)
  with foldE_serial [where g = "validated_step R" and f = commit_spec and vw = "\<lambda>p. view (fst p)"
      and oks = "\<lambda>p. map is_ok (snd p)", OF validated_step_spec fold]
  show ?thesis by simp
qed

lemma apply_validated_Inr:
  assumes "apply_validated R s keys ranges puts deletes = (s', Inr r)"
  shows "keys_valid (contents (st_db s)) keys \<and> ranges_valid (contents (st_db s)) ranges
    \<and> contents (st_db s') = (apply_map (contents (st_db s)) puts deletes)
        (WSEQ_KEY \<mapsto> to_le_bytes 8 (st_wseq s + 1))"
  using assms unfolding apply_validated_def
  by (elim write_txn_Inr)
    (auto simp: result_simps apply_map_def split: if_splits
      dest!: keys_match_view ranges_match_view delete_all_view insert_all_view)

lemma validated_body_Inl:
  assumes "bindE (keys_match R t keys) (\<lambda>ok. if \<not> ok then Inl row_conflict else
       bindE (ranges_match R t ranges) (\<lambda>ok. if \<not> ok then Inl range_conflict else
       bindE (delete_all R t deletes) (\<lambda>t. bindE (insert_all R t puts) (\<lambda>t. Inr (f t))))) = Inl e"
  shows "(\<exists>m. e = Storage m) \<or> e = row_conflict \<and> \<not> keys_valid (view t) keys
    \<or> e = range_conflict \<and> \<not> ranges_valid (view t) ranges"
proof (cases "keys_match R t keys")
  case (Inr ok)
  note keys = keys_match_view [OF Inr]
  show ?thesis
  proof (cases "ranges_match R t ranges")
    case (Inr ok')
    note ranges = ranges_match_view [OF Inr]
    show ?thesis
      using assms keys ranges \<open>keys_match R t keys = Inr ok\<close> Inr
      by (cases "delete_all R t deletes")
        (auto simp: bindE_def split: if_splits sum.splits dest: delete_all_Inl insert_all_Inl)
  next
    case (Inl e')
    then show ?thesis
      using assms keys \<open>keys_match R t keys = Inr ok\<close> ranges_match_Inl [OF Inl]
      by (auto split: if_splits)
  qed
next
  case (Inl e')
  then show ?thesis using assms keys_match_Inl [OF Inl] by auto
qed

lemma apply_validated_Inl:
  assumes "apply_validated R s keys ranges puts deletes = (s', Inl e)"
  shows "st_db s' = st_db s
    \<and> ((\<exists>m. e = Storage m) \<or> e = row_conflict \<and> \<not> keys_valid (contents (st_db s)) keys
       \<or> e = range_conflict \<and> \<not> ranges_valid (contents (st_db s)) ranges)"
proof -
  note txn = write_txn_Inl [OF assms [unfolded apply_validated_def]]
  show ?thesis
  proof (cases "\<exists>m. e = Storage m")
    case False
    with txn obtain t where t: "view t = contents (st_db s)" and body:
      "bindE (keys_match R t keys) (\<lambda>ok. if \<not> ok then Inl row_conflict else
        bindE (ranges_match R t ranges) (\<lambda>ok. if \<not> ok then Inl range_conflict else
        bindE (delete_all R t deletes) (\<lambda>t. bindE (insert_all R t puts)
        (\<lambda>t. Inr (t, (), touches_schema (map fst puts) \<or> touches_schema deletes))))) = Inl e"
      by blast
    from validated_body_Inl [OF body] t txn show ?thesis by simp
  qed (use txn in blast)
qed

end

lemma keys_valid_agree:
  assumes "agree_off x m m'" and "x \<notin> fst ` set ks"
  shows "keys_valid m ks = keys_valid m' ks"
proof -
  have "m k = m' k" if "(k, e) \<in> set ks" for k e
    using that assms by (metis agree_off_def fst_conv imageI)
  then show ?thesis by (auto simp: keys_valid_def)
qed

lemma commit_spec_agree:
  assumes "agree_off WSEQ_KEY m m'" and "avoids_wseq j"
  shows "rel_option (agree_off WSEQ_KEY) (commit_spec m j) (commit_spec m' j)"
proof -
  have "keys_valid m (vc_keys j) = keys_valid m' (vc_keys j)"
    using assms by (intro keys_valid_agree) (auto simp: avoids_wseq_def)
  moreover have "ranges_valid m (vc_ranges j) = ranges_valid m' (vc_ranges j)"
    using assms by (auto simp: ranges_valid_def avoids_wseq_def is_range_agree [OF assms(1)])
  ultimately show ?thesis
    using assms by (simp add: commit_spec_def agree_off_apply_map)
qed

text \<open>One job of a batch executed by itself.\<close>

definition apply_validated_job ::
  "('db, 'tx) redb \<Rightarrow> 'db storage \<Rightarrow> ValidatedCommit \<Rightarrow> 'db storage \<times> (Error + unit)" where
  "apply_validated_job R s j = apply_validated R s (vc_keys j) (vc_ranges j) (vc_puts j) (vc_deletes j)"

definition committed_or :: "(Error \<Rightarrow> bool) \<Rightarrow> Error + unit \<Rightarrow> bool" where
  "committed_or P r = (case r of Inl e \<Rightarrow> P e | Inr _ \<Rightarrow> True)"

context redb_laws
begin

lemma apply_validated_job_spec:
  assumes "agree_off WSEQ_KEY m (contents (st_db s))" and "avoids_wseq j"
    and "apply_validated_job R s j = (s', r)" and "committed_or is_conflict r"
  shows "case commit_spec m j of
      None \<Rightarrow> \<not> is_ok r \<and> agree_off WSEQ_KEY m (contents (st_db s'))
    | Some m' \<Rightarrow> is_ok r \<and> agree_off WSEQ_KEY m' (contents (st_db s'))"
proof (cases r)
  case (Inl e)
  with assms(3,4) have "st_db s' = st_db s" and "commit_spec (contents (st_db s)) j = None"
    using apply_validated_Inl [of s "vc_keys j" "vc_ranges j" "vc_puts j" "vc_deletes j" s' e]
    by (auto simp: apply_validated_job_def committed_or_def commit_spec_def)
  with commit_spec_agree [OF assms(1,2)] assms(1) Inl show ?thesis
    by simp
next
  case (Inr u)
  with assms(3) have "commit_spec (contents (st_db s)) j
      = Some (apply_map (contents (st_db s)) (vc_puts j) (vc_deletes j))"
    and "contents (st_db s') = (apply_map (contents (st_db s)) (vc_puts j) (vc_deletes j))
      (WSEQ_KEY \<mapsto> to_le_bytes 8 (st_wseq s + 1))"
    using apply_validated_Inr [of s "vc_keys j" "vc_ranges j" "vc_puts j" "vc_deletes j" s' u]
    by (auto simp: apply_validated_job_def commit_spec_def)
  with commit_spec_agree [OF assms(1,2)] Inr show ?thesis
    by (auto elim: option.rel_cases)
qed

lemma batch_serial:
  assumes "apply_validated_batch R s jobs = (s1, Inr rs1)"
    and "run_each (apply_validated_job R) s jobs = (s2, rs2)"
    and "\<forall>r \<in> set rs2. committed_or is_conflict r" and "\<forall>j \<in> set jobs. avoids_wseq j"
  shows "map is_ok rs1 = map is_ok rs2
    \<and> agree_off WSEQ_KEY (contents (st_db s1)) (contents (st_db s2))"
proof -
  have "agree_off WSEQ_KEY (fst (serial commit_spec (contents (st_db s)) jobs)) (contents (st_db s2))
    \<and> map is_ok rs2 = snd (serial commit_spec (contents (st_db s)) jobs)"
    using assms(2-4)
    by (intro run_each_serial [where rel = "\<lambda>m s. agree_off WSEQ_KEY m (contents (st_db s))"
        and okj = avoids_wseq and good = "committed_or is_conflict" and op = "apply_validated_job R"])
      (simp_all add: apply_validated_job_spec)
  with apply_validated_batch_spec [OF assms(1)] show ?thesis by simp
qed

end

text \<open>The same for plain and \<open>INSERT\<close> jobs.\<close>

definition apply_plain_job ::
  "('db, 'tx) redb \<Rightarrow> 'db storage \<Rightarrow> PlainJob \<Rightarrow> 'db storage \<times> (Error + unit)" where
  "apply_plain_job R s j =
     (case pj_new j of
        None \<Rightarrow> storage_apply R s (pj_puts j) (pj_deletes j)
      | Some new \<Rightarrow> apply_insert R s new (pj_puts j) (pj_deletes j))"

definition inserts_wseq :: "PlainJob \<Rightarrow> bool" where
  "inserts_wseq j \<longleftrightarrow> WSEQ_KEY \<in> fst ` set (job_new j)"

lemma new_keys_clash_Nil [simp]: "\<not> new_keys_clash m []"
  by (simp add: new_keys_clash_def)

lemma new_keys_clash_Cons:
  "new_keys_clash m (e # new) \<longleftrightarrow> m (fst e) \<noteq> None \<or> new_keys_clash (m(fst e \<mapsto> snd e)) new"
  by (cases e) (auto simp: new_keys_clash_def image_iff)

lemma new_keys_clash_agree:
  "agree_off x m m' \<Longrightarrow> x \<notin> fst ` set new \<Longrightarrow> new_keys_clash m new = new_keys_clash m' new"
  unfolding new_keys_clash_def agree_off_def by metis

lemma insert_new_Inr: "insert_new R t e = Inr t' \<longleftrightarrow> rb_insert R t (fst e) (snd e) = Inr (t', None)"
  by (auto simp: insert_new_def result_simps split: if_splits prod.splits)

lemma insert_new_run:
  "rb_insert R t (fst e) (snd e) = Inl m \<Longrightarrow> insert_new R t e = Inl (Storage m)"
  "rb_insert R t (fst e) (snd e) = Inr (t', None) \<Longrightarrow> insert_new R t e = Inr t'"
  "rb_insert R t (fst e) (snd e) = Inr (t', Some v) \<Longrightarrow> insert_new R t e = Inl duplicate_primary"
  by (simp_all add: insert_new_def)

lemma job_spec_agree:
  assumes "agree_off WSEQ_KEY m m'" and "\<not> inserts_wseq j"
  shows "rel_option (agree_off WSEQ_KEY) (job_spec m j) (job_spec m' j)"
proof -
  have "agree_off WSEQ_KEY (del_map m (pj_deletes j)) (del_map m' (pj_deletes j))"
    using agree_off_apply_map [OF assms(1), of "[]"] by (simp add: apply_map_def)
  from new_keys_clash_agree [OF this] assms show ?thesis
    by (simp add: job_spec_def inserts_wseq_def agree_off_apply_map)
qed

context redb_laws
begin

lemma finds_duplicate_view:
  "finds_duplicate R t D seen new = Inr b \<Longrightarrow>
     b \<longleftrightarrow> (\<exists>k \<in> fst ` set new. k \<notin> D \<and> view t k \<noteq> None \<or> k \<in> seen) \<or> \<not> distinct (map fst new)"
proof (induction new arbitrary: seen b)
  case (Cons e new)
  then obtain k v present where e: "e = (k, v)"
    and present: "(if k \<in> D then Inr False
      else bindE (map_err Storage (rb_get R t k)) (\<lambda>cur. Inr (cur \<noteq> None))) = Inr present"
    and b: "(if present \<or> k \<in> seen then Inr True
      else finds_duplicate R t D (insert k seen) new) = Inr b"
    by (cases e) (auto simp: bindE_eq_Inr)
  from present have "present \<longleftrightarrow> k \<notin> D \<and> view t k \<noteq> None"
    by (auto simp: result_simps split: if_splits dest!: get)
  with e b Cons.IH [of "insert k seen" b] show ?case
    by (auto split: if_splits)
qed simp

lemma finds_duplicate_clash:
  "finds_duplicate R t (set D) {} new = Inr b \<Longrightarrow> b \<longleftrightarrow> new_keys_clash (del_map (view t) D) new"
  by (drule finds_duplicate_view) (auto simp: new_keys_clash_def del_map_apply)

lemma job_step_spec:
  assumes "job_step R p j = Inr p'"
  shows "case job_spec (view (fst p)) j of
      None \<Rightarrow> view (fst p') = view (fst p) \<and> map is_ok (fst (snd p')) = map is_ok (fst (snd p)) @ [False]
    | Some m \<Rightarrow> view (fst p') = m \<and> map is_ok (fst (snd p')) = map is_ok (fst (snd p)) @ [True]"
proof -
  obtain t rs sc where p: "p = (t, rs, sc)" by (cases p)
  from assms p obtain dup where
    "(case pj_new j of None \<Rightarrow> Inr False
      | Some n \<Rightarrow> finds_duplicate R t (set (pj_deletes j)) {} n) = Inr dup"
    and rest: "(if dup then Inr (t, rs @ [Inl duplicate_primary], sc)
      else bindE (delete_all R t (pj_deletes j)) (\<lambda>t. bindE (insert_all R t (job_new j @ pj_puts j)) (\<lambda>t.
        Inr (t, rs @ [Inr ()], sc \<or> touches_schema (map fst (job_new j @ pj_puts j))
                \<or> touches_schema (pj_deletes j))))) = Inr p'"
    by (auto simp: job_step_def Let_def bindE_eq_Inr simp flip: job_new_def)
  then have "dup \<longleftrightarrow> new_keys_clash (del_map (view t) (pj_deletes j)) (job_new j)"
    by (auto simp: job_new_def split: option.splits dest: finds_duplicate_clash)
  with rest p show ?thesis
    by (auto simp: job_spec_def bindE_eq_Inr apply_map_def split: if_splits
        dest!: delete_all_view insert_all_view)
qed

lemma apply_jobs_spec:
  assumes "apply_jobs R s jobs = (s', Inr rs)"
  shows "contents (st_db s') = (fst (serial job_spec (contents (st_db s)) jobs))
           (WSEQ_KEY \<mapsto> to_le_bytes 8 (st_wseq s + 1))
    \<and> map is_ok rs = snd (serial job_spec (contents (st_db s)) jobs)"
proof -
  from assms obtain t t' sc where t: "view t = contents (st_db s)"
    and fold: "foldE (job_step R) (t, [], False) jobs = Inr (t', rs, sc)"
    and s': "contents (st_db s') = (view t')(WSEQ_KEY \<mapsto> to_le_bytes 8 (st_wseq s + 1))"
    unfolding apply_jobs_def by (rule write_txn_Inr) (auto simp: result_simps)
  with foldE_serial [where g = "job_step R" and f = job_spec and vw = "\<lambda>p. view (fst p)"
      and oks = "\<lambda>p. map is_ok (fst (snd p))", OF job_step_spec fold]
  show ?thesis by simp
qed

lemma insert_new_fold_Inr:
  "foldE (insert_new R) t new = Inr t' \<Longrightarrow>
     \<not> new_keys_clash (view t) new \<and> view t' = put_map (view t) new"
proof (induction new arbitrary: t)
  case (Cons e new)
  then obtain t1 where ins: "rb_insert R t (fst e) (snd e) = Inr (t1, None)"
    and rest: "foldE (insert_new R) t1 new = Inr t'"
    by (auto simp: bindE_eq_Inr insert_new_Inr)
  from insert [OF ins] have old: "view t (fst e) = None" and v: "view t1 = (view t)(fst e \<mapsto> snd e)"
    by auto
  from Cons.IH [OF rest] old show ?case
    unfolding v by (simp add: new_keys_clash_Cons fun_upd_def)
qed simp

lemma insert_new_fold_Inl:
  "foldE (insert_new R) t new = Inl e \<Longrightarrow>
     (\<exists>m. e = Storage m) \<or> e = duplicate_primary \<and> new_keys_clash (view t) new"
proof (induction new arbitrary: t)
  case (Cons x new)
  show ?case
  proof (cases "rb_insert R t (fst x) (snd x)")
    case (Inr p)
    then obtain t1 old where ins: "rb_insert R t (fst x) (snd x) = Inr (t1, old)" by (cases p) auto
    from insert [OF ins] have old: "view t (fst x) = old" and v: "view t1 = (view t)(fst x \<mapsto> snd x)"
      by auto
    from Cons.prems ins old Cons.IH [of t1] show ?thesis
      unfolding v by (cases old) (auto simp: insert_new_run new_keys_clash_Cons fun_upd_def)
  qed (use Cons.prems in \<open>auto simp: insert_new_run\<close>)
qed simp

lemma apply_plain_job_Inr:
  assumes "apply_plain_job R s j = (s', Inr r)"
  shows "job_spec (contents (st_db s)) j
      = Some (apply_map (contents (st_db s)) (job_new j @ pj_puts j) (pj_deletes j))
    \<and> contents (st_db s') = (apply_map (contents (st_db s)) (job_new j @ pj_puts j) (pj_deletes j))
      (WSEQ_KEY \<mapsto> to_le_bytes 8 (st_wseq s + 1))"
proof (cases "pj_new j")
  case None
  with assms show ?thesis
    unfolding apply_plain_job_def storage_apply_def
    by (auto simp: result_simps job_new_def job_spec_def apply_map_def elim!: write_txn_Inr
        dest!: delete_all_view insert_all_view)
next
  case (Some new)
  with assms show ?thesis
    unfolding apply_plain_job_def apply_insert_def
    by (auto simp: result_simps job_new_def job_spec_def apply_map_def put_map_append
        elim!: write_txn_Inr dest!: delete_all_view insert_all_view insert_new_fold_Inr)
qed

lemma insert_body_Inl:
  assumes "bindE (delete_all R t ds) (\<lambda>t. bindE (foldE (insert_new R) t new)
       (\<lambda>t. bindE (insert_all R t aux) (\<lambda>t. Inr (f t)))) = Inl e"
  shows "(\<exists>m. e = Storage m) \<or> e = duplicate_primary \<and> new_keys_clash (del_map (view t) ds) new"
proof (cases "delete_all R t ds")
  case (Inr t1)
  show ?thesis
  proof (cases "foldE (insert_new R) t1 new")
    case (Inr t2)
    with \<open>delete_all R t ds = Inr t1\<close> assms show ?thesis
      by (cases "insert_all R t2 aux") (auto dest: insert_all_Inl)
  qed (use Inr assms in \<open>auto dest!: insert_new_fold_Inl delete_all_view\<close>)
qed (use assms in \<open>auto dest: delete_all_Inl\<close>)

lemma apply_plain_job_Inl:
  assumes "apply_plain_job R s j = (s', Inl e)"
  shows "st_db s' = st_db s
    \<and> ((\<exists>m. e = Storage m) \<or> e = duplicate_primary \<and> job_spec (contents (st_db s)) j = None)"
proof (cases "pj_new j")
  case None
  note txn = write_txn_Inl [OF assms [unfolded apply_plain_job_def storage_apply_def None option.case]]
  have "\<exists>m. e = Storage m"
  proof (rule ccontr)
    assume "\<not> ?thesis"
    with txn obtain t where "bindE (delete_all R t (pj_deletes j)) (\<lambda>t. bindE (insert_all R t (pj_puts j))
       (\<lambda>t. Inr (t, (), touches_schema (map fst (pj_puts j)) \<or> touches_schema (pj_deletes j)))) = Inl e"
      by blast
    with \<open>\<not> ?thesis\<close> show False
      by (auto simp: bindE_def split: sum.splits dest: delete_all_Inl insert_all_Inl)
  qed
  with txn show ?thesis by simp
next
  case (Some new)
  note txn = write_txn_Inl [OF assms [unfolded apply_plain_job_def apply_insert_def Some option.case]]
  show ?thesis
  proof (cases "\<exists>m. e = Storage m")
    case False
    with txn obtain t where t: "view t = contents (st_db s)" and body:
      "bindE (delete_all R t (pj_deletes j)) (\<lambda>t. bindE (foldE (insert_new R) t new)
        (\<lambda>t. bindE (insert_all R t (pj_puts j))
        (\<lambda>t. Inr (t, (), touches_schema (map fst (new @ pj_puts j)) \<or> touches_schema (pj_deletes j))))) = Inl e"
      by blast
    from insert_body_Inl [OF body] t txn False Some show ?thesis
      by (simp add: job_spec_def job_new_def)
  qed (use txn in blast)
qed

lemma apply_plain_job_spec:
  assumes "agree_off WSEQ_KEY m (contents (st_db s))" and "\<not> inserts_wseq j"
    and "apply_plain_job R s j = (s', r)" and "committed_or ((=) duplicate_primary) r"
  shows "case job_spec m j of
      None \<Rightarrow> \<not> is_ok r \<and> agree_off WSEQ_KEY m (contents (st_db s'))
    | Some m' \<Rightarrow> is_ok r \<and> agree_off WSEQ_KEY m' (contents (st_db s'))"
proof (cases r)
  case (Inl e)
  with assms(3,4) have "st_db s' = st_db s" and "job_spec (contents (st_db s)) j = None"
    using apply_plain_job_Inl [of s j s' e] by (auto simp: committed_or_def)
  with job_spec_agree [OF assms(1,2)] assms(1) Inl show ?thesis by simp
next
  case (Inr u)
  with assms(3) have "job_spec (contents (st_db s)) j
      = Some (apply_map (contents (st_db s)) (job_new j @ pj_puts j) (pj_deletes j))"
    and "contents (st_db s') = (apply_map (contents (st_db s)) (job_new j @ pj_puts j) (pj_deletes j))
      (WSEQ_KEY \<mapsto> to_le_bytes 8 (st_wseq s + 1))"
    using apply_plain_job_Inr [of s j s' u] by simp_all
  with job_spec_agree [OF assms(1,2)] Inr show ?thesis
    by (auto elim: option.rel_cases)
qed

lemma jobs_serial:
  assumes "apply_jobs R s jobs = (s1, Inr rs1)"
    and "run_each (apply_plain_job R) s jobs = (s2, rs2)"
    and "\<forall>r \<in> set rs2. committed_or ((=) duplicate_primary) r" and "\<forall>j \<in> set jobs. \<not> inserts_wseq j"
  shows "map is_ok rs1 = map is_ok rs2
    \<and> agree_off WSEQ_KEY (contents (st_db s1)) (contents (st_db s2))"
proof -
  have "agree_off WSEQ_KEY (fst (serial job_spec (contents (st_db s)) jobs)) (contents (st_db s2))
    \<and> map is_ok rs2 = snd (serial job_spec (contents (st_db s)) jobs)"
    using assms(2-4)
    by (intro run_each_serial [where rel = "\<lambda>m s. agree_off WSEQ_KEY m (contents (st_db s))"
        and okj = "\<lambda>j. \<not> inserts_wseq j" and good = "committed_or ((=) duplicate_primary)"
        and op = "apply_plain_job R"])
      (simp_all add: apply_plain_job_spec)
  with apply_jobs_spec [OF assms(1)] show ?thesis by simp
qed

end

subsection \<open>Properties of the write paths\<close>

text \<open>
  C1. A validated commit is atomic and correct. It succeeds only when every key it read still
  has the value it read and every range it scanned still has the entries it saw, and then the
  new contents are exactly the old ones with its deletes and then its puts applied, plus the
  next write sequence. A row conflict is reported only when a key has changed, a range
  conflict only when a scanned range has; every other error is a storage error. On any error
  the database is what it was.
\<close>

theorem apply_validated_atomic:
  assumes "redb_laws R contents view"
    and "apply_validated R s keys ranges puts deletes = (s', r)"
  shows "case r of
      Inr _ \<Rightarrow> keys_valid (contents (st_db s)) keys \<and> ranges_valid (contents (st_db s)) ranges
        \<and> contents (st_db s') = (apply_map (contents (st_db s)) puts deletes)
            (WSEQ_KEY \<mapsto> to_le_bytes 8 (st_wseq s + 1))
    | Inl e \<Rightarrow> st_db s' = st_db s
        \<and> ((\<exists>m. e = Storage m) \<or> e = row_conflict \<and> \<not> keys_valid (contents (st_db s)) keys
          \<or> e = range_conflict \<and> \<not> ranges_valid (contents (st_db s)) ranges)"
  using assms(2) redb_laws.apply_validated_Inr [OF assms(1)] redb_laws.apply_validated_Inl [OF assms(1)]
  by (cases r) fastforce+

theorem apply_validated_atomic_witness:
  "\<exists>s'. apply_validated ref_redb (ref_storage [([1], [10])] 4) [([1], Some [10])]
      [\<lparr>rs_start = [2], rs_end = None, rs_content = []\<rparr>] [([3], [30])] [[1]] = (s', Inr ())
    \<and> map_of (st_db s') = (apply_map (map_of [([1], [10])]) [([3], [30])] [[1]])
        (WSEQ_KEY \<mapsto> to_le_bytes 8 (5 :: u64))"
proof -
  let ?run = "apply_validated ref_redb (ref_storage [([1], [10])] 4) [([1], Some [10])]
      [\<lparr>rs_start = [2], rs_end = None, rs_content = []\<rparr>] [([3], [30])] [[1]]"
  have "snd ?run = Inr ()" by code_simp
  then have run: "?run = (fst ?run, Inr ())" by (metis prod.collapse)
  show ?thesis
    using apply_validated_atomic [OF ref.redb_laws_axioms run] run by (auto simp: ref_storage_def)
qed

text \<open>
  C2. Group commit is serial execution. When a batch of validated transactions commits in one
  storage transaction, every job gets the verdict it would have got had the jobs been
  committed one after another in the order of the batch, and the resulting contents are the
  same; only the write-sequence key differs, which a batch moves once.
\<close>

theorem group_commit_serial:
  assumes "redb_laws R contents view"
    and "apply_validated_batch R s jobs = (s1, Inr rs1)"
    and "run_each (apply_validated_job R) s jobs = (s2, rs2)"
    and "\<forall>r \<in> set rs2. committed_or is_conflict r"
    and "\<forall>j \<in> set jobs. avoids_wseq j"
  shows "map is_ok rs1 = map is_ok rs2
    \<and> agree_off WSEQ_KEY (contents (st_db s1)) (contents (st_db s2))"
  by (rule redb_laws.batch_serial [OF assms])

definition ex_batch :: "ValidatedCommit list" where
  "ex_batch =
     [\<lparr>vc_keys = [([1], Some [10])], vc_ranges = [], vc_puts = [([1], [11])], vc_deletes = []\<rparr>,
      \<lparr>vc_keys = [([1], Some [10])], vc_ranges = [], vc_puts = [([2], [20])], vc_deletes = [[1]]\<rparr>,
      \<lparr>vc_keys = [], vc_ranges = [\<lparr>rs_start = [1], rs_end = Some [9], rs_content = [([1], [11])]\<rparr>],
       vc_puts = [([3], [30])], vc_deletes = []\<rparr>]"

theorem group_commit_serial_witness:
  "\<exists>s1 rs1 s2 rs2. apply_validated_batch ref_redb (ref_storage [([1], [10])] 4) ex_batch = (s1, Inr rs1)
    \<and> run_each (apply_validated_job ref_redb) (ref_storage [([1], [10])] 4) ex_batch = (s2, rs2)
    \<and> map is_ok rs2 = [True, False, True] \<and> map is_ok rs1 = [True, False, True]
    \<and> agree_off WSEQ_KEY (map_of (st_db s1)) (map_of (st_db s2))"
proof -
  let ?batch = "apply_validated_batch ref_redb (ref_storage [([1], [10])] 4) ex_batch"
  let ?each = "run_each (apply_validated_job ref_redb) (ref_storage [([1], [10])] 4) ex_batch"
  have "snd ?batch = Inr [Inr (), Inl row_conflict, Inr ()]" by code_simp
  then have batch: "?batch = (fst ?batch, Inr [Inr (), Inl row_conflict, Inr ()])"
    by (metis prod.collapse)
  have each: "?each = (fst ?each, [Inr (), Inl row_conflict, Inr ()])"
    by code_simp
  have jobs: "\<forall>r \<in> set [Inr (), Inl row_conflict, Inr ()]. committed_or is_conflict r"
      "\<forall>j \<in> set ex_batch. avoids_wseq j"
    by code_simp+
  show ?thesis
    using group_commit_serial [OF ref.redb_laws_axioms batch each jobs] batch each
    by (intro exI [of _ "fst ?batch"] exI [of _ "fst ?each"] exI conjI) (auto intro: batch each)
qed

text \<open>
  C3. The same for plain and \<open>INSERT\<close> jobs that share a storage transaction: each is accepted
  or refused as a duplicate exactly as \<open>apply\<close> and \<open>apply_insert\<close> would have decided one
  after another, and the contents agree. A refused job leaves no trace in the shared
  transaction.
\<close>

theorem grouped_jobs_serial:
  assumes "redb_laws R contents view"
    and "apply_jobs R s jobs = (s1, Inr rs1)"
    and "run_each (apply_plain_job R) s jobs = (s2, rs2)"
    and "\<forall>r \<in> set rs2. committed_or ((=) duplicate_primary) r"
    and "\<forall>j \<in> set jobs. \<not> inserts_wseq j"
  shows "map is_ok rs1 = map is_ok rs2
    \<and> agree_off WSEQ_KEY (contents (st_db s1)) (contents (st_db s2))"
  by (rule redb_laws.jobs_serial [OF assms])

definition ex_jobs :: "PlainJob list" where
  "ex_jobs =
     [\<lparr>pj_new = Some [([1], [10])], pj_puts = [([7], [1])], pj_deletes = []\<rparr>,
      \<lparr>pj_new = Some [([2], [20]), ([1], [21])], pj_puts = [], pj_deletes = []\<rparr>,
      \<lparr>pj_new = Some [([1], [12])], pj_puts = [], pj_deletes = [[1]]\<rparr>,
      \<lparr>pj_new = None, pj_puts = [([7], [2])], pj_deletes = []\<rparr>]"

theorem grouped_jobs_serial_witness:
  "\<exists>s1 rs1 s2 rs2. apply_jobs ref_redb (ref_storage [] 0) ex_jobs = (s1, Inr rs1)
    \<and> run_each (apply_plain_job ref_redb) (ref_storage [] 0) ex_jobs = (s2, rs2)
    \<and> map is_ok rs2 = [True, False, True, True] \<and> map is_ok rs1 = map is_ok rs2
    \<and> agree_off WSEQ_KEY (map_of (st_db s1)) (map_of (st_db s2))"
proof -
  let ?rs = "[Inr (), Inl duplicate_primary, Inr (), Inr ()]"
  let ?batch = "apply_jobs ref_redb (ref_storage [] 0) ex_jobs"
  let ?each = "run_each (apply_plain_job ref_redb) (ref_storage [] 0) ex_jobs"
  have "snd ?batch = Inr ?rs" by code_simp
  then have batch: "?batch = (fst ?batch, Inr ?rs)" by (metis prod.collapse)
  have each: "?each = (fst ?each, ?rs)" by code_simp
  have jobs: "\<forall>r \<in> set ?rs. committed_or ((=) duplicate_primary) r"
      "\<forall>j \<in> set ex_jobs. \<not> inserts_wseq j"
    by code_simp+
  show ?thesis
    using grouped_jobs_serial [OF ref.redb_laws_axioms batch each jobs] batch each
    by (intro exI [of _ "fst ?batch"] exI [of _ "fst ?each"] exI conjI) (auto intro: batch each)
qed

end
