(* ===== verification/Storage_Scans.thy ===== *)
theory Storage_Scans
  imports Storage_Laws
begin

section \<open>What the scans of the storage engine return\<close>

text \<open>
  The upper bound of a prefix, the cursor-based paging behind streaming table scans and the
  replica bootstrap, counting and backups. Scans are compared with the entries of the keyspace
  under a prefix in key order, \<open>is_range m prefix (prefix_upper_bound prefix)\<close>.
\<close>

subsection \<open>Generic facts on iteration\<close>

lemma foldE_until_error:
  assumes "\<And>s e. \<not> is_ok (f s (Inl e))" and "foldE_until f s (xs @ Inl e # rest) = Inr r"
  shows "foldE_until f s (xs @ ys) = Inr r"
  using assms(2)
proof (induction xs arbitrary: s)
  case Nil
  then show ?case using assms(1) [of s e] by (cases "f s (Inl e)") auto
next
  case (Cons x xs)
  then show ?case by (cases "f s x") (auto split: if_splits)
qed

lemma foldE_error:
  assumes "\<And>s e. \<not> is_ok (f s (Inl e))"
  shows "foldE f s (xs @ Inl e # rest) \<noteq> Inr r"
  using assms by (induction xs arbitrary: s) (auto simp: result_simps)

text \<open>A loop over an iterator that succeeds has the result of the loop over all its entries.\<close>

lemma foldE_until_range_items:
  assumes "range_items es items" and "\<And>s e. \<not> is_ok (f s (Inl e))"
    and "foldE_until f s items = Inr r"
  shows "foldE_until f s (map Inr es) = Inr r"
proof (cases "items = map Inr es")
  case False
  with assms(1) obtain n e rest where items: "items = map Inr (take n es) @ Inl e # rest"
    by (auto simp: range_items_def)
  with assms(3) have "foldE_until f s (map Inr (take n es) @ map Inr (drop n es)) = Inr r"
    using foldE_until_error [of f, OF assms(2)] by blast
  then show ?thesis by (simp flip: map_append)
qed (use assms(3) in simp)

lemma foldE_range_items:
  assumes "range_items es items" and "\<And>s e. \<not> is_ok (f s (Inl e))"
    and "foldE f s items = Inr r"
  shows "foldE f s (map Inr es) = Inr r"
  using assms foldE_error [of f, OF assms(2)] by (auto simp: range_items_def)

subsection \<open>The upper bound of a prefix\<close>

lemma byte_less_add_one: "(b :: u8) < 0xFF \<Longrightarrow> c < b + 1 \<longleftrightarrow> c \<le> b"
  by (simp add: word_less_nat_alt word_le_nat_alt unat_word_ariths less_Suc_eq_le)

lemma byte_le_FF [simp]: "b \<le> (0xFF :: u8)"
  using unsigned_less [of b, where 'a = nat] by (simp add: word_le_nat_alt)

lemma append_zero_le: "a @ [0] \<le> k \<longleftrightarrow> a < (k :: bytes)"
proof (induction a arbitrary: k)
  case Nil
  then show ?case by (cases k) (auto simp: word_gt_0)
next
  case (Cons x a)
  then show ?case by (cases k) auto
qed

lemma starts_with_snoc: "starts_with k (p @ [b]) \<longleftrightarrow> (\<exists>r. k = p @ b # r)"
  by (simp add: byte_simps)

lemma upper_bound_bumped:
  assumes "(b :: u8) < 0xFF"
  shows "p @ [b] \<le> k \<and> k < p @ [b + 1] \<longleftrightarrow> starts_with k (p @ [b])"
proof (induction p arbitrary: k)
  case Nil
  show ?case
  proof (cases k)
    case (Cons c cs)
    have "b < c \<or> b = c \<longleftrightarrow> b \<le> c" by (simp add: le_less)
    with Cons byte_less_add_one [OF assms, of c] show ?thesis
      by (auto simp: starts_with_def)
  qed simp
next
  case (Cons x p)
  show ?case
  proof (cases k)
    case (Cons y ys)
    with Cons.IH [of ys] show ?thesis by (simp; metis less_asym)
  qed simp
qed

lemma upper_bound_rev:
  "in_range (rev q) (prefix_upper_bound_rev q) k \<longleftrightarrow> starts_with k (rev q)"
proof (induction q)
  case (Cons b q)
  show ?case
  proof (cases "b < 0xFF")
    case True
    then show ?thesis using upper_bound_bumped [of b "rev q" k] by (simp add: in_range_def)
  next
    case False
    then have b: "b = 0xFF" by (meson antisym byte_le_FF not_less)
    have "rev q \<le> k" if "rev q @ [b] \<le> k"
      using that le_append [of "rev q" "[b]"] by (rule order_trans [rotated])
    then have "in_range (rev (b # q)) (prefix_upper_bound_rev (b # q)) k
        \<longleftrightarrow> rev q @ [b] \<le> k \<and> in_range (rev q) (prefix_upper_bound_rev q) k"
      using False by (auto simp: in_range_def)
    also have "\<dots> \<longleftrightarrow> starts_with k (rev q @ [b])"
    proof -
      have max: "[b] \<le> r \<longleftrightarrow> (\<exists>r'. r = b # r')" for r
      proof (cases r)
        case (Cons c cs)
        have "\<not> b < c" using b byte_le_FF [of c] by (simp add: leD)
        with Cons show ?thesis by auto
      qed simp
      have "rev q @ [b] \<le> rev q @ r \<longleftrightarrow> (\<exists>r'. r = b # r')" for r
        using max by simp
      then show ?thesis
        unfolding Cons.IH starts_with_snoc starts_with_iff by auto
    qed
    finally show ?thesis by simp
  qed
qed (simp add: in_range_def)

lemma in_range_prefix: "in_range p (prefix_upper_bound p) k \<longleftrightarrow> starts_with k p"
  using upper_bound_rev [of "rev p"] by (simp add: prefix_upper_bound_def)

subsection \<open>Paging\<close>

lemma foldE_until_push_prefixed:
  "foldE_until (push_prefixed p limit) acc (map Inr es)
     = Inr (acc @ take (max 1 (limit - length acc)) (takeWhile (\<lambda>e. starts_with (fst e) p) es))"
proof (induction es arbitrary: acc)
  case (Cons e es)
  show ?case
  proof (cases "starts_with (fst e) p \<and> \<not> limit \<le> Suc (length acc)")
    case True
    then have "max 1 (limit - length acc) = Suc (max 1 (limit - length (acc @ [e])))"
      by (auto simp: max_def)
    with True show ?thesis using Cons.IH [of "acc @ [e]"] by (simp add: push_prefixed_def Let_def)
  next
    case False
    then consider "\<not> starts_with (fst e) p" | "starts_with (fst e) p" "max 1 (limit - length acc) = 1"
      by fastforce
    then show ?thesis
      by cases (use False in \<open>auto simp: push_prefixed_def Let_def\<close>)
  qed
qed simp

lemma push_prefixed_error: "\<not> is_ok (push_prefixed p limit acc (Inl e))"
  by (simp add: push_prefixed_def)

lemma takeWhile_filter_sorted:
  assumes "sorted_wrt (\<lambda>x y. P y \<longrightarrow> P x) xs"
  shows "takeWhile P xs = filter P xs"
  using assms by (induction xs) (auto simp: filter_empty_conv)

lemma takeWhile_prefix_block:
  fixes es :: "kv list"
  assumes "sorted_wrt (<) (map fst es)" and "\<forall>e \<in> set es. p \<le> fst e"
  shows "takeWhile (\<lambda>e. starts_with (fst e) p) es = filter (\<lambda>e. starts_with (fst e) p) es"
proof (rule takeWhile_filter_sorted)
  have "starts_with (fst y) p \<longrightarrow> starts_with (fst x) p"
    if "x \<in> set es" "fst x < fst y" for x y :: kv
    using assms(2) that starts_with_mono [of p "fst x" "fst y"] by auto
  then show "sorted_wrt (\<lambda>x y. starts_with (fst y) p \<longrightarrow> starts_with (fst x) p) es"
    by (intro sorted_wrt_mono_rel [OF _ assms(1) [unfolded sorted_wrt_map]]) blast
qed

definition after_cursor :: "bytes option \<Rightarrow> kv list \<Rightarrow> kv list" where
  "after_cursor cursor es = (case cursor of None \<Rightarrow> es | Some a \<Rightarrow> filter (\<lambda>e. a < fst e) es)"


lemma sorted_keys_filter:
  "sorted_wrt (<) (map fst es) \<Longrightarrow> sorted_wrt (<) (map fst (filter P es))"
  by (simp add: sorted_wrt_map sorted_wrt_filter)

lemma batch_entries:
  assumes E: "is_range m p (prefix_upper_bound p) E"
    and es: "is_range m (batch_lower p after) None es"
    and cursor: "\<And>a. after = Some a \<Longrightarrow> starts_with a p"
  shows "takeWhile (\<lambda>e. starts_with (fst e) p) es = after_cursor after E"
proof -
  have prefix_le: "p \<le> a" if "starts_with a p" for a
    using that by (auto simp: byte_simps)
  then have lower: "p \<le> k" if "batch_lower p after \<le> k" for k
    using that cursor by (force simp: batch_lower_def append_zero_le split: option.splits)
  have "takeWhile (\<lambda>e. starts_with (fst e) p) es = filter (\<lambda>e. starts_with (fst e) p) es"
    using es lower by (intro takeWhile_prefix_block) (auto simp: is_range_def in_range_def)
  also have "\<dots> = after_cursor after E"
  proof (rule sorted_keys_unique)
    show "sorted_wrt (<) (map fst (filter (\<lambda>e. starts_with (fst e) p) es))"
      using es by (simp add: is_range_def sorted_keys_filter)
    show "sorted_wrt (<) (map fst (after_cursor after E))"
      using E by (simp add: is_range_def sorted_keys_filter after_cursor_def split: option.split)
    show "set (filter (\<lambda>e. starts_with (fst e) p) es) = set (after_cursor after E)"
      using E es prefix_le lower
      by (auto simp: is_range_def after_cursor_def batch_lower_def append_zero_le in_range_prefix
          in_range_def [of _ None] split: option.splits)
  qed
  finally show ?thesis .
qed

lemma storage_error_cases:
  "bindE (storage_snapshot R s) (\<lambda>t. bindE (map_err Storage (g t)) (h t)) = Inl e \<Longrightarrow>
     (\<exists>m. e = Storage m) \<or> (\<exists>t items. g t = Inr items \<and> h t items = Inl e)"
  by (auto simp: storage_snapshot_def bindE_def map_err_def split: sum.splits)

lemma push_prefixed_Inl: "foldE_until (push_prefixed p limit) acc items = Inl e \<Longrightarrow> \<exists>m. e = Storage m"
  by (induction items arbitrary: acc)
    (auto simp: push_prefixed_def Let_def bindE_def map_err_def split: sum.splits if_splits)

lemma scan_batch_Inl: "scan_batch R s p after limit = Inl e \<Longrightarrow> \<exists>m. e = Storage m"
  unfolding scan_batch_def by (drule storage_error_cases) (auto dest: push_prefixed_Inl)

context redb_laws
begin

lemma snapshot_view: "storage_snapshot R s = Inr t \<Longrightarrow> view t = contents (st_db s)"
  by (auto simp: storage_snapshot_def result_simps dest: begin_read)

lemma scan_batch_Inr:
  assumes "is_range (contents (st_db s)) p (prefix_upper_bound p) E"
    and "\<And>a. after = Some a \<Longrightarrow> starts_with a p"
    and "scan_batch R s p after limit = Inr out"
  shows "out = take (max 1 limit) (after_cursor after E)"
proof -
  from assms(3) obtain t items where t: "storage_snapshot R s = Inr t"
    and items: "rb_range R t (batch_lower p after) None = Inr items"
    and out: "foldE_until (push_prefixed p limit) [] items = Inr out"
    by (auto simp: scan_batch_def result_simps)
  from range [OF items] obtain es where es: "is_range (view t) (batch_lower p after) None es"
    and "range_items es items" by auto
  then have "foldE_until (push_prefixed p limit) [] (map Inr es) = Inr out"
    using foldE_until_range_items [of es items "push_prefixed p limit"] out push_prefixed_error by auto
  then show ?thesis
    using batch_entries [OF assms(1) es [unfolded snapshot_view [OF t]] assms(2)]
    by (simp add: foldE_until_push_prefixed)
qed

end

lemma sorted_keys_last_max:
  "sorted_wrt (<) (map fst es) \<Longrightarrow> e \<in> set es \<Longrightarrow> e = last es \<or> fst e < (fst (last es) :: bytes)"
  by (induction es) (auto split: if_splits)

text \<open>After a page, the cursor stands before exactly the entries the page did not hold.\<close>

lemma after_cursor_page:
  assumes "sorted_wrt (<) (map fst E)" and "after_cursor c E \<noteq> []" and "0 < n"
  shows "after_cursor (Some (fst (last (take n (after_cursor c E))))) E = drop n (after_cursor c E)"
proof -
  define xs where "xs = after_cursor c E"
  let ?l = "fst (last (take n xs))"
  have sorted: "sorted_wrt (<) (map fst (take n xs @ drop n xs))"
    using assms(1) by (simp add: xs_def after_cursor_def sorted_keys_filter split: option.split)
  have last: "last (take n xs) \<in> set (take n xs)"
    using assms(2,3) by (intro last_in_set) (simp add: xs_def)
  have "after_cursor (Some ?l) E = filter (\<lambda>e. ?l < fst e) xs"
  proof (cases c)
    case (Some a)
    have "last (take n xs) \<in> set xs" using last by (rule in_set_takeD)
    with Some have "a < ?l" by (simp add: xs_def after_cursor_def)
    with Some show ?thesis by (auto simp: xs_def after_cursor_def intro!: filter_cong)
  qed (simp add: xs_def after_cursor_def)
  also have "\<dots> = filter (\<lambda>e. ?l < fst e) (take n xs @ drop n xs)"
    by simp
  also have "\<dots> = drop n xs"
  proof -
    have "e = last (take n xs) \<or> fst e < ?l" if "e \<in> set (take n xs)" for e
      using that sorted [unfolded map_append sorted_wrt_append] by (intro sorted_keys_last_max) simp_all
    then have "filter (\<lambda>e. ?l < fst e) (take n xs) = []"
      by (fastforce simp: filter_empty_conv)
    moreover have "filter (\<lambda>e. ?l < fst e) (drop n xs) = drop n xs"
      using sorted [unfolded map_append sorted_wrt_append] last by (auto simp: filter_id_conv)
    ultimately show ?thesis by (simp only: filter_append append_Nil)
  qed
  finally show ?thesis by (simp add: xs_def)
qed

subsection \<open>Ordered index walks\<close>

text \<open>
  The rows an index walk delivers: the index entries' values are row keys, looked up in the
  same snapshot; entries whose row is gone are passed over.
\<close>

definition index_rows :: "kvmap \<Rightarrow> kv list \<Rightarrow> kv list" where
  "index_rows m es = List.map_filter (\<lambda>e. map_option (Pair (snd e)) (m (snd e))) es"

lemma index_rows_simps [simp]:
  "index_rows m [] = []"
  "index_rows m (e # es) = (case m (snd e) of None \<Rightarrow> index_rows m es | Some r \<Rightarrow> (snd e, r) # index_rows m es)"
  by (auto simp: index_rows_def map_filter_simps split: option.split)

lemma index_rows_append: "index_rows m (xs @ ys) = index_rows m xs @ index_rows m ys"
  by (induction xs) (auto split: option.split)

definition visit_rows :: "('a \<Rightarrow> bytes \<Rightarrow> bytes \<Rightarrow> Error + 'a \<times> bool) \<Rightarrow> 'a \<Rightarrow> kv list \<Rightarrow> Error + 'a" where
  "visit_rows f = foldE_until (\<lambda>a e. f a (fst e) (snd e))"

lemma visit_rows_Nil [simp]: "visit_rows f a [] = Inr a"
  by (simp add: visit_rows_def)

lemma visit_rows_Cons:
  "visit_rows f a (e # es) = bindE (f a (fst e) (snd e)) (\<lambda>(a', go). if go then visit_rows f a' es else Inr a')"
  unfolding visit_rows_def by simp

lemma two_visit_simps:
  "two_visit R t f (acc, 0, stop) (Inr e) =
     bindE (visit_row R t f acc (snd e)) (\<lambda>(acc', go). Inr ((acc', 0, \<not> go), go))"
  "two_visit R t f (acc, Suc n, stop) (Inr e) = Inr ((acc, n, stop), True)"
  by (simp_all add: two_visit_def)

lemma two_visit_error: "\<not> is_ok (two_visit R t f st (Inl e))"
  by (simp add: two_visit_def split: prod.split)

context redb_laws
begin

lemma visit_row_Inr:
  "visit_row R t f a k = Inr (a', go) \<Longrightarrow>
     (case view t k of None \<Rightarrow> a' = a \<and> go | Some r \<Rightarrow> f a k r = Inr (a', go))"
  by (auto simp: visit_row_def result_simps split: option.splits dest!: get)

lemma two_visit_run:
  assumes "foldE_until (two_visit R t f) (acc, k, False) (map Inr es) = Inr (acc', k', stop)"
  shows "visit_rows f acc (index_rows (view t) (drop k es) @ ys)
      = (if stop then Inr acc' else visit_rows f acc' ys) \<and> (\<not> stop \<longrightarrow> k' = k - length es)"
  using assms
proof (induction es arbitrary: acc k)
  case (Cons e es)
  show ?case
  proof (cases k)
    case 0
    with Cons.prems obtain a1 go where row: "visit_row R t f acc (snd e) = Inr (a1, go)"
      and rest: "(if go then foldE_until (two_visit R t f) (a1, 0, \<not> go) (map Inr es)
        else Inr (a1, 0, \<not> go)) = Inr (acc', k', stop)"
      by (cases "visit_row R t f acc (snd e)") (auto simp: two_visit_simps)
    with 0 visit_row_Inr [OF row] Cons.IH [of a1 0] show ?thesis
      by (cases go) (auto simp: visit_rows_Cons split: option.splits)
  next
    case (Suc n)
    with Cons.prems Cons.IH [of acc n] show ?thesis by (simp add: two_visit_simps)
  qed
qed simp

lemma directed_range_items:
  assumes "directed_range R t rv p = Inr items" and "is_range (view t) p (prefix_upper_bound p) E"
  shows "range_items (if rv then rev E else E) items"
  using assms range range_rev is_range_unique
  by (cases rv) (fastforce simp: directed_range_def result_simps)+

lemma two_walk:
  assumes "directed_range R t rv p = Inr items" and "is_range (view t) p (prefix_upper_bound p) E"
    and "foldE_until (two_visit R t f) (acc, k, False) items = Inr (acc', k', stop)"
  shows "visit_rows f acc (index_rows (view t) (drop k (if rv then rev E else E)) @ ys)
      = (if stop then Inr acc' else visit_rows f acc' ys) \<and> (\<not> stop \<longrightarrow> k' = k - length E)"
proof -
  have "foldE_until (two_visit R t f) (acc, k, False) (map Inr (if rv then rev E else E)) = Inr (acc', k', stop)"
    by (rule foldE_until_range_items [OF directed_range_items [OF assms(1,2)] two_visit_error assms(3)])
  from two_visit_run [OF this] show ?thesis by (cases rv) simp_all
qed

lemma scan_two_ordered_Inr:
  assumes E1: "is_range (contents (st_db s)) p1 (prefix_upper_bound p1) E1"
    and E2: "is_range (contents (st_db s)) p2 (prefix_upper_bound p2) E2"
    and run: "scan_two_ordered R s p1 p2 rv skip f acc = Inr r"
  shows "visit_rows f acc (index_rows (contents (st_db s))
      (drop skip (if rv then rev E1 @ rev E2 else E1 @ E2))) = Inr r"
proof -
  let ?dir = "\<lambda>E. if rv then rev E else E"
  from run obtain t items1 a1 k1 stop1 where t: "storage_snapshot R s = Inr t"
    and items1: "directed_range R t rv p1 = Inr items1"
    and w1: "foldE_until (two_visit R t f) (acc, skip, False) items1 = Inr (a1, k1, stop1)"
    and rest: "bindE (if stop1 then Inr (a1, k1, stop1) else bindE (directed_range R t rv p2)
        (foldE_until (two_visit R t f) (a1, k1, stop1))) (\<lambda>st. Inr (fst st)) = Inr r"
    by (auto simp: scan_two_ordered_def bindE_eq_Inr)
  note v = snapshot_view [OF t]
  note first = two_walk [OF items1 E1 [folded v] w1]
  have split: "index_rows (view t) (drop skip (?dir E1 @ ?dir E2))
    = index_rows (view t) (drop skip (?dir E1)) @ index_rows (view t) (drop (skip - length E1) (?dir E2))"
    by (simp add: index_rows_append)
  have "visit_rows f acc (index_rows (view t) (drop skip (?dir E1 @ ?dir E2))) = Inr r"
  proof (cases stop1)
    case False
    with rest obtain items2 a2 k2 stop2 where "directed_range R t rv p2 = Inr items2"
      and "foldE_until (two_visit R t f) (a1, k1, False) items2 = Inr (a2, k2, stop2)" and "a2 = r"
      by (auto simp: bindE_eq_Inr)
    from two_walk [OF this(1) E2 [folded v] this(2), of "[]"] this(3) first False show ?thesis
      unfolding split by simp
  next
    case True
    with rest first show ?thesis unfolding split by simp
  qed
  then show ?thesis using v by (cases rv) simp_all
qed

end

subsection \<open>Backups\<close>

definition backup_abs :: "('db \<Rightarrow> kvmap) \<Rightarrow> 'db \<times> kv list \<times> nat \<Rightarrow> kvmap \<times> nat" where
  "backup_abs contents st = (put_map (contents (fst st)) (fst (snd st)), snd (snd st))"

lemma put_map_of_range:
  assumes "is_range m [] None es"
  shows "put_map Map.empty es = m"
proof
  fix k
  have "distinct (map fst (rev es))" and set: "set es = {(k, v). m k = Some v}"
    using assms by (auto simp: is_range_def in_range_def sorted_wrt_map_fst_distinct simp flip: rev_map)
  then have "map_of (rev es) k = Some v \<longleftrightarrow> m k = Some v" for v
    by simp
  then show "put_map Map.empty es k = m k"
    by (cases "m k"; cases "map_of (rev es) k") (auto simp: put_map_apply)
qed

context redb_laws
begin

lemma backup_flush_contents:
  "backup_flush R out batch = Inr out' \<Longrightarrow> contents out' = put_map (contents out) batch"
  by (auto simp: backup_flush_def result_simps split: if_splits
      dest!: commit insert_all_view begin_write)

lemma backup_step_abs:
  "backup_step R st item = Inr st' \<Longrightarrow>
     \<exists>e. item = Inr e \<and> backup_abs contents st' =
       (\<lambda>(m, n) e. (m(fst e \<mapsto> snd e), n + 1)) (backup_abs contents st) e"
  by (cases st; cases item)
    (auto simp: backup_step_def backup_abs_def Let_def bindE_eq_Inr put_map_append
      split: if_splits dest!: backup_flush_contents)

lemma backup_fold_abs:
  "foldE (backup_step R) st (map Inr es) = Inr st' \<Longrightarrow>
     backup_abs contents st' = (put_map (fst (backup_abs contents st)) es, snd (backup_abs contents st) + length es)"
proof (induction es arbitrary: st)
  case (Cons e es)
  then obtain st1 where "backup_step R st (Inr e) = Inr st1"
    and "foldE (backup_step R) st1 (map Inr es) = Inr st'"
    by (auto simp: bindE_eq_Inr)
  with Cons.IH backup_step_abs show ?case by (fastforce split: prod.splits)
qed simp

lemma backup_step_error: "\<not> is_ok (backup_step R st (Inl e))"
  by (simp add: backup_step_def split: prod.split)

lemma backup_to_Inr:
  assumes "backup_to R src dest dest_exists create = Inr (out, count)"
    and "\<And>db. create = Inr db \<Longrightarrow> contents db = Map.empty"
  shows "\<not> dest_exists \<and> contents out = view src
    \<and> (\<exists>es. is_range (view src) [] None es \<and> count = length es)"
proof -
  from assms(1) obtain db items out1 batch where "\<not> dest_exists" and db: "create = Inr db"
    and items: "rb_range R src [] None = Inr items"
    and fold: "foldE (backup_step R) (db, [], 0) items = Inr (out1, batch, count)"
    and flush: "backup_flush R out1 batch = Inr out"
    by (auto simp: backup_to_def result_simps split: if_splits)
  from range [OF items] obtain es where es: "is_range (view src) [] None es" and "range_items es items"
    by auto
  from foldE_range_items [OF this(2) backup_step_error fold]
  have "backup_abs contents (out1, batch, count) = (put_map (contents db) es, length es)"
    using backup_fold_abs by (fastforce simp: backup_abs_def)
  with assms(2) [OF db] flush es \<open>\<not> dest_exists\<close> show ?thesis
    using put_map_of_range [OF es] by (auto simp: backup_abs_def dest: backup_flush_contents)
qed

lemma page_all_run:
  assumes E: "is_range (contents (st_db s)) p (prefix_upper_bound p) E"
    and "\<And>a. cursor = Some a \<Longrightarrow> starts_with a p"
    and "length (after_cursor cursor E) < fuel"
  shows "\<exists>r. page_all fuel R s p chunk cursor = Some r
    \<and> (case r of Inl e \<Rightarrow> \<exists>m. e = Storage m
       | Inr pages \<Rightarrow> concat pages = after_cursor cursor E \<and> (\<forall>b \<in> set pages. length b \<le> max 1 chunk))"
  using assms(2,3)
proof (induction fuel arbitrary: cursor)
  case (Suc fuel)
  let ?es = "after_cursor cursor E"
  show ?case
  proof (cases "scan_batch R s p cursor chunk")
    case (Inl e)
    then show ?thesis using scan_batch_Inl [OF Inl] by simp
  next
    case (Inr batch)
    then have batch: "batch = take (max 1 chunk) ?es"
      using scan_batch_Inr [OF E Suc.prems(1)] by blast
    show ?thesis
    proof (cases "batch = [] \<or> length batch < chunk")
      case True
      with Inr batch show ?thesis by auto
    next
      case False
      let ?next = "Some (fst (last batch))"
      have rest: "after_cursor ?next E = drop (max 1 chunk) ?es"
        unfolding batch using E False batch by (intro after_cursor_page) (auto simp: is_range_def)
      have "set batch \<subseteq> set ?es" unfolding batch by (rule set_take_subset)
      moreover have "set ?es \<subseteq> set E" by (auto simp: after_cursor_def split: option.split)
      ultimately have "last batch \<in> set E" using False last_in_set [of batch] by blast
      then have "starts_with (fst (last batch)) p"
        using E by (auto simp: is_range_def in_range_prefix)
      moreover have "length (after_cursor ?next E) < fuel"
      proof -
        have "0 < length ?es" and "1 \<le> max 1 chunk" using False batch by auto
        then show ?thesis using Suc.prems(2) unfolding rest length_drop by arith
      qed
      ultimately obtain r where "page_all fuel R s p chunk ?next = Some r"
        and "case r of Inl e \<Rightarrow> \<exists>m. e = Storage m | Inr pages \<Rightarrow> concat pages = after_cursor ?next E
          \<and> (\<forall>b \<in> set pages. length b \<le> max 1 chunk)"
        using Suc.IH [of ?next] by auto
      note next_page = this
      have page: "page_all (Suc fuel) R s p chunk cursor
          = Some (bindE r (\<lambda>pages. Inr (batch # pages)))"
        using Inr False next_page(1) by simp
      have "batch @ after_cursor ?next E = ?es" and "length batch \<le> max 1 chunk"
        unfolding rest by (simp_all add: batch)
      then show ?thesis
        unfolding page using next_page(2) by (cases r) auto
    qed
  qed
qed simp

end

subsection \<open>Properties of the scans\<close>


definition ex_keys :: "kv list" where
  "ex_keys = [([5, 1], [1]), ([5, 2], [2]), ([5], [0]), ([6], [9]), ([4, 255], [8])]"


text \<open>
  C6. The ordered walk over two index prefixes delivers, in order, the rows of the entries of
  the first prefix and then of the second (each backwards when the walk is descending), after
  stepping over \<open>skip\<close> entries counted across both, and stops both walks when the callback
  says so: it is the callback iterated over exactly those rows of one snapshot.
\<close>

theorem scan_two_ordered_rows:
  assumes "redb_laws R contents view"
    and "is_range (contents (st_db s)) p1 (prefix_upper_bound p1) E1"
    and "is_range (contents (st_db s)) p2 (prefix_upper_bound p2) E2"
    and "scan_two_ordered R s p1 p2 rv skip f acc = Inr r"
  shows "visit_rows f acc (index_rows (contents (st_db s))
      (drop skip (if rv then rev E1 @ rev E2 else E1 @ E2))) = Inr r"
  by (rule redb_laws.scan_two_ordered_Inr [OF assms])

definition ex_index :: "kv list" where
  "ex_index = [([1, 0], [9, 1]), ([1, 1], [9, 2]), ([2, 0], [9, 3]), ([2, 1], [9, 4]),
     ([9, 1], [11]), ([9, 2], [12]), ([9, 4], [14])]"

definition ex_collect :: "kv list \<Rightarrow> bytes \<Rightarrow> bytes \<Rightarrow> Error + kv list \<times> bool" where
  "ex_collect acc k v = Inr (acc @ [(k, v)], True)"

theorem scan_two_ordered_rows_witness:
  "visit_rows ex_collect [] (index_rows (map_of ex_index)
      (drop 1 (if False then rev (ref_range ex_index [1] (Some [2])) @ rev (ref_range ex_index [2] (Some [3]))
        else ref_range ex_index [1] (Some [2]) @ ref_range ex_index [2] (Some [3]))))
    = Inr [([9, 2], [12]), ([9, 4], [14])]"
proof -
  have bounds: "prefix_upper_bound [1] = Some [2]" "prefix_upper_bound [2] = Some [3]"
    by code_simp+
  have run: "scan_two_ordered ref_redb (ref_storage ex_index 0) [1] [2] False 1 ex_collect []
      = Inr [([9, 2], [12]), ([9, 4], [14])]"
    by code_simp
  from scan_two_ordered_rows [OF ref.redb_laws_axioms _ _ run] show ?thesis
    by (simp add: ref_storage_def ref_range_is_range bounds)
qed

text \<open>
  C7. A backup is exact: a backup into a fresh file that succeeds holds precisely the keyspace
  of the snapshot, however the copy was cut into transactions, and the number it returns is
  the number of entries. An existing target is refused.
\<close>

theorem backup_exact:
  assumes "redb_laws R contents view"
    and "backup_to R src dest dest_exists create = Inr (out, count)"
    and "\<And>db. create = Inr db \<Longrightarrow> contents db = Map.empty"
  shows "\<not> dest_exists \<and> contents out = view src
    \<and> (\<exists>es. is_range (view src) [] None es \<and> count = length es)"
  by (rule redb_laws.backup_to_Inr [OF assms])

theorem backup_exact_witness:
  "\<exists>out. backup_to ref_redb ex_keys ''copy'' False (Inr []) = Inr (out, 5) \<and> map_of out = map_of ex_keys"
proof -
  have range: "ref_range ex_keys [] None
      = [([4, 255], [8]), ([5], [0]), ([5, 1], [1]), ([5, 2], [2]), ([6], [9])]"
    by code_simp
  obtain out where run: "backup_to ref_redb ex_keys ''copy'' False (Inr []) = Inr (out, 5)"
    using range by (simp add: backup_to_def backup_step_def backup_flush_def BACKUP_BATCH_def
        insert_all_def tx_insert_def ref_redb_def)
  then show ?thesis
    using backup_exact [OF ref.redb_laws_axioms run] by auto
qed

end
