(* ===== verification/Storage_History.thy ===== *)
theory Storage_History
  imports Storage_Laws
begin

section \<open>Histories of a storage file and the write epoch\<close>

text \<open>
  The engine tags cached artifacts with the write sequence of the state they were built from
  (\<open>write_epoch\<close>). The step relation below has one rule per operation that can change a
  storage handle, with any arguments and any outcome; along every history the epoch
  identifies the contents.
\<close>

definition FLUSH_KEY :: bytes where
  "FLUSH_KEY = ascii ''meta::flush_seq''"

definition persisted_epoch :: "('db \<Rightarrow> kvmap) \<Rightarrow> 'db storage \<Rightarrow> u64" where
  "persisted_epoch contents s = decode_wseq (contents (st_db s) WSEQ_KEY)"

inductive storage_op :: "('db, 'tx) redb \<Rightarrow> 'db storage \<Rightarrow> 'db storage \<Rightarrow> bool" for R where
  op_put: "storage_put R s key value = (s', r) \<Longrightarrow> storage_op R s s'"
| op_delete: "storage_delete R s key = (s', r) \<Longrightarrow> storage_op R s s'"
| op_apply: "storage_apply R s puts deletes = (s', r) \<Longrightarrow> storage_op R s s'"
| op_insert: "apply_insert R s new aux deletes = (s', r) \<Longrightarrow> storage_op R s s'"
| op_validated: "apply_validated R s keys ranges puts deletes = (s', r) \<Longrightarrow> storage_op R s s'"
| op_batch: "apply_validated_batch R s jobs = (s', rb) \<Longrightarrow> storage_op R s s'"
| op_jobs: "apply_jobs R s plain = (s', rb) \<Longrightarrow> storage_op R s s'"
| op_flush: "storage_flush R s = (s', r) \<Longrightarrow> storage_op R s s'"

inductive storage_run :: "('db, 'tx) redb \<Rightarrow> 'db storage \<Rightarrow> nat \<Rightarrow> 'db storage \<Rightarrow> bool" for R where
  run_refl: "storage_run R s 0 s"
| run_step: "storage_run R s n s1 \<Longrightarrow> storage_op R s1 s2 \<Longrightarrow> storage_run R s (Suc n) s2"

lemma WSEQ_not_FLUSH [simp]: "WSEQ_KEY \<noteq> FLUSH_KEY"
  by (simp add: WSEQ_KEY_def FLUSH_KEY_def ascii_def)

lemma decode_wseq_bytes [simp]: "decode_wseq (Some (to_le_bytes 8 n)) = n"
  by (simp add: decode_wseq_def from_to_le_bytes)

text \<open>What one operation does to the handle, whatever it is and however it ends.\<close>

definition op_effect :: "('db \<Rightarrow> kvmap) \<Rightarrow> 'db storage \<Rightarrow> 'db storage \<Rightarrow> bool" where
  "op_effect contents s s' \<longleftrightarrow>
     agree_off FLUSH_KEY (contents (st_db s)) (contents (st_db s'))
       \<and> (st_wseq s' = st_wseq s \<or> st_wseq s' = st_wseq s + 1)
     \<or> st_wseq s' = st_wseq s + 1 \<and> persisted_epoch contents s' = st_wseq s'"

lemma agree_off_FLUSH_epoch:
  "agree_off FLUSH_KEY (contents (st_db s)) (contents (st_db s')) \<Longrightarrow>
     persisted_epoch contents s' = persisted_epoch contents s"
  by (simp add: agree_off_def persisted_epoch_def)

context redb_laws
begin

lemma write_txn_effect:
  assumes "write_txn R s body = (s', r)"
  shows "op_effect contents s s'"
proof (cases r)
  case (Inl e)
  with assms have "st_db s' = st_db s \<and> (st_wseq s' = st_wseq s \<or> st_wseq s' = st_wseq s + 1)"
    by (auto simp: write_txn_def wseq_commit_def Let_def bindE_def split: sum.splits prod.splits if_splits)
  then show ?thesis by (auto simp: op_effect_def)
next
  case (Inr x)
  with assms have "write_txn R s body = (s', Inr x)" by simp
  then show ?thesis
    by (rule write_txn_Inr) (simp add: op_effect_def persisted_epoch_def)
qed

lemma flush_effect:
  assumes "storage_flush R s = (s', r)"
  shows "op_effect contents s s'"
  using assms
  by (auto simp: storage_flush_def Let_def op_effect_def agree_off_def FLUSH_KEY_def
      split: sum.splits dest!: begin_write insert commit)

lemma storage_op_effect: "storage_op R s s' \<Longrightarrow> op_effect contents s s'"
  by (induction rule: storage_op.induct)
    (auto simp: storage_put_def storage_delete_def storage_apply_def apply_insert_def
      apply_validated_def apply_validated_batch_def apply_jobs_def intro: write_txn_effect flush_effect)

lemma storage_run_epoch:
  assumes "storage_run R s n s'" and "persisted_epoch contents s \<le> st_wseq s"
    and "unat (st_wseq s) + n < 2 ^ 64"
  shows "unat (st_wseq s) \<le> unat (st_wseq s') \<and> unat (st_wseq s') \<le> unat (st_wseq s) + n
    \<and> persisted_epoch contents s' \<le> st_wseq s'
    \<and> (agree_off FLUSH_KEY (contents (st_db s)) (contents (st_db s'))
       \<or> st_wseq s < persisted_epoch contents s')"
  using assms
proof (induction rule: storage_run.induct)
  case (run_step s n s1 s2)
  then have IH: "unat (st_wseq s) \<le> unat (st_wseq s1)" "unat (st_wseq s1) \<le> unat (st_wseq s) + n"
    "persisted_epoch contents s1 \<le> st_wseq s1"
    "agree_off FLUSH_KEY (contents (st_db s)) (contents (st_db s1)) \<or> st_wseq s < persisted_epoch contents s1"
    by auto
  have bump: "unat (st_wseq s1 + 1) = unat (st_wseq s1) + 1"
    using IH(2) run_step.prems(2) by (simp add: unat_word_ariths)
  from storage_op_effect [OF run_step.hyps(2)] show ?case
    unfolding op_effect_def
  proof (elim disjE conjE)
    assume "agree_off FLUSH_KEY (contents (st_db s1)) (contents (st_db s2))"
      and "st_wseq s2 = st_wseq s1"
    with IH agree_off_FLUSH_epoch [of contents s1 s2] show ?thesis
      by (auto simp: agree_off_def)
  next
    assume "agree_off FLUSH_KEY (contents (st_db s1)) (contents (st_db s2))"
      and "st_wseq s2 = st_wseq s1 + 1"
    with IH bump agree_off_FLUSH_epoch [of contents s1 s2] show ?thesis
      by (auto simp: agree_off_def word_le_nat_alt)
  next
    assume "st_wseq s2 = st_wseq s1 + 1" and "persisted_epoch contents s2 = st_wseq s2"
    with IH bump show ?thesis
      by (auto simp: word_less_nat_alt)
  qed
qed simp

lemma storage_open_epoch:
  "storage_open R path created configured gen = Inr s \<Longrightarrow> persisted_epoch contents s = st_wseq s"
  by (auto simp: storage_open_def bump_schema_generation_def persisted_epoch_def result_simps
      split: open_result.splits dest!: begin_write get commit)

end

text \<open>
  C4. The write epoch identifies the state. Take a handle that has just been opened, let any
  number of operations run on it (fewer than the 64-bit counter has room for), each with any
  arguments and outcome, in any order. If the persisted write sequence at the end is the one
  at the start, the keyspace is the same, up to the marker that \<open>flush\<close> writes. So a cache
  tagged with the sequence is never served for different data, across restarts too: opening
  resumes the counter from the file.
\<close>

theorem write_epoch_identifies_state:
  assumes "redb_laws R contents view"
    and "storage_open R path created configured gen = Inr s0"
    and "storage_run R s0 m s" and "storage_run R s n s'"
    and "unat (st_wseq s0) + m + n < 2 ^ 64"
    and "persisted_epoch contents s' = persisted_epoch contents s"
  shows "agree_off FLUSH_KEY (contents (st_db s)) (contents (st_db s'))"
proof -
  have "persisted_epoch contents s0 \<le> st_wseq s0"
    using redb_laws.storage_open_epoch [OF assms(1,2)] by simp
  then have s: "persisted_epoch contents s \<le> st_wseq s" "unat (st_wseq s) + n < 2 ^ 64"
    using redb_laws.storage_run_epoch [OF assms(1,3)] assms(5) by auto
  from redb_laws.storage_run_epoch [OF assms(1,4) s] s(1) assms(6) show ?thesis
    by auto
qed

theorem write_epoch_identifies_state_witness:
  "\<exists>s0 s s'. storage_open ref_redb ''data'' (Opened []) Immediate 0 = Inr s0
    \<and> storage_run ref_redb s0 1 s \<and> storage_run ref_redb s 1 s'
    \<and> persisted_epoch map_of s' = 1 \<and> agree_off FLUSH_KEY (map_of (st_db s)) (map_of (st_db s'))"
proof -
  define s0 where "s0 = (case storage_open ref_redb ''data'' (Opened []) Immediate 0 of Inr s \<Rightarrow> s)"
  define s where "s = fst (storage_put ref_redb s0 [1] [2])"
  define s' where "s' = fst (storage_flush ref_redb s)"
  have s0: "storage_open ref_redb ''data'' (Opened []) Immediate 0 = Inr s0"
    unfolding s0_def by (simp add: storage_open_def ref_redb_def)
  have run: "storage_run ref_redb s0 1 s" "storage_run ref_redb s 1 s'"
    using run_step [OF run_refl op_put, of ref_redb s0 "[1]" "[2]"]
      run_step [OF run_refl op_flush, of ref_redb s]
    by (simp_all add: s_def s'_def prod_eq_iff)
  have epochs: "persisted_epoch map_of s' = 1" "persisted_epoch map_of s = 1"
    unfolding s'_def s_def s0_def by code_simp+
  have "st_wseq s0 = 0"
    unfolding s0_def by code_simp
  then have "unat (st_wseq s0) + 1 + 1 < 2 ^ 64" by simp
  with write_epoch_identifies_state [OF ref.redb_laws_axioms s0 run] epochs s0 run show ?thesis
    by auto
qed

end
