(* ===== verification/Group_Commit.thy ===== *)
theory Group_Commit
  imports Storage_Laws
begin

section \<open>The group-commit writer\<close>

text \<open>
  \<open>crates/elyra-storage/src/db.rs\<close>: one writer thread takes jobs from a queue, folds runs of
  jobs of one kind into a storage transaction, acknowledges each job with its own result and
  publishes the committed write-sets, numbered by LSN, to the binlog and the replicas. The
  jobs a round finds in the queue depend on timing, which is an argument of the model.
\<close>

subsection \<open>Data\<close>

record WriteEvent =
  we_lsn :: u64
  we_puts :: "kv list"
  we_deletes :: "bytes list"

record Validation =
  va_keys :: "(bytes \<times> bytes option) list"
  va_ranges :: "RangeSnapshot list"

datatype WriteOp =
    Plain "kv list" "bytes list"
  | Validated "(bytes \<times> bytes option) list" "RangeSnapshot list" "kv list" "bytes list"
  | Insert "kv list" "kv list" "bytes list"

record WriteJob =
  wj_puts :: "kv list"
  wj_deletes :: "bytes list"
  wj_validation :: "Validation option"
  wj_insert_new :: "kv list option"

text \<open>
  The commit-log sink. \<open>rp_binlog\<close> holds what was handed to the binlog, if one is open (an
  append error is only logged), \<open>rp_sent\<close> what was broadcast, \<open>rp_receivers\<close> the number of
  attached replicas.
\<close>

record Repl =
  rp_lsn :: u64
  rp_sent :: "WriteEvent list"
  rp_binlog :: "WriteEvent list option"
  rp_receivers :: nat

definition repl_active :: "Repl \<Rightarrow> bool" where
  "repl_active r \<longleftrightarrow> rp_binlog r \<noteq> None \<or> rp_receivers r > 0"

definition repl_publish :: "kv list \<Rightarrow> bytes list \<Rightarrow> Repl \<Rightarrow> Repl" where
  "repl_publish puts deletes r =
     (if puts = [] \<and> deletes = [] then r
      else
        let lsn = rp_lsn r + 1;
            ev = \<lparr>we_lsn = lsn, we_puts = puts, we_deletes = deletes\<rparr>
        in r\<lparr>rp_lsn := lsn, rp_binlog := map_option (\<lambda>l. l @ [ev]) (rp_binlog r),
             rp_sent := rp_sent r @ [ev]\<rparr>)"

definition GROUP_COMMIT_MAX :: nat where
  "GROUP_COMMIT_MAX = 1024"

subsection \<open>Submitting\<close>

text \<open>\<open>submit\<close> and \<open>submit_insert\<close> put a job on the queue; \<open>apply_op_local\<close> chooses between them.\<close>

definition submit :: "kv list \<Rightarrow> bytes list \<Rightarrow> Validation option \<Rightarrow> WriteJob" where
  "submit puts deletes validation =
     \<lparr>wj_puts = puts, wj_deletes = deletes, wj_validation = validation, wj_insert_new = None\<rparr>"

definition submit_insert :: "kv list \<Rightarrow> kv list \<Rightarrow> bytes list \<Rightarrow> WriteJob" where
  "submit_insert new aux deletes =
     \<lparr>wj_puts = aux, wj_deletes = deletes, wj_validation = None, wj_insert_new = Some new\<rparr>"

definition apply_op_local :: "WriteOp \<Rightarrow> WriteJob" where
  "apply_op_local op =
     (case op of
        Plain puts deletes \<Rightarrow> submit puts deletes None
      | Validated keys ranges puts deletes \<Rightarrow>
          submit puts deletes (Some \<lparr>va_keys = keys, va_ranges = ranges\<rparr>)
      | Insert new aux deletes \<Rightarrow> submit_insert new aux deletes)"

text \<open>
  \<open>commit\<close>, \<open>commit_validated\<close> and \<open>commit_insert\<close>: with a consensus layer installed the
  mutation is proposed to it; otherwise it is submitted to the writer, whose answer to a job
  is \<open>written\<close>, and then the replication barrier \<open>sync\<close> is awaited.
\<close>

definition commit_op ::
  "(WriteOp \<Rightarrow> Error + unit) option \<Rightarrow> (WriteJob \<Rightarrow> Error + unit) \<Rightarrow> Error + unit \<Rightarrow> WriteOp
     \<Rightarrow> Error + unit" where
  "commit_op consensus written sync op =
     (case consensus of
        Some propose \<Rightarrow> propose op
      | None \<Rightarrow> bindE (written (apply_op_local op)) (\<lambda>_. sync))"

definition db_commit where
  "db_commit consensus written sync puts deletes = commit_op consensus written sync (Plain puts deletes)"

definition db_commit_validated where
  "db_commit_validated consensus written sync v puts deletes =
     commit_op consensus written sync (Validated (va_keys v) (va_ranges v) puts deletes)"

definition db_commit_insert where
  "db_commit_insert consensus written sync new aux deletes =
     commit_op consensus written sync (Insert new aux deletes)"

subsection \<open>The writer thread\<close>

definition job_puts :: "WriteJob \<Rightarrow> kv list" where
  "job_puts j = (case wj_insert_new j of Some new \<Rightarrow> new @ wj_puts j | None \<Rightarrow> wj_puts j)"

text \<open>Publish a job's write-set if its result is a success and anything listens.\<close>

definition publish_result :: "(WriteJob \<Rightarrow> kv list) \<Rightarrow> Repl \<Rightarrow> WriteJob \<times> (Error + unit) \<Rightarrow> Repl" where
  "publish_result puts_of r jr =
     (if is_ok (snd jr) \<and> repl_active r then repl_publish (puts_of (fst jr)) (wj_deletes (fst jr)) r else r)"

definition job_commit :: "WriteJob \<Rightarrow> ValidatedCommit" where
  "job_commit j =
     (let v = (case wj_validation j of Some v \<Rightarrow> v | None \<Rightarrow> \<lparr>va_keys = [], va_ranges = []\<rparr>)
      in \<lparr>vc_keys = va_keys v, vc_ranges = va_ranges v, vc_puts = wj_puts j, vc_deletes = wj_deletes j\<rparr>)"

definition job_plain :: "WriteJob \<Rightarrow> PlainJob" where
  "job_plain j = \<lparr>pj_new = wj_insert_new j, pj_puts = wj_puts j, pj_deletes = wj_deletes j\<rparr>"

text \<open>
  The text of an error, as the writer sends it to every job of a group whose transaction
  failed, is an argument: \<open>msg\<close> is \<open>Error::to_string\<close>.
\<close>

definition apply_validated_group ::
  "('db, 'tx) redb \<Rightarrow> (Error \<Rightarrow> string) \<Rightarrow> 'db storage \<Rightarrow> Repl \<Rightarrow> WriteJob list
     \<Rightarrow> 'db storage \<times> Repl \<times> (Error + unit) list" where
  "apply_validated_group R msg s repl jobs =
     (case jobs of
        [job] \<Rightarrow>
          (let c = job_commit job;
               (s', r) = apply_validated R s (vc_keys c) (vc_ranges c) (vc_puts c) (vc_deletes c)
           in (s', publish_result wj_puts repl (job, r), [r]))
      | _ \<Rightarrow>
          (case apply_validated_batch R s (map job_commit jobs) of
             (s', Inr results) \<Rightarrow>
               (s', foldl (publish_result wj_puts) repl (zip jobs results), results)
           | (s', Inl e) \<Rightarrow> (s', repl, map (\<lambda>_. Inl (Storage (msg e))) jobs)))"

definition apply_job_group ::
  "('db, 'tx) redb \<Rightarrow> (Error \<Rightarrow> string) \<Rightarrow> 'db storage \<Rightarrow> Repl \<Rightarrow> WriteJob list
     \<Rightarrow> 'db storage \<times> Repl \<times> (Error + unit) list" where
  "apply_job_group R msg s repl jobs =
     (case jobs of
        [job] \<Rightarrow>
          (let (s', r) = (case wj_insert_new job of
                 Some new \<Rightarrow> apply_insert R s new (wj_puts job) (wj_deletes job)
               | None \<Rightarrow> storage_apply R s (wj_puts job) (wj_deletes job))
           in (s', publish_result job_puts repl (job, r), [r]))
      | _ \<Rightarrow>
          (case apply_jobs R s (map job_plain jobs) of
             (s', Inr results) \<Rightarrow>
               (s', foldl (publish_result job_puts) repl (zip jobs results), results)
           | (s', Inl e) \<Rightarrow> (s', repl, map (\<lambda>_. Inl (Storage (msg e))) jobs)))"

text \<open>
  The inner loop of a round: \<open>visible\<close> jobs can be received without blocking; a job of the
  other kind is carried to the next round.
\<close>

fun drain ::
  "bool \<Rightarrow> nat \<Rightarrow> WriteJob list \<Rightarrow> WriteJob list \<Rightarrow> WriteJob list \<times> WriteJob option \<times> WriteJob list" where
  "drain validated visible jobs queue =
     (if length jobs < GROUP_COMMIT_MAX then
        (case (visible, queue) of
           (Suc v, job # rest) \<Rightarrow>
             if (wj_validation job \<noteq> None) = validated then drain validated v (jobs @ [job]) rest
             else (jobs, Some job, rest)
         | _ \<Rightarrow> (jobs, None, queue))
      else (jobs, None, queue))"

declare drain.simps [simp del]

text \<open>A round takes a run of jobs of one kind off the queue; nothing is lost or reordered.\<close>

definition carried :: "WriteJob option \<Rightarrow> WriteJob list" where
  "carried c = (case c of None \<Rightarrow> [] | Some j \<Rightarrow> [j])"

lemma carried_simps [simp]: "carried None = []" "carried (Some j) = [j]"
  by (simp_all add: carried_def)

lemma drain_run:
  "drain validated visible jobs queue = (jobs', carry, rest) \<Longrightarrow>
     \<exists>taken. jobs' = jobs @ taken \<and> queue = taken @ carried carry @ rest
       \<and> (\<forall>j \<in> set taken. (wj_validation j \<noteq> None) = validated)"
proof (induction queue arbitrary: visible jobs)
  case Nil
  then show ?case
    using drain.simps [of validated visible jobs "[]"] by (auto split: if_splits nat.splits)
next
  case (Cons job queue)
  show ?case
  proof (cases "length jobs < GROUP_COMMIT_MAX \<and> visible \<noteq> 0")
    case True
    then obtain v where v: "visible = Suc v" by (cases visible) auto
    show ?thesis
    proof (cases "(wj_validation job \<noteq> None) = validated")
      case same: True
      with True v Cons.prems have "drain validated v (jobs @ [job]) queue = (jobs', carry, rest)"
        by (simp add: drain.simps [of validated "Suc v" jobs])
      from Cons.IH [OF this] same show ?thesis by (auto intro: exI [of _ "job # _"])
    next
      case False
      with True v Cons.prems show ?thesis
        by (auto simp: drain.simps [of validated "Suc v" jobs])
    qed
  next
    case False
    with Cons.prems show ?thesis
      by (auto simp: drain.simps [of validated visible jobs] split: if_splits nat.splits)
  qed
qed

lemma drain_length:
  "drain validated visible jobs queue = (jobs', carry, rest) \<Longrightarrow>
     length rest + length (carried carry) \<le> length queue"
  by (drule drain_run) auto

lemma round_decreases:
  assumes "(case carry of Some j \<Rightarrow> Some (j, queue)
      | None \<Rightarrow> (case queue of [] \<Rightarrow> None | j # q \<Rightarrow> Some (j, q))) = Some x" "(first, q) = x"
    and "d = drain (wj_validation first \<noteq> None) visible [first] q" "(jobs, y) = d" "(carry', q') = y"
  shows "length (carried carry' @ q') < length (carried carry @ queue)"
proof -
  have "carried carry @ queue = first # q"
    using assms(1,2) by (auto split: option.splits list.splits)
  moreover have "length q' + length (carried carry') \<le> length q"
    using assms(3-5) by (intro drain_length [of "wj_validation first \<noteq> None" visible "[first]" q jobs]) simp
  ultimately show ?thesis by simp
qed

text \<open>
  \<open>writer_loop\<close>: \<open>visible n\<close> is how many jobs round \<open>n\<close> finds waiting. The loop ends when the
  channel is closed and empty, that is, when all submitted jobs are done.
\<close>

function writer_loop ::
  "('db, 'tx) redb \<Rightarrow> (Error \<Rightarrow> string) \<Rightarrow> (nat \<Rightarrow> nat) \<Rightarrow> nat \<Rightarrow> WriteJob option \<Rightarrow> WriteJob list
     \<Rightarrow> 'db storage \<Rightarrow> Repl \<Rightarrow> 'db storage \<times> Repl \<times> (Error + unit) list" where
  "writer_loop R msg visible n carry queue s repl =
     (case (case carry of Some j \<Rightarrow> Some (j, queue)
            | None \<Rightarrow> (case queue of [] \<Rightarrow> None | j # q \<Rightarrow> Some (j, q))) of
        None \<Rightarrow> (s, repl, [])
      | Some (first, q) \<Rightarrow>
          (let (jobs, carry', q') = drain (wj_validation first \<noteq> None) (visible n) [first] q;
               (s1, repl1, acks) =
                 (if wj_validation first \<noteq> None then apply_validated_group R msg s repl jobs
                  else apply_job_group R msg s repl jobs);
               (s2, repl2, acks') = writer_loop R msg visible (n + 1) carry' q' s1 repl1
           in (s2, repl2, acks @ acks')))"
  by pat_completeness auto
termination
  apply (relation "measure (\<lambda>(R, msg, visible, n, carry, queue, s, repl). length (carried carry @ queue))")
  subgoal by simp
  subgoal premises p using round_decreases [OF p(1-5)] by simp
  done

declare writer_loop.simps [simp del]

subsection \<open>The abstract reading of the queue\<close>

text \<open>
  Every job is either accepted, with the effect of its write-set on the keyspace, or refused.
\<close>

definition write_spec :: "kvmap \<Rightarrow> WriteJob \<Rightarrow> kvmap option" where
  "write_spec m j =
     (if wj_validation j \<noteq> None then commit_spec m (job_commit j) else job_spec m (job_plain j))"

text \<open>Jobs as the submitting functions build them, which leave the write-sequence key alone.\<close>

definition job_ok :: "WriteJob \<Rightarrow> bool" where
  "job_ok j \<longleftrightarrow> (if wj_validation j \<noteq> None then wj_insert_new j = None \<and> avoids_wseq (job_commit j)
     else \<not> inserts_wseq (job_plain j))"

definition no_storage_error :: "Error + unit \<Rightarrow> bool" where
  "no_storage_error r \<longleftrightarrow> (case r of Inl (Storage _) \<Rightarrow> False | _ \<Rightarrow> True)"

lemma no_storage_error_iff: "no_storage_error r \<longleftrightarrow> (\<forall>m. r \<noteq> Inl (Storage m))"
  by (auto simp: no_storage_error_def split: sum.splits Error.splits)

lemma serial_append:
  "serial f m (xs @ ys) = (fst (serial f (fst (serial f m xs)) ys),
     snd (serial f m xs) @ snd (serial f (fst (serial f m xs)) ys))"
  by (induction xs arbitrary: m) (auto split: option.split prod.split)

lemma serial_map: "serial f m (map h js) = serial (\<lambda>m j. f m (h j)) m js"
  by (induction js arbitrary: m) (auto split: option.split)

lemma serial_cong: "(\<And>m j. j \<in> set js \<Longrightarrow> f m j = g m j) \<Longrightarrow> serial f m js = serial g m js"
  by (induction js arbitrary: m) (auto split: option.split)

lemma length_serial [simp]: "length (snd (serial f m js)) = length js"
  by (induction js arbitrary: m) (auto simp: case_prod_unfold Let_def split: option.split)

lemma serial_rel:
  assumes "\<And>m m' j. rel m m' \<Longrightarrow> j \<in> set js \<Longrightarrow> rel_option rel (f m j) (f m' j)" and "rel m m'"
  shows "rel (fst (serial f m js)) (fst (serial f m' js)) \<and> snd (serial f m js) = snd (serial f m' js)"
  using assms
proof (induction js arbitrary: m m')
  case (Cons j js)
  have "rel_option rel (f m j) (f m' j)" using Cons.prems by simp
  then show ?case
  proof (cases rule: option.rel_cases)
    case None
    then show ?thesis using Cons.IH [of m m'] Cons.prems by (simp add: case_prod_unfold Let_def)
  next
    case (Some x y)
    then show ?thesis using Cons.IH [of x y] Cons.prems by (simp add: case_prod_unfold Let_def)
  qed
qed simp

lemma write_spec_agree:
  "agree_off WSEQ_KEY m m' \<Longrightarrow> job_ok j \<Longrightarrow>
     rel_option (agree_off WSEQ_KEY) (write_spec m j) (write_spec m' j)"
  by (simp add: write_spec_def job_ok_def commit_spec_agree job_spec_agree split: if_splits)

text \<open>An accepted job changes the keyspace by the write-set that is published for it.\<close>

lemma write_spec_Some:
  "write_spec m j = Some m' \<Longrightarrow> job_ok j \<Longrightarrow> m' = apply_map m (job_puts j) (wj_deletes j)"
  by (auto simp: write_spec_def job_ok_def commit_spec_def job_spec_def job_commit_def job_plain_def
      job_new_def job_puts_def Let_def split: if_splits option.splits)

subsection \<open>Groups\<close>

context redb_laws
begin

lemma plain_job_of:
  "(case wj_insert_new job of
      Some new \<Rightarrow> apply_insert R s new (wj_puts job) (wj_deletes job)
    | None \<Rightarrow> storage_apply R s (wj_puts job) (wj_deletes job)) = apply_plain_job R s (job_plain job)"
  by (simp add: apply_plain_job_def job_plain_def split: option.split)

lemma one_validated:
  assumes "agree_off WSEQ_KEY m (contents (st_db s))" and "job_ok j" and "wj_validation j \<noteq> None"
    and "apply_validated_job R s (job_commit j) = (s', r)" and "no_storage_error r"
  shows "agree_off WSEQ_KEY (fst (serial write_spec m [j])) (contents (st_db s'))
    \<and> [is_ok r] = snd (serial write_spec m [j])"
proof -
  have "committed_or is_conflict r"
    using assms(4,5) apply_validated_Inl [of s "vc_keys (job_commit j)" "vc_ranges (job_commit j)"
        "vc_puts (job_commit j)" "vc_deletes (job_commit j)" s']
    by (cases r) (auto simp: committed_or_def no_storage_error_iff apply_validated_job_def is_conflict_def)
  then show ?thesis
    using apply_validated_job_spec [OF assms(1) _ assms(4)] assms(2,3)
    by (auto simp: job_ok_def write_spec_def split: option.splits)
qed

lemma one_plain:
  assumes "agree_off WSEQ_KEY m (contents (st_db s))" and "job_ok j" and "wj_validation j = None"
    and "apply_plain_job R s (job_plain j) = (s', r)" and "no_storage_error r"
  shows "agree_off WSEQ_KEY (fst (serial write_spec m [j])) (contents (st_db s'))
    \<and> [is_ok r] = snd (serial write_spec m [j])"
proof -
  have "committed_or ((=) duplicate_primary) r"
    using assms(4,5) apply_plain_job_Inl [of s "job_plain j" s']
    by (cases r) (auto simp: committed_or_def no_storage_error_iff)
  then show ?thesis
    using apply_plain_job_spec [OF assms(1) _ assms(4)] assms(2,3)
    by (auto simp: job_ok_def write_spec_def split: option.splits)
qed

lemma many_validated:
  assumes "agree_off WSEQ_KEY m (contents (st_db s))" and "\<forall>j \<in> set jobs. job_ok j \<and> wj_validation j \<noteq> None"
    and "apply_validated_batch R s (map job_commit jobs) = (s', Inr rs)"
  shows "agree_off WSEQ_KEY (fst (serial write_spec m jobs)) (contents (st_db s'))
    \<and> map is_ok rs = snd (serial write_spec m jobs)"
proof -
  have "serial commit_spec (contents (st_db s)) (map job_commit jobs)
      = serial write_spec (contents (st_db s)) jobs"
    unfolding serial_map using assms(2) by (intro serial_cong) (auto simp: write_spec_def)
  with apply_validated_batch_spec [OF assms(3)]
    serial_rel [of "agree_off WSEQ_KEY" jobs write_spec, OF write_spec_agree assms(1)] assms(2)
  show ?thesis by simp
qed

lemma many_plain:
  assumes "agree_off WSEQ_KEY m (contents (st_db s))" and "\<forall>j \<in> set jobs. job_ok j \<and> wj_validation j = None"
    and "apply_jobs R s (map job_plain jobs) = (s', Inr rs)"
  shows "agree_off WSEQ_KEY (fst (serial write_spec m jobs)) (contents (st_db s'))
    \<and> map is_ok rs = snd (serial write_spec m jobs)"
proof -
  have "serial job_spec (contents (st_db s)) (map job_plain jobs)
      = serial write_spec (contents (st_db s)) jobs"
    unfolding serial_map using assms(2) by (intro serial_cong) (auto simp: write_spec_def)
  with apply_jobs_spec [OF assms(3)]
    serial_rel [of "agree_off WSEQ_KEY" jobs write_spec, OF write_spec_agree assms(1)] assms(2)
  show ?thesis by simp
qed

end

lemma publish_wj_puts:
  assumes "\<forall>j \<in> set jobs. wj_insert_new j = None"
  shows "foldl (publish_result wj_puts) repl (zip jobs rs) = foldl (publish_result job_puts) repl (zip jobs rs)"
proof -
  have "publish_result wj_puts r x = publish_result job_puts r x" if "x \<in> set (zip jobs rs)" for r x
  proof -
    obtain j b where x: "x = (j, b)" by (cases x)
    with that have "j \<in> set jobs" by (auto dest: set_zip_leftD)
    with assms x show ?thesis by (simp add: publish_result_def job_puts_def)
  qed
  then show ?thesis by (intro foldl_cong) auto
qed

text \<open>The outcome of a group, for either kind.\<close>

definition group_outcome ::
  "('db \<Rightarrow> kvmap) \<Rightarrow> kvmap \<Rightarrow> Repl \<Rightarrow> WriteJob list \<Rightarrow> 'db storage \<times> Repl \<times> (Error + unit) list \<Rightarrow> bool" where
  "group_outcome contents m repl jobs out \<longleftrightarrow>
     (let (s', repl', rs) = out in
      agree_off WSEQ_KEY (fst (serial write_spec m jobs)) (contents (st_db s'))
      \<and> map is_ok rs = snd (serial write_spec m jobs)
      \<and> repl' = foldl (publish_result job_puts) repl (zip jobs rs))"

context redb_laws
begin

lemma validated_group_outcome:
  assumes "agree_off WSEQ_KEY m (contents (st_db s))" and "jobs \<noteq> []"
    and jobs: "\<forall>j \<in> set jobs. job_ok j \<and> wj_validation j \<noteq> None"
    and run: "apply_validated_group R msg s repl jobs = (s', repl', rs)"
    and good: "\<forall>r \<in> set rs. no_storage_error r"
  shows "group_outcome contents m repl jobs (s', repl', rs)"
proof -
  have new: "\<forall>j \<in> set jobs. wj_insert_new j = None" using jobs by (auto simp: job_ok_def split: if_splits)
  show ?thesis
  proof (cases "\<exists>j. jobs = [j]")
    case True
    then obtain j where j: "jobs = [j]" by blast
    obtain s1 r where one: "apply_validated_job R s (job_commit j) = (s1, r)" by fastforce
    with run j have out: "s' = s1" "rs = [r]" "repl' = publish_result wj_puts repl (j, r)"
      by (auto simp: apply_validated_group_def apply_validated_job_def Let_def)
    from one_validated [OF assms(1) _ _ one] jobs good j out publish_wj_puts [OF new, of repl rs]
    show ?thesis by (simp add: group_outcome_def)
  next
    case False
    with run have many: "(case apply_validated_batch R s (map job_commit jobs) of
        (s', Inr results) \<Rightarrow> (s', foldl (publish_result wj_puts) repl (zip jobs results), results)
      | (s', Inl e) \<Rightarrow> (s', repl, map (\<lambda>_. Inl (Storage (msg e))) jobs)) = (s', repl', rs)"
      by (auto simp: apply_validated_group_def split: list.splits)
    obtain s1 res where batch: "apply_validated_batch R s (map job_commit jobs) = (s1, res)" by force
    show ?thesis
    proof (cases res)
      case (Inl e)
      with many batch good \<open>jobs \<noteq> []\<close> show ?thesis
        by (cases jobs) (auto simp: no_storage_error_iff)
    next
      case (Inr results)
      with many batch many_validated [OF assms(1) jobs, of s1 results] publish_wj_puts [OF new, of repl rs]
      show ?thesis by (auto simp: group_outcome_def)
    qed
  qed
qed

lemma job_group_outcome:
  assumes "agree_off WSEQ_KEY m (contents (st_db s))" and "jobs \<noteq> []"
    and jobs: "\<forall>j \<in> set jobs. job_ok j \<and> wj_validation j = None"
    and run: "apply_job_group R msg s repl jobs = (s', repl', rs)"
    and good: "\<forall>r \<in> set rs. no_storage_error r"
  shows "group_outcome contents m repl jobs (s', repl', rs)"
proof (cases "\<exists>j. jobs = [j]")
  case True
  then obtain j where j: "jobs = [j]" by blast
  obtain s1 r where one: "apply_plain_job R s (job_plain j) = (s1, r)" by fastforce
  with run j have out: "s' = s1" "rs = [r]" "repl' = publish_result job_puts repl (j, r)"
    by (auto simp: apply_job_group_def plain_job_of Let_def)
  from one_plain [OF assms(1) _ _ one] jobs good j out show ?thesis
    by (simp add: group_outcome_def)
next
  case False
  with run have many: "(case apply_jobs R s (map job_plain jobs) of
      (s', Inr results) \<Rightarrow> (s', foldl (publish_result job_puts) repl (zip jobs results), results)
    | (s', Inl e) \<Rightarrow> (s', repl, map (\<lambda>_. Inl (Storage (msg e))) jobs)) = (s', repl', rs)"
    by (auto simp: apply_job_group_def split: list.splits)
  obtain s1 res where batch: "apply_jobs R s (map job_plain jobs) = (s1, res)" by force
  show ?thesis
  proof (cases res)
    case (Inl e)
    with many batch good \<open>jobs \<noteq> []\<close> show ?thesis
      by (cases jobs) (auto simp: no_storage_error_iff)
  next
    case (Inr results)
    with many batch many_plain [OF assms(1) jobs, of s1 results] show ?thesis
      by (auto simp: group_outcome_def)
  qed
qed

lemma writer_loop_outcome:
  assumes "writer_loop R msg visible n carry queue s repl = (s', repl', acks)"
    and "agree_off WSEQ_KEY m (contents (st_db s))"
    and "\<forall>j \<in> set (carried carry @ queue). job_ok j" and "\<forall>r \<in> set acks. no_storage_error r"
  shows "group_outcome contents m repl (carried carry @ queue) (s', repl', acks)"
  using assms
proof (induction "length (carried carry @ queue)" arbitrary: n carry queue s repl acks m rule: less_induct)
  case less
  show ?case
  proof (cases "carried carry @ queue")
    case Nil
    with less.prems show ?thesis
      by (auto simp: group_outcome_def carried_def writer_loop.simps [of _ _ _ _ carry] split: option.splits)
  next
    case (Cons first q)
    then have first: "(case carry of Some j \<Rightarrow> Some (j, queue)
        | None \<Rightarrow> (case queue of [] \<Rightarrow> None | j # q \<Rightarrow> Some (j, q))) = Some (first, q)"
      by (auto simp: carried_def split: option.splits list.splits)
    let ?v = "wj_validation first \<noteq> None"
    obtain jobs carry' q' where drain: "drain ?v (visible n) [first] q = (jobs, carry', q')"
      by (metis prod_cases3)
    obtain s1 repl1 acks1 where group:
      "(if ?v then apply_validated_group R msg s repl jobs else apply_job_group R msg s repl jobs)
        = (s1, repl1, acks1)" by (metis prod_cases3)
    obtain acks2 where rest: "writer_loop R msg visible (n + 1) carry' q' s1 repl1 = (s', repl', acks2)"
      and acks: "acks = acks1 @ acks2"
      using less.prems(1) unfolding writer_loop.simps [of R msg visible n carry queue s repl]
      unfolding first option.case prod.case Let_def drain group by (auto split: prod.splits)
    from drain_run [OF drain] obtain taken where jobs: "jobs = first # taken"
      and q: "q = taken @ carried carry' @ q'" and kind: "\<forall>j \<in> set taken. (wj_validation j \<noteq> None) = ?v"
      by auto
    have ok: "\<forall>j \<in> set jobs. job_ok j" using less.prems(3) Cons jobs q by auto
    have "group_outcome contents m repl jobs (s1, repl1, acks1)"
    proof (cases ?v)
      case True
      then show ?thesis
        using group ok kind jobs less.prems(2,4) acks by (intro validated_group_outcome) auto
    next
      case False
      then show ?thesis
        using group ok kind jobs less.prems(2,4) acks by (intro job_group_outcome) auto
    qed
    note g = this [unfolded group_outcome_def Let_def prod.case]
    have shorter: "length (carried carry' @ q') < length (carried carry @ queue)"
      unfolding Cons q by simp
    have "group_outcome contents (fst (serial write_spec m jobs)) repl1 (carried carry' @ q') (s', repl', acks2)"
      using rest g less.prems(3,4) acks unfolding Cons q by (intro less.hyps [OF shorter]) auto
    moreover have "carried carry @ queue = jobs @ carried carry' @ q'"
      using Cons jobs q by simp
    moreover have "length acks1 = length jobs"
      using g by (metis length_map length_serial)
    ultimately show ?thesis
      using g unfolding group_outcome_def acks by (simp add: serial_append)
  qed
qed

end

subsection \<open>The published log\<close>

definition apply_event :: "kvmap \<Rightarrow> WriteEvent \<Rightarrow> kvmap" where
  "apply_event m ev = apply_map m (we_puts ev) (we_deletes ev)"

text \<open>
  Publishing the accepted jobs of a run: the events appended to the log, when anything
  listens, carry consecutive LSNs, and replaying them has the effect of the run.
\<close>

lemma publish_result_cases:
  assumes "repl_active repl"
  shows "repl_active (publish_result job_puts repl (j, r))
    \<and> (is_ok r \<and> (job_puts j \<noteq> [] \<or> wj_deletes j \<noteq> [])
       \<and> rp_lsn (publish_result job_puts repl (j, r)) = rp_lsn repl + 1
       \<and> rp_sent (publish_result job_puts repl (j, r)) = rp_sent repl @
           [\<lparr>we_lsn = rp_lsn repl + 1, we_puts = job_puts j, we_deletes = wj_deletes j\<rparr>]
     \<or> (is_ok r \<longrightarrow> job_puts j = [] \<and> wj_deletes j = []) \<and> publish_result job_puts repl (j, r) = repl)"
  using assms by (auto simp: publish_result_def repl_publish_def repl_active_def Let_def)

lemma published_events:
  assumes "repl_active repl" and "\<forall>j \<in> set jobs. job_ok j"
    and "map is_ok rs = snd (serial write_spec m jobs)"
  shows "\<exists>evs. rp_sent (foldl (publish_result job_puts) repl (zip jobs rs)) = rp_sent repl @ evs
    \<and> map we_lsn evs = map (\<lambda>i. rp_lsn repl + of_nat i + 1) [0..<length evs]
    \<and> foldl apply_event m evs = fst (serial write_spec m jobs)"
  using assms
proof (induction jobs arbitrary: repl rs m)
  case (Cons j jobs)
  have "length rs = Suc (length jobs)"
    using Cons.prems(3) by (metis length_map length_serial length_Cons)
  then obtain r rs' where rs: "rs = r # rs'" by (cases rs) auto
  define repl1 where "repl1 = publish_result job_puts repl (j, r)"
  define m1 where "m1 = (case write_spec m j of None \<Rightarrow> m | Some x \<Rightarrow> x)"
  have ok: "is_ok r \<longleftrightarrow> write_spec m j \<noteq> None" and rest: "map is_ok rs' = snd (serial write_spec m1 jobs)"
    and fin: "fst (serial write_spec m (j # jobs)) = fst (serial write_spec m1 jobs)"
    using Cons.prems(3) rs by (auto simp: m1_def case_prod_unfold Let_def split: option.splits)
  have m1: "m1 = (if is_ok r then apply_map m (job_puts j) (wj_deletes j) else m)"
    using ok write_spec_Some [of m j] Cons.prems(2) by (auto simp: m1_def split: option.splits)
  note pub = publish_result_cases [OF Cons.prems(1), of j r, folded repl1_def]
  from pub Cons.IH [of repl1 rs' m1] rest Cons.prems(2)
  obtain evs where evs: "rp_sent (foldl (publish_result job_puts) repl1 (zip jobs rs')) = rp_sent repl1 @ evs"
    "map we_lsn evs = map (\<lambda>i. rp_lsn repl1 + of_nat i + 1) [0..<length evs]"
    "foldl apply_event m1 evs = fst (serial write_spec m1 jobs)"
    by auto
  show ?case
  proof (cases "repl1 = repl \<and> m1 = m")
    case True
    with evs rs fin show ?thesis by (auto simp: repl1_def [symmetric])
  next
    case False
    with pub m1 have ev: "is_ok r" "rp_lsn repl1 = rp_lsn repl + 1"
      "rp_sent repl1 = rp_sent repl @ [\<lparr>we_lsn = rp_lsn repl + 1, we_puts = job_puts j, we_deletes = wj_deletes j\<rparr>]"
      by (auto simp: apply_map_def put_map_def del_map_def split: if_splits)
    let ?ev = "\<lparr>we_lsn = rp_lsn repl + 1, we_puts = job_puts j, we_deletes = wj_deletes j\<rparr>"
    have "map (\<lambda>i. rp_lsn repl + of_nat i + 1) [0..<length (?ev # evs)]
        = (rp_lsn repl + 1) # map (\<lambda>i. rp_lsn repl1 + of_nat i + 1) [0..<length evs]"
      by (simp add: upt_conv_Cons ev(2) map_Suc_upt [symmetric] del: upt_Suc)
    moreover have "apply_event m ?ev = m1" using m1 ev(1) by (simp add: apply_event_def)
    ultimately show ?thesis
      using evs ev(2,3) rs fin by (intro exI [of _ "?ev # evs"]) (simp add: repl1_def [symmetric])
  qed
qed simp

subsection \<open>Properties of the writer\<close>

text \<open>
  C8. The writer is serial. However the queue fills up while it runs, that is, for every
  number of jobs each round finds waiting, the writer terminates having acknowledged every
  job in submission order; the verdicts and the final contents are those of executing the jobs
  one after another, and so do not depend on how they were grouped. (The results are compared
  as accepted or refused, for runs in which no job is answered with a storage error.)
\<close>

theorem writer_loop_serial:
  assumes "redb_laws R contents view"
    and "writer_loop R msg visible 0 None queue s repl = (s', repl', acks)"
    and "\<forall>j \<in> set queue. job_ok j" and "\<forall>r \<in> set acks. no_storage_error r"
  shows "map is_ok acks = snd (serial write_spec (contents (st_db s)) queue)
    \<and> agree_off WSEQ_KEY (fst (serial write_spec (contents (st_db s)) queue)) (contents (st_db s'))"
  using redb_laws.writer_loop_outcome [OF assms(1,2), of "contents (st_db s)"] assms(3,4)
  by (simp add: group_outcome_def)

definition ex_queue :: "WriteJob list" where
  "ex_queue = map apply_op_local
     [Insert [([1], [10])] [] [], Plain [([2], [20])] [], Validated [([1], Some [10])] [] [([1], [11])] [],
      Validated [([1], Some [10])] [] [([3], [30])] [], Insert [([2], [0])] [] []]"

definition ex_repl :: Repl where
  "ex_repl = \<lparr>rp_lsn = 7, rp_sent = [], rp_binlog = Some [], rp_receivers = 0\<rparr>"

definition ex_acks :: "(Error + unit) list" where
  "ex_acks = [Inr (), Inr (), Inr (), Inl row_conflict, Inl duplicate_primary]"

lemma ex_writer_run:
  "snd (snd (writer_loop ref_redb (\<lambda>_. []) (\<lambda>n. 1) 0 None ex_queue (ref_storage [] 0) ex_repl)) = ex_acks"
  by code_simp

lemma ex_queue_ok: "\<forall>j \<in> set ex_queue. job_ok j" "\<forall>r \<in> set ex_acks. no_storage_error r" "repl_active ex_repl"
  by code_simp+

theorem writer_loop_serial_witness:
  "snd (serial write_spec Map.empty ex_queue) = [True, True, True, False, False]"
proof -
  let ?run = "writer_loop ref_redb (\<lambda>_. []) (\<lambda>n. 1) 0 None ex_queue (ref_storage [] 0) ex_repl"
  have "?run = (fst ?run, fst (snd ?run), ex_acks)"
    using ex_writer_run by (metis prod.collapse)
  from writer_loop_serial [OF ref.redb_laws_axioms this ex_queue_ok(1,2)] show ?thesis
    by (simp add: ref_storage_def ex_acks_def)
qed

text \<open>
  C9. A replica converges. When the binlog or a replica listens, the events the writer
  publishes carry consecutive LSNs after the ones before, and applying them in order to the
  contents the writer started from (deletes, then puts) gives the contents it ended with.
\<close>

theorem published_log_replays:
  assumes "redb_laws R contents view"
    and "writer_loop R msg visible 0 None queue s repl = (s', repl', acks)"
    and "\<forall>j \<in> set queue. job_ok j" and "\<forall>r \<in> set acks. no_storage_error r"
    and "repl_active repl"
  shows "\<exists>evs. rp_sent repl' = rp_sent repl @ evs
    \<and> map we_lsn evs = map (\<lambda>i. rp_lsn repl + of_nat i + 1) [0..<length evs]
    \<and> agree_off WSEQ_KEY (foldl apply_event (contents (st_db s)) evs) (contents (st_db s'))"
proof -
  from redb_laws.writer_loop_outcome [OF assms(1,2), of "contents (st_db s)"] assms(3,4)
  have out: "agree_off WSEQ_KEY (fst (serial write_spec (contents (st_db s)) queue)) (contents (st_db s'))"
    "map is_ok acks = snd (serial write_spec (contents (st_db s)) queue)"
    "repl' = foldl (publish_result job_puts) repl (zip queue acks)"
    by (simp_all add: group_outcome_def)
  from published_events [OF assms(5,3) out(2)] out show ?thesis by auto
qed

theorem published_log_replays_witness:
  "\<exists>s' repl' evs. writer_loop ref_redb (\<lambda>_. []) (\<lambda>n. 1) 0 None ex_queue (ref_storage [] 0) ex_repl
      = (s', repl', ex_acks)
    \<and> rp_sent repl' = evs \<and> agree_off WSEQ_KEY (foldl apply_event Map.empty evs) (map_of (st_db s'))"
proof -
  let ?run = "writer_loop ref_redb (\<lambda>_. []) (\<lambda>n. 1) 0 None ex_queue (ref_storage [] 0) ex_repl"
  have run: "?run = (fst ?run, fst (snd ?run), ex_acks)"
    using ex_writer_run by (metis prod.collapse)
  have "rp_sent ex_repl = []" "map_of (st_db (ref_storage [] 0)) = Map.empty"
    by (simp_all add: ex_repl_def ref_storage_def)
  with published_log_replays [OF ref.redb_laws_axioms run ex_queue_ok] run show ?thesis
    by auto
qed

end
