(* ===== verification/Replica_Sync.thy ===== *)
theory Replica_Sync
  imports Errors "HOL-Library.AList"
begin

section \<open>Replica progress and the commit barrier\<close>

text \<open>
  \<open>crates/elyra-storage/src/db.rs\<close>: the table of attached replicas, what was sent to and
  acknowledged by each, and \<open>await_sync\<close>, the wait of a commit for its quorum. The hash map
  is an association list; what happens while the barrier sleeps is the list of the table's
  states at its wake-ups.
\<close>

record ReplicaProgress =
  pr_sent :: u64
  pr_acknowledged :: u64

record replicas =
  rt_next :: u64
  rt_table :: "(u64 \<times> ReplicaProgress) list"

definition register_replica :: "replicas \<Rightarrow> replicas \<times> u64" where
  "register_replica t =
     (let rid = rt_next t in
      (t\<lparr>rt_next := rid + 1,
         rt_table := AList.update rid \<lparr>pr_sent = 0, pr_acknowledged = 0\<rparr> (rt_table t)\<rparr>, rid))"

definition unregister_replica :: "u64 \<Rightarrow> replicas \<Rightarrow> replicas" where
  "unregister_replica rid t = t\<lparr>rt_table := AList.delete rid (rt_table t)\<rparr>"

definition report_sent :: "u64 \<Rightarrow> u64 \<Rightarrow> replicas \<Rightarrow> replicas" where
  "report_sent rid lsn t =
     t\<lparr>rt_table := AList.map_entry rid (\<lambda>p. p\<lparr>pr_sent := max (pr_sent p) lsn\<rparr>) (rt_table t)\<rparr>"

definition report_ack :: "u64 \<Rightarrow> u64 \<Rightarrow> replicas \<Rightarrow> replicas" where
  "report_ack rid lsn t =
     t\<lparr>rt_table := AList.map_entry rid
        (\<lambda>p. if lsn \<le> pr_sent p \<and> lsn > pr_acknowledged p then p\<lparr>pr_acknowledged := lsn\<rparr> else p)
        (rt_table t)\<rparr>"

definition acked_count :: "replicas \<Rightarrow> u64 \<Rightarrow> nat" where
  "acked_count t target = length (filter (\<lambda>p. pr_acknowledged p \<ge> target) (map snd (rt_table t)))"

record sync_policy =
  sp_required :: u64
  sp_timeout_ms :: u64
  sp_strict :: bool

definition set_sync_policy :: "u64 \<Rightarrow> u64 \<Rightarrow> bool \<Rightarrow> sync_policy" where
  "set_sync_policy required timeout_ms strict =
     \<lparr>sp_required = required, sp_timeout_ms = timeout_ms, sp_strict = strict\<rparr>"

definition set_sync_timeout_ms :: "u64 \<Rightarrow> sync_policy" where
  "set_sync_timeout_ms ms = set_sync_policy (if ms = 0 then 0 else 1) ms False"

text \<open>
  A wake-up of the barrier: a notification, or the deadline. The list holds the table as the
  loop finds it; \<open>None\<close> is a barrier that is still waiting when the list ends.
\<close>

datatype wake = Notified replicas | TimedOut replicas

definition sync_timeout :: Error where
  "sync_timeout = Storage ''sync replication timeout: commit not confirmed by quorum''"

fun await_loop ::
  "nat \<Rightarrow> bool \<Rightarrow> bool \<Rightarrow> u64 \<Rightarrow> replicas \<Rightarrow> wake list \<Rightarrow> (Error + unit) option" where
  "await_loop required strict deadline target t wakes =
     (if acked_count t target \<ge> required then Some (Inr ())
      else case wakes of
        [] \<Rightarrow> None
      | Notified t' # ws \<Rightarrow> await_loop required strict deadline target t' ws
      | TimedOut t' # ws \<Rightarrow>
          if deadline then
            (if acked_count t' target \<ge> required then Some (Inr ())
             else if strict then Some (Inl sync_timeout)
             else Some (Inr ()))
          else await_loop required strict deadline target t' ws)"

declare await_loop.simps [simp del]

definition await_sync ::
  "sync_policy \<Rightarrow> bool \<Rightarrow> u64 \<Rightarrow> replicas \<Rightarrow> wake list \<Rightarrow> (Error + unit) option" where
  "await_sync policy has_replicas lsn t wakes =
     (let required = unat (sp_required policy) in
      if required = 0 then Some (Inr ())
      else if \<not> sp_strict policy \<and> \<not> has_replicas then Some (Inr ())
      else await_loop required (sp_strict policy) (sp_timeout_ms policy \<noteq> 0) lsn t wakes)"

subsection \<open>Reachable tables\<close>

inductive replicas_step :: "replicas \<Rightarrow> replicas \<Rightarrow> bool" where
  "register_replica t = (t', rid) \<Longrightarrow> replicas_step t t'"
| "replicas_step t (unregister_replica rid t)"
| "replicas_step t (report_sent rid lsn t)"
| "replicas_step t (report_ack rid lsn t)"

definition no_replicas :: replicas where
  "no_replicas = \<lparr>rt_next = 0, rt_table = []\<rparr>"

definition replicas_inv :: "replicas \<Rightarrow> bool" where
  "replicas_inv t \<longleftrightarrow> distinct (map fst (rt_table t))
     \<and> (\<forall>e \<in> set (rt_table t). pr_acknowledged (snd e) \<le> pr_sent (snd e))"

lemma map_entry_all:
  "\<forall>e \<in> set al. P (snd e) \<Longrightarrow> (\<And>p. P p \<Longrightarrow> P (f p)) \<Longrightarrow> \<forall>e \<in> set (AList.map_entry k f al). P (snd e)"
  by (induction al) auto

lemma update_all:
  "\<forall>e \<in> set al. P (snd e) \<Longrightarrow> P v \<Longrightarrow> \<forall>e \<in> set (AList.update k v al). P (snd e)"
  by (induction al) auto

lemma replicas_step_inv: "replicas_step t t' \<Longrightarrow> replicas_inv t \<Longrightarrow> replicas_inv t'"
proof (induction rule: replicas_step.induct)
  case (1 t t' rid)
  then have "rt_table t' = AList.update rid \<lparr>pr_sent = 0, pr_acknowledged = 0\<rparr> (rt_table t)"
    by (auto simp: register_replica_def Let_def)
  with 1 show ?case
    using update_all [of "rt_table t" "\<lambda>p. pr_acknowledged p \<le> pr_sent p"
        "\<lparr>pr_sent = 0, pr_acknowledged = 0\<rparr>" rid]
    by (simp add: replicas_inv_def distinct_update)
next
  case (2 t rid)
  then show ?case
    by (simp add: unregister_replica_def replicas_inv_def AList.delete_eq distinct_map_filter)
next
  case (3 t rid lsn)
  then show ?case
    using map_entry_all [of "rt_table t" "\<lambda>p. pr_acknowledged p \<le> pr_sent p"
        "\<lambda>p. p\<lparr>pr_sent := max (pr_sent p) lsn\<rparr>" rid]
    by (simp add: report_sent_def replicas_inv_def distinct_map_entry le_max_iff_disj)
next
  case (4 t rid lsn)
  then show ?case
    using map_entry_all [of "rt_table t" "\<lambda>p. pr_acknowledged p \<le> pr_sent p"
        "\<lambda>p. if lsn \<le> pr_sent p \<and> lsn > pr_acknowledged p then p\<lparr>pr_acknowledged := lsn\<rparr> else p" rid]
    by (simp add: report_ack_def replicas_inv_def distinct_map_entry)
qed

lemma replicas_reach_inv: "replicas_step\<^sup>*\<^sup>* no_replicas t \<Longrightarrow> replicas_inv t"
proof (induction rule: rtranclp_induct)
  case base
  then show ?case by (simp add: replicas_inv_def no_replicas_def)
qed (rule replicas_step_inv)

text \<open>A strict barrier answers only when the quorum is there, or with the timeout.\<close>

lemma await_loop_strict:
  "await_loop required True deadline target t wakes = Some r \<Longrightarrow>
     (\<exists>t' \<in> set (t # map (\<lambda>w. case w of Notified t \<Rightarrow> t | TimedOut t \<Rightarrow> t) wakes).
        r = Inr () \<and> acked_count t' target \<ge> required) \<or> r = Inl sync_timeout \<and> deadline"
proof (induction wakes arbitrary: t)
  case Nil
  then show ?case by (subst (asm) await_loop.simps) (auto split: if_splits)
next
  case (Cons w ws)
  note run = Cons.prems [unfolded await_loop.simps [of required True deadline target t]]
  show ?case
  proof (cases "acked_count t target \<ge> required")
    case True
    with run show ?thesis by simp
  next
    case False
    show ?thesis
    proof (cases w)
      case (Notified t')
      with False run Cons.IH [of t'] show ?thesis by auto
    next
      case (TimedOut t')
      with False run Cons.IH [of t'] show ?thesis by (auto split: if_splits)
    qed
  qed
qed

lemma entries_with:
  "{k. \<exists>p. (k, p) \<in> set al \<and> Q p} = fst ` {e \<in> set al. Q (snd e)}"
  by force

lemma count_entries:
  assumes "distinct (map fst al)"
  shows "length (filter Q (map snd al)) = card (fst ` {e \<in> set al. Q (snd e)})"
proof -
  have "card (set (map fst (filter (\<lambda>e. Q (snd e)) al))) = length (map fst (filter (\<lambda>e. Q (snd e)) al))"
    by (rule distinct_card) (rule distinct_map_filter [OF assms])
  then show ?thesis by (simp add: filter_map comp_def)
qed

lemma acked_count_card:
  assumes "distinct (map fst (rt_table t))"
  shows "acked_count t target = card {rid. \<exists>p. map_of (rt_table t) rid = Some p \<and> target \<le> pr_acknowledged p}"
  unfolding map_of_eq_Some_iff [OF assms] entries_with acked_count_def by (rule count_entries [OF assms])

text \<open>
  C10. Strict synchronous replication is honest. Start from an empty table and let replicas
  register, disconnect and report in any order. If a strict barrier with a quorum of at least
  one returns success for an LSN, then in one of the tables it looked at there were at least
  \<open>required\<close> different replicas that had acknowledged that LSN, and each of them had been
  sent it: no acknowledgement from the future counts. The only other answer is the timeout
  error, and that only with a deadline set.
\<close>

theorem strict_sync_quorum:
  assumes "\<forall>t' \<in> set (t # map (\<lambda>w. case w of Notified t \<Rightarrow> t | TimedOut t \<Rightarrow> t) wakes).
      replicas_step\<^sup>*\<^sup>* no_replicas t'"
    and "sp_strict policy" and "sp_required policy \<noteq> 0"
    and "await_sync policy has_replicas lsn t wakes = Some r"
  shows "r = Inl sync_timeout \<and> sp_timeout_ms policy \<noteq> 0
    \<or> r = Inr () \<and> (\<exists>t' \<in> set (t # map (\<lambda>w. case w of Notified t \<Rightarrow> t | TimedOut t \<Rightarrow> t) wakes).
        unat (sp_required policy)
          \<le> card {rid. \<exists>p. map_of (rt_table t') rid = Some p \<and> lsn \<le> pr_acknowledged p
                 \<and> pr_acknowledged p \<le> pr_sent p})"
proof -
  have "await_loop (unat (sp_required policy)) True (sp_timeout_ms policy \<noteq> 0) lsn t wakes = Some r"
    using assms(2-4) by (simp add: await_sync_def Let_def unat_eq_zero)
  from await_loop_strict [OF this] show ?thesis
  proof (elim disjE bexE conjE)
    fix t' assume t': "t' \<in> set (t # map (\<lambda>w. case w of Notified t \<Rightarrow> t | TimedOut t \<Rightarrow> t) wakes)"
      and "r = Inr ()" and quorum: "unat (sp_required policy) \<le> acked_count t' lsn"
    have tinv: "replicas_inv t'" using replicas_reach_inv assms(1) t' by blast
    then have "{rid. \<exists>p. map_of (rt_table t') rid = Some p \<and> lsn \<le> pr_acknowledged p}
      = {rid. \<exists>p. map_of (rt_table t') rid = Some p \<and> lsn \<le> pr_acknowledged p \<and> pr_acknowledged p \<le> pr_sent p}"
      unfolding replicas_inv_def by (fastforce dest: map_of_SomeD)
    with quorum acked_count_card [of t' lsn] tinv
    have "unat (sp_required policy) \<le> card {rid. \<exists>p. map_of (rt_table t') rid = Some p
        \<and> lsn \<le> pr_acknowledged p \<and> pr_acknowledged p \<le> pr_sent p}"
      unfolding replicas_inv_def by simp
    with t' \<open>r = Inr ()\<close> show ?thesis by blast
  qed auto
qed

definition ex_table :: replicas where
  "ex_table = report_ack 0 5 (report_sent 0 5 (fst (register_replica no_replicas)))"

lemma ex_table_reachable: "replicas_step\<^sup>*\<^sup>* no_replicas ex_table"
proof -
  have "replicas_step no_replicas (fst (register_replica no_replicas))"
    by (rule replicas_step.intros(1)) (rule prod.collapse [symmetric])
  then show ?thesis
    unfolding ex_table_def
    by (meson replicas_step.intros(3,4) rtranclp.rtrancl_into_rtrancl r_into_rtranclp)
qed

theorem strict_sync_quorum_witness:
  "await_sync (set_sync_policy 1 0 True) True 5 no_replicas [Notified ex_table] = Some (Inr ())
    \<and> (\<exists>t' \<in> {no_replicas, ex_table}. 1 \<le> card {rid. \<exists>p. map_of (rt_table t') rid = Some p
          \<and> 5 \<le> pr_acknowledged p \<and> pr_acknowledged p \<le> pr_sent p})"
proof -
  have run: "await_sync (set_sync_policy 1 0 True) True 5 no_replicas [Notified ex_table] = Some (Inr ())"
    by code_simp
  have "\<forall>t' \<in> set (no_replicas # map (\<lambda>w. case w of Notified t \<Rightarrow> t | TimedOut t \<Rightarrow> t) [Notified ex_table]).
      replicas_step\<^sup>*\<^sup>* no_replicas t'"
    using ex_table_reachable by simp
  from strict_sync_quorum [OF this _ _ run] run show ?thesis
    by (simp add: set_sync_policy_def)
qed

end
