(* ===== verification/Session_Txn.thy ===== *)
theory Session_Txn
  imports Storage_Scans Group_Commit
begin

section \<open>Transactions of a session\<close>

text \<open>
  \<open>crates/elyra-engine/src/session.rs\<close>: a transaction reads from a snapshot with its own
  buffered writes laid over it, keeps an undo log for savepoints, and commits by handing the
  storage engine its writes together with what must not have changed. The maps and sets are
  \<open>BTreeMap\<close>s and \<open>BTreeSet\<close>s, so they are kept as sorted sequences. Sizes are \<open>usize\<close>
  values kept as naturals; that no subtraction underflows is part of the invariant
  \<open>txn_inv\<close>.
\<close>

subsection \<open>State\<close>

datatype Isolation = Snapshot | Serializable

record UndoEntry =
  ue_key :: bytes
  ue_prev_put :: "bytes option"
  ue_prev_deleted :: bool

record Savepoint =
  sv_name :: string
  sv_undo_mark :: nat
  sv_ranges_len :: nat

record TransactionCheckpoint =
  cp_undo_mark :: nat
  cp_ranges_len :: nat
  cp_savepoints_len :: nat

record 'tx TxnState =
  tx_snapshot :: 'tx
  tx_read_only :: bool
  tx_puts :: "kv list"
  tx_deletes :: "bytes list"
  tx_serializable :: bool
  tx_reads :: "bytes list"
  tx_ranges :: "(bytes \<times> bytes option) list"
  tx_locked :: "bytes list"
  tx_savepoints :: "Savepoint list"
  tx_checkpoints :: nat
  tx_undo :: "UndoEntry list"
  tx_undo_mem :: nat
  tx_mem :: nat

record 'tx Session =
  se_txn :: "'tx TxnState option"
  se_isolation :: Isolation
  se_session_read_only :: bool
  se_next_read_only :: "bool option"
  se_autocommit :: bool
  se_catalog_epoch :: nat

definition is_meta :: "bytes \<Rightarrow> bool" where
  "is_meta k = starts_with k (ascii ''meta::'')"

definition undo_entry_size :: "UndoEntry \<Rightarrow> nat" where
  "undo_entry_size e = length (ue_key e) + (case ue_prev_put e of None \<Rightarrow> 0 | Some v \<Rightarrow> length v) + 1"

subsection \<open>Rolling back\<close>

text \<open>One turn of the loop of \<open>rollback_tx_to\<close>: the newest undo entry is taken back.\<close>

definition undo_pop :: "'tx TxnState \<Rightarrow> 'tx TxnState" where
  "undo_pop tx =
     (let entry = last (tx_undo tx);
          key = ue_key entry;
          mem1 = (case map_of (tx_puts tx) key of
                    Some value \<Rightarrow> tx_mem tx - (length key + length value) | None \<Rightarrow> tx_mem tx);
          mem2 = (if key \<in> set (tx_deletes tx) then mem1 - length key else mem1);
          (mem3, puts) = (case ue_prev_put entry of
                    Some value \<Rightarrow> (mem2 + (length key + length value), bt_insert key value (tx_puts tx))
                  | None \<Rightarrow> (mem2, bt_remove key (tx_puts tx)));
          (mem4, deletes) = (if ue_prev_deleted entry
                  then (mem3 + length key, bs_insert key (tx_deletes tx))
                  else (mem3, bs_remove key (tx_deletes tx)))
      in tx\<lparr>tx_undo := butlast (tx_undo tx), tx_undo_mem := tx_undo_mem tx - undo_entry_size entry,
            tx_puts := puts, tx_deletes := deletes, tx_mem := mem4\<rparr>)"

lemma length_undo_pop [simp]: "length (tx_undo (undo_pop tx)) = length (tx_undo tx) - 1"
  by (simp add: undo_pop_def Let_def split: option.split)

function undo_loop :: "nat \<Rightarrow> 'tx TxnState \<Rightarrow> 'tx TxnState" where
  "undo_loop mark tx = (if length (tx_undo tx) > mark then undo_loop mark (undo_pop tx) else tx)"
  by pat_completeness auto
termination
  by (relation "measure (\<lambda>(mark, tx). length (tx_undo tx))") auto

declare undo_loop.simps [simp del]

definition rollback_tx_to :: "nat \<Rightarrow> nat \<Rightarrow> 'tx TxnState \<Rightarrow> 'tx TxnState" where
  "rollback_tx_to undo_mark ranges_len tx =
     (let tx' = undo_loop undo_mark tx in tx'\<lparr>tx_ranges := take ranges_len (tx_ranges tx')\<rparr>)"

subsection \<open>Savepoints and checkpoints\<close>

definition savepoint :: "string \<Rightarrow> 'tx TxnState \<Rightarrow> 'tx TxnState" where
  "savepoint name tx =
     tx\<lparr>tx_savepoints := filter (\<lambda>s. sv_name s \<noteq> name) (tx_savepoints tx) @
        [\<lparr>sv_name = name, sv_undo_mark = length (tx_undo tx), sv_ranges_len = length (tx_ranges tx)\<rparr>]\<rparr>"

fun position :: "('a \<Rightarrow> bool) \<Rightarrow> 'a list \<Rightarrow> nat option" where
  "position P [] = None"
| "position P (x # xs) = (if P x then Some 0 else map_option Suc (position P xs))"

definition no_such_savepoint :: "string \<Rightarrow> Error" where
  "no_such_savepoint name = Query (''no such savepoint: '' @ name)"

definition rollback_to :: "string \<Rightarrow> 'tx TxnState \<Rightarrow> 'tx TxnState \<times> (Error + unit)" where
  "rollback_to name tx =
     (case position (\<lambda>s. sv_name s = name) (tx_savepoints tx) of
        None \<Rightarrow> (tx, Inl (no_such_savepoint name))
      | Some pos \<Rightarrow>
          (let s = tx_savepoints tx ! pos;
               tx' = rollback_tx_to (sv_undo_mark s) (sv_ranges_len s) tx
           in (tx'\<lparr>tx_savepoints := take (pos + 1) (tx_savepoints tx')\<rparr>, Inr ())))"

definition drop_idle_undo :: "'tx TxnState \<Rightarrow> 'tx TxnState" where
  "drop_idle_undo tx =
     (if tx_savepoints tx = [] \<and> tx_checkpoints tx = 0
      then tx\<lparr>tx_undo := [], tx_undo_mem := 0\<rparr> else tx)"

definition release_savepoint :: "string \<Rightarrow> 'tx TxnState \<Rightarrow> 'tx TxnState \<times> (Error + unit)" where
  "release_savepoint name tx =
     (case position (\<lambda>s. sv_name s = name) (tx_savepoints tx) of
        None \<Rightarrow> (tx, Inl (no_such_savepoint name))
      | Some pos \<Rightarrow> (drop_idle_undo (tx\<lparr>tx_savepoints := take pos (tx_savepoints tx)\<rparr>), Inr ()))"

definition transaction_checkpoint :: "'tx TxnState \<Rightarrow> 'tx TxnState \<times> TransactionCheckpoint" where
  "transaction_checkpoint tx =
     (tx\<lparr>tx_checkpoints := tx_checkpoints tx + 1\<rparr>,
      \<lparr>cp_undo_mark = length (tx_undo tx), cp_ranges_len = length (tx_ranges tx),
       cp_savepoints_len = length (tx_savepoints tx)\<rparr>)"

definition no_active_checkpoint :: Error where
  "no_active_checkpoint = Query ''no active transaction checkpoint''"

definition release_transaction_checkpoint :: "'tx TxnState \<Rightarrow> 'tx TxnState \<times> (Error + unit)" where
  "release_transaction_checkpoint tx =
     (if tx_checkpoints tx = 0 then (tx, Inl no_active_checkpoint)
      else (drop_idle_undo (tx\<lparr>tx_checkpoints := tx_checkpoints tx - 1\<rparr>), Inr ()))"

definition rollback_transaction_checkpoint ::
  "TransactionCheckpoint \<Rightarrow> 'tx TxnState \<Rightarrow> 'tx TxnState \<times> (Error + unit)" where
  "rollback_transaction_checkpoint c tx =
     (if tx_checkpoints tx = 0 then (tx, Inl no_active_checkpoint)
      else
        let tx1 = rollback_tx_to (cp_undo_mark c) (cp_ranges_len c)
                    (tx\<lparr>tx_checkpoints := tx_checkpoints tx - 1\<rparr>)
        in (drop_idle_undo (tx1\<lparr>tx_savepoints := take (cp_savepoints_len c) (tx_savepoints tx1)\<rparr>), Inr ()))"

definition require_serializable_validation :: "'tx TxnState \<Rightarrow> 'tx TxnState" where
  "require_serializable_validation tx = tx\<lparr>tx_serializable := True\<rparr>"

definition lock_keys :: "bytes list \<Rightarrow> 'tx TxnState \<Rightarrow> 'tx TxnState" where
  "lock_keys keys tx = tx\<lparr>tx_locked := foldl (\<lambda>s k. bs_insert k s) (tx_locked tx) keys\<rparr>"

subsection \<open>Buffered writes\<close>

definition txn_overflow :: "nat \<Rightarrow> Error" where
  "txn_overflow budget =
     Query (''transaction write buffer exceeded '' @ show_nat budget @
       '' bytes; COMMIT or ROLLBACK (raise ELYRASQL_TXN_MAX_BYTES to allow larger transactions)'')"

definition log_undo :: "nat \<Rightarrow> bool \<Rightarrow> bytes \<Rightarrow> 'tx TxnState \<Rightarrow> 'tx TxnState \<times> bool" where
  "log_undo budget logging k tx =
     (if logging then
        let entry = \<lparr>ue_key = k, ue_prev_put = map_of (tx_puts tx) k,
                     ue_prev_deleted = (k \<in> set (tx_deletes tx))\<rparr>;
            n = undo_entry_size entry
        in if tx_mem tx + tx_undo_mem tx + n > budget then (tx, False)
           else (tx\<lparr>tx_undo_mem := tx_undo_mem tx + n, tx_undo := tx_undo tx @ [entry]\<rparr>, True)
      else (tx, True))"

definition stage_delete :: "bytes \<Rightarrow> 'tx TxnState \<Rightarrow> 'tx TxnState" where
  "stage_delete k tx =
     (let mem1 = (case map_of (tx_puts tx) k of
                    Some old \<Rightarrow> tx_mem tx - (length k + length old) | None \<Rightarrow> tx_mem tx);
          mem2 = (if k \<in> set (tx_deletes tx) then mem1 else mem1 + length k)
      in tx\<lparr>tx_puts := bt_remove k (tx_puts tx), tx_deletes := bs_insert k (tx_deletes tx),
            tx_mem := mem2\<rparr>)"

definition stage_put :: "bytes \<Rightarrow> bytes \<Rightarrow> 'tx TxnState \<Rightarrow> 'tx TxnState" where
  "stage_put k v tx =
     (let mem1 = (case map_of (tx_puts tx) k of
                    Some old \<Rightarrow> tx_mem tx - (length k + length old) | None \<Rightarrow> tx_mem tx);
          mem2 = (if k \<in> set (tx_deletes tx) then mem1 - length k else mem1)
      in tx\<lparr>tx_deletes := bs_remove k (tx_deletes tx), tx_puts := bt_insert k v (tx_puts tx),
            tx_mem := mem2 + (length k + length v)\<rparr>)"

text \<open>
  The loops over the deletes and then over the puts: an entry is logged, staged, and the
  budget checked. The state is kept when the budget is exceeded, as it is in the code.
\<close>

fun stage_all ::
  "nat \<Rightarrow> bool \<Rightarrow> (bytes \<times> ('tx TxnState \<Rightarrow> 'tx TxnState)) list \<Rightarrow> 'tx TxnState
     \<Rightarrow> 'tx TxnState \<times> (Error + unit)" where
  "stage_all budget logging [] tx = (tx, Inr ())"
| "stage_all budget logging ((k, stage) # rest) tx =
     (let (tx1, ok) = log_undo budget logging k tx in
      if \<not> ok then (tx1, Inl (txn_overflow budget))
      else
        let tx2 = stage tx1 in
        if tx_mem tx2 + tx_undo_mem tx2 > budget then (tx2, Inl (txn_overflow budget))
        else stage_all budget logging rest tx2)"

definition stage_write :: "nat \<Rightarrow> kv list \<Rightarrow> bytes list \<Rightarrow> 'tx TxnState \<Rightarrow> 'tx TxnState \<times> (Error + unit)" where
  "stage_write budget puts deletes tx =
     (let logging = (tx_savepoints tx \<noteq> [] \<or> tx_checkpoints tx > 0) in
      stage_all budget logging
        (map (\<lambda>k. (k, stage_delete k)) deletes @ map (\<lambda>e. (fst e, stage_put (fst e) (snd e))) puts) tx)"

definition changes_catalog :: "bytes list \<Rightarrow> bool" where
  "changes_catalog ks \<longleftrightarrow>
     (\<exists>k \<in> set ks. starts_with k (ascii ''catalog::'') \<or> starts_with k (ascii ''sys::trigger::''))"

text \<open>\<open>commit_write\<close>: buffered in a transaction, otherwise committed; \<open>commit\<close> is \<open>Db::commit\<close>.\<close>

definition bump_epoch :: "bool \<Rightarrow> 'tx Session \<Rightarrow> 'tx Session" where
  "bump_epoch b se = (if b then se\<lparr>se_catalog_epoch := se_catalog_epoch se + 1\<rparr> else se)"

definition commit_write ::
  "nat \<Rightarrow> (kv list \<Rightarrow> bytes list \<Rightarrow> 'w \<Rightarrow> 'w \<times> (Error + unit)) \<Rightarrow> kv list \<Rightarrow> bytes list
     \<Rightarrow> 'tx Session \<Rightarrow> 'w \<Rightarrow> 'tx Session \<times> 'w \<times> (Error + unit)" where
  "commit_write budget commit puts deletes se w =
     (let catalog_changed = changes_catalog (map fst puts @ deletes);
          se1 = bump_epoch catalog_changed se
      in case se_txn se1 of
           Some tx \<Rightarrow>
             (let (tx', r) = stage_write budget puts deletes tx in (se1\<lparr>se_txn := Some tx'\<rparr>, w, r))
         | None \<Rightarrow>
             (let (w', r) = commit puts deletes w
              in (bump_epoch (is_ok r \<and> catalog_changed) se1, w', r)))"

subsection \<open>Reads\<close>

definition note_read :: "bytes \<Rightarrow> 'tx TxnState \<Rightarrow> 'tx TxnState" where
  "note_read key tx =
     (if tx_serializable tx \<and> \<not> is_meta key then tx\<lparr>tx_reads := bs_insert key (tx_reads tx)\<rparr> else tx)"

definition txn_get :: "('db, 'tx) redb \<Rightarrow> bytes \<Rightarrow> 'tx TxnState \<Rightarrow> 'tx TxnState \<times> (Error + bytes option)" where
  "txn_get R key tx =
     (let tx1 = note_read key tx in
      (tx1,
       if key \<in> set (tx_deletes tx) then Inr None
       else case map_of (tx_puts tx) key of
              Some v \<Rightarrow> Inr (Some v)
            | None \<Rightarrow> snapshot_get R (tx_snapshot tx) key))"

text \<open>
  \<open>multi_get\<close> answers from the overlay where it can and collects the indices and keys of the
  misses, which are then fetched from the snapshot and written into their places.
\<close>

fun resolve :: "'tx TxnState \<Rightarrow> nat \<Rightarrow> bytes list \<Rightarrow> bytes option list \<times> (nat \<times> bytes) list" where
  "resolve tx i [] = ([], [])"
| "resolve tx i (k # ks) =
     (let (result, misses) = resolve tx (i + 1) ks in
      if k \<in> set (tx_deletes tx) then (None # result, misses)
      else case map_of (tx_puts tx) k of
             Some v \<Rightarrow> (Some v # result, misses)
           | None \<Rightarrow> (None # result, (i, k) # misses))"

definition txn_multi_get ::
  "('db, 'tx) redb \<Rightarrow> bytes list \<Rightarrow> 'tx TxnState \<Rightarrow> 'tx TxnState \<times> (Error + bytes option list)" where
  "txn_multi_get R keys tx =
     (let tx1 = foldl (\<lambda>tx k. note_read k tx) tx keys;
          (result, misses) = resolve tx 0 keys
      in (tx1, bindE (snapshot_multi_get R (tx_snapshot tx) (map snd misses)) (\<lambda>fetched.
           Inr (foldl (\<lambda>r ((i, _), v). r[i := v]) result (zip misses fetched)))))"

text \<open>
  \<open>scan_range\<close>: the staged entries of the range, from a range iteration that stops at the
  first key outside, are merged into a window of the snapshot.
\<close>

definition overlay_range :: "bytes \<Rightarrow> bytes option \<Rightarrow> ('k \<Rightarrow> bytes) \<Rightarrow> 'k list \<Rightarrow> 'k list" where
  "overlay_range start end key es =
     takeWhile (\<lambda>e. in_range start end (key e)) (dropWhile (\<lambda>e. key e < start) es)"

definition overlay_entries :: "bytes \<Rightarrow> bytes option \<Rightarrow> 'tx TxnState \<Rightarrow> (bytes \<times> bytes option) list" where
  "overlay_entries start end tx =
     map (\<lambda>e. (fst e, Some (snd e))) (overlay_range start end fst (tx_puts tx)) @
     map (\<lambda>k. (k, None)) (overlay_range start end id (tx_deletes tx))"

definition merge :: "kv list \<Rightarrow> (bytes \<times> bytes option) list \<Rightarrow> nat \<Rightarrow> kv list" where
  "merge committed overlay limit =
     take limit (foldl (\<lambda>m (k, v). case v of Some val \<Rightarrow> bt_insert k val m | None \<Rightarrow> bt_remove k m)
       (foldl (\<lambda>m (k, v). bt_insert k v m) [] committed) overlay)"

definition txn_scan_range ::
  "('db, 'tx) redb \<Rightarrow> bytes \<Rightarrow> bytes option \<Rightarrow> nat \<Rightarrow> 'tx TxnState \<Rightarrow> 'tx TxnState \<times> (Error + kv list)" where
  "txn_scan_range R start end limit tx =
     (let tx1 = (if tx_serializable tx \<and> \<not> is_meta start
                 then tx\<lparr>tx_ranges := tx_ranges tx @ [(start, end)]\<rparr> else tx)
      in (tx1, bindE (snapshot_scan_range R (tx_snapshot tx) start end limit) (\<lambda>committed.
           Inr (merge committed (overlay_entries start end tx) limit))))"

fun session_upper_bound_rev :: "bytes \<Rightarrow> bytes" where
  "session_upper_bound_rev [] = []"
| "session_upper_bound_rev (b # u) =
     (if b < 0xFF then rev ((b + 1) # u) else session_upper_bound_rev u)"

definition session_upper_bound :: "bytes \<Rightarrow> bytes" where
  "session_upper_bound prefix = session_upper_bound_rev (rev prefix)"

definition txn_scan_batch ::
  "('db, 'tx) redb \<Rightarrow> bytes \<Rightarrow> bytes option \<Rightarrow> nat \<Rightarrow> 'tx TxnState \<Rightarrow> 'tx TxnState \<times> (Error + kv list)" where
  "txn_scan_batch R prefix after limit tx =
     txn_scan_range R (batch_lower prefix after) (Some (session_upper_bound prefix)) limit tx"

subsection \<open>Beginning and committing\<close>

definition begin_with_access ::
  "('db, 'tx) redb \<Rightarrow> bool option \<Rightarrow> 'db storage \<Rightarrow> 'tx Session \<Rightarrow> 'tx Session \<times> (Error + unit)" where
  "begin_with_access R read_only s se =
     (let pending = se_next_read_only se;
          se1 = se\<lparr>se_next_read_only := None\<rparr>;
          ro = (case read_only of Some b \<Rightarrow> b | None \<Rightarrow>
                 (case pending of Some b \<Rightarrow> b | None \<Rightarrow> se_session_read_only se))
      in case storage_snapshot R s of
           Inl e \<Rightarrow> (se1, Inl e)
         | Inr snapshot \<Rightarrow>
             (se1\<lparr>se_txn := Some
               \<lparr>tx_snapshot = snapshot, tx_read_only = ro, tx_puts = [], tx_deletes = [],
                tx_serializable = (se_isolation se = Serializable), tx_reads = [], tx_ranges = [],
                tx_locked = [], tx_savepoints = [], tx_checkpoints = 0, tx_undo = [],
                tx_undo_mem = 0, tx_mem = 0\<rparr>\<rparr>, Inr ()))"

text \<open>
  \<open>coalesce_ranges\<close> sorts the ranges by their start and joins those that overlap or touch.
  (The sort of the code is unstable; among ranges with one start the model keeps the order.)
\<close>

definition coalesce_step :: "(bytes \<times> bytes option) list \<Rightarrow> bytes \<times> bytes option \<Rightarrow> (bytes \<times> bytes option) list" where
  "coalesce_step merged rng =
     (if merged = [] then [rng]
      else
        let (pstart, previous_end) = last merged;
            (start, end) = rng;
            overlaps = (case previous_end of None \<Rightarrow> True | Some p \<Rightarrow> start \<le> p)
        in if \<not> overlaps then merged @ [rng]
           else butlast merged @
             [(pstart, case (previous_end, end) of
                (None, _) \<Rightarrow> None
              | (_, None) \<Rightarrow> None
              | (Some previous, Some candidate) \<Rightarrow>
                  if candidate > previous then Some candidate else Some previous)])"

definition coalesce_ranges :: "(bytes \<times> bytes option) list \<Rightarrow> (bytes \<times> bytes option) list" where
  "coalesce_ranges ranges = foldl coalesce_step [] (sort_key fst ranges)"

definition range_covers :: "bool \<Rightarrow> (bytes \<times> bytes option) list \<Rightarrow> bytes \<Rightarrow> bool" where
  "range_covers serializable ranges key \<longleftrightarrow>
     serializable \<and> (\<exists>(start, end) \<in> set ranges. in_range start end key)"

text \<open>The keys to validate: written keys, locked keys, and with serializable also read keys.\<close>

definition commit_keys :: "'tx TxnState \<Rightarrow> (bytes \<times> bytes option) list \<Rightarrow> bytes list" where
  "commit_keys tx ranges =
     (let written = filter (\<lambda>k. \<not> is_meta k \<and> \<not> range_covers (tx_serializable tx) ranges k);
          extend = foldl (\<lambda>s k. bs_insert k s);
          s1 = extend [] (written (map fst (tx_puts tx)));
          s2 = extend s1 (written (tx_deletes tx));
          s3 = extend s2 (tx_locked tx)
      in if tx_serializable tx then extend s3 (filter (\<lambda>k. \<not> is_meta k) (tx_reads tx)) else s3)"

definition USIZE_MAX :: nat where
  "USIZE_MAX = 2 ^ 64 - 1"

definition saturating_succ :: "nat \<Rightarrow> nat" where
  "saturating_succ cap = min (cap + 1) USIZE_MAX"

lemma saturating_succ_code [code]:
  "saturating_succ cap = (if int cap < 18446744073709551615 then Suc cap else USIZE_MAX)"
  by (auto simp: saturating_succ_def USIZE_MAX_def)

definition range_too_large :: "nat \<Rightarrow> Error" where
  "range_too_large cap =
     Query (''SERIALIZABLE commit read a range of over '' @ show_nat cap @
       '' rows; narrow the predicate, raise ELYRASQL_SERIALIZABLE_MAX_RANGE, or use a lower isolation level'')"

fun range_snapshots ::
  "('db, 'tx) redb \<Rightarrow> 'tx \<Rightarrow> nat \<Rightarrow> (bytes \<times> bytes option) list \<Rightarrow> Error + RangeSnapshot list" where
  "range_snapshots R t cap [] = Inr []"
| "range_snapshots R t cap ((start, end) # ranges) =
     bindE (snapshot_scan_range R t start end (saturating_succ cap)) (\<lambda>content.
       if length content > cap then Inl (range_too_large cap)
       else bindE (range_snapshots R t cap ranges) (\<lambda>rest.
         Inr (\<lparr>rs_start = start, rs_end = end, rs_content = content\<rparr> # rest)))"

definition commit_validation :: "('db, 'tx) redb \<Rightarrow> nat \<Rightarrow> 'tx TxnState \<Rightarrow> Error + Validation" where
  "commit_validation R cap tx =
     (let ranges = (if tx_serializable tx then coalesce_ranges (tx_ranges tx) else tx_ranges tx);
          keys = commit_keys tx ranges
      in bindE (snapshot_multi_get R (tx_snapshot tx) keys) (\<lambda>vals.
         bindE (if tx_serializable tx then range_snapshots R (tx_snapshot tx) cap ranges else Inr []) (\<lambda>snaps.
           Inr \<lparr>va_keys = zip keys vals, va_ranges = snaps\<rparr>)))"

text \<open>\<open>commit\<close>: the transaction is over before its outcome is known.\<close>

definition session_commit ::
  "('db, 'tx) redb \<Rightarrow> nat \<Rightarrow> (Validation \<Rightarrow> kv list \<Rightarrow> bytes list \<Rightarrow> 'w \<Rightarrow> 'w \<times> (Error + unit))
     \<Rightarrow> 'tx Session \<Rightarrow> 'w \<Rightarrow> 'tx Session \<times> 'w \<times> (Error + unit)" where
  "session_commit R cap commit_validated se w =
     (let se1 = se\<lparr>se_next_read_only := None, se_txn := None\<rparr> in
      case se_txn se of
        None \<Rightarrow> (se1, w, Inr ())
      | Some tx \<Rightarrow>
          (case commit_validation R cap tx of
             Inl e \<Rightarrow> (se1, w, Inl e)
           | Inr v \<Rightarrow>
               (let (w', r) = commit_validated v (tx_puts tx) (tx_deletes tx) w;
                    catalog_changed = changes_catalog (map fst (tx_puts tx) @ tx_deletes tx)
                in (bump_epoch (is_ok r \<and> catalog_changed) se1, w', r))))"

definition session_rollback :: "'tx Session \<Rightarrow> 'tx Session" where
  "session_rollback se = se\<lparr>se_next_read_only := None, se_txn := None\<rparr>"

subsection \<open>The handlers of the session\<close>

text \<open>
  The operations above act on the open transaction; the methods of \<open>Session\<close> look it up
  first, and report an error or turn to the database when there is none.
\<close>

definition in_transaction ::
  "string \<Rightarrow> ('tx TxnState \<Rightarrow> 'tx TxnState \<times> (Error + 'a)) \<Rightarrow> 'tx Session \<Rightarrow> 'tx Session \<times> (Error + 'a)" where
  "in_transaction what f se =
     (case se_txn se of
        None \<Rightarrow> (se, Inl (Query (what @ '' outside a transaction'')))
      | Some tx \<Rightarrow> (let (tx', r) = f tx in (se\<lparr>se_txn := Some tx'\<rparr>, r)))"

definition in_txn :: "'tx Session \<Rightarrow> bool" where
  "in_txn se \<longleftrightarrow> se_txn se \<noteq> None"

definition session_lock_keys :: "bytes list \<Rightarrow> 'tx Session \<Rightarrow> 'tx Session" where
  "session_lock_keys keys se = se\<lparr>se_txn := map_option (lock_keys keys) (se_txn se)\<rparr>"

definition session_savepoint :: "string \<Rightarrow> 'tx Session \<Rightarrow> 'tx Session \<times> (Error + unit)" where
  "session_savepoint name = in_transaction ''SAVEPOINT'' (\<lambda>tx. (savepoint name tx, Inr ()))"

definition session_rollback_to :: "string \<Rightarrow> 'tx Session \<Rightarrow> 'tx Session \<times> (Error + unit)" where
  "session_rollback_to name = in_transaction ''ROLLBACK TO SAVEPOINT'' (rollback_to name)"

definition session_release_savepoint :: "string \<Rightarrow> 'tx Session \<Rightarrow> 'tx Session \<times> (Error + unit)" where
  "session_release_savepoint name = in_transaction ''RELEASE SAVEPOINT'' (release_savepoint name)"

definition session_checkpoint :: "'tx Session \<Rightarrow> 'tx Session \<times> (Error + TransactionCheckpoint)" where
  "session_checkpoint = in_transaction ''transaction checkpoint''
     (\<lambda>tx. let (tx', c) = transaction_checkpoint tx in (tx', Inr c))"

definition session_require_serializable :: "'tx Session \<Rightarrow> 'tx Session \<times> (Error + unit)" where
  "session_require_serializable = in_transaction ''serializable validation''
     (\<lambda>tx. (require_serializable_validation tx, Inr ()))"

definition session_release_checkpoint :: "'tx Session \<Rightarrow> 'tx Session \<times> (Error + unit)" where
  "session_release_checkpoint = in_transaction ''transaction checkpoint'' release_transaction_checkpoint"

definition session_rollback_checkpoint ::
  "TransactionCheckpoint \<Rightarrow> 'tx Session \<Rightarrow> 'tx Session \<times> (Error + unit)" where
  "session_rollback_checkpoint c = in_transaction ''transaction checkpoint'' (rollback_transaction_checkpoint c)"

definition session_get ::
  "('db, 'tx) redb \<Rightarrow> 'db storage \<Rightarrow> bytes \<Rightarrow> 'tx Session \<Rightarrow> 'tx Session \<times> (Error + bytes option)" where
  "session_get R s key se =
     (case se_txn se of
        None \<Rightarrow> (se, storage_get R s key)
      | Some tx \<Rightarrow> (let (tx', r) = txn_get R key tx in (se\<lparr>se_txn := Some tx'\<rparr>, r)))"

definition session_multi_get ::
  "('db, 'tx) redb \<Rightarrow> 'db storage \<Rightarrow> bytes list \<Rightarrow> 'tx Session \<Rightarrow> 'tx Session \<times> (Error + bytes option list)" where
  "session_multi_get R s keys se =
     (case se_txn se of
        None \<Rightarrow> (se, storage_multi_get R s keys)
      | Some tx \<Rightarrow> (let (tx', r) = txn_multi_get R keys tx in (se\<lparr>se_txn := Some tx'\<rparr>, r)))"

definition session_scan_range ::
  "('db, 'tx) redb \<Rightarrow> 'db storage \<Rightarrow> bytes \<Rightarrow> bytes option \<Rightarrow> nat \<Rightarrow> 'tx Session \<Rightarrow> 'tx Session \<times> (Error + kv list)" where
  "session_scan_range R s start end limit se =
     (case se_txn se of
        None \<Rightarrow> (se, storage_scan_range R s start end limit)
      | Some tx \<Rightarrow> (let (tx', r) = txn_scan_range R start end limit tx in (se\<lparr>se_txn := Some tx'\<rparr>, r)))"

definition session_scan_batch ::
  "('db, 'tx) redb \<Rightarrow> 'db storage \<Rightarrow> bytes \<Rightarrow> bytes option \<Rightarrow> nat \<Rightarrow> 'tx Session \<Rightarrow> 'tx Session \<times> (Error + kv list)" where
  "session_scan_batch R s prefix after limit se =
     (if \<not> in_txn se then (se, scan_batch R s prefix after limit)
      else session_scan_range R s (batch_lower prefix after) (Some (session_upper_bound prefix)) limit se)"

text \<open>
  \<open>txn_touches_prefix\<close> looks at the first staged key from the prefix on.
\<close>

definition first_under :: "bytes \<Rightarrow> bytes list \<Rightarrow> bool" where
  "first_under prefix keys =
     (case dropWhile (\<lambda>k. k < prefix) keys of [] \<Rightarrow> False | k # _ \<Rightarrow> starts_with k prefix)"

definition txn_touches_prefix :: "bytes \<Rightarrow> 'tx Session \<Rightarrow> bool" where
  "txn_touches_prefix prefix se =
     (case se_txn se of
        None \<Rightarrow> False
      | Some tx \<Rightarrow> first_under prefix (map fst (tx_puts tx)) \<or> first_under prefix (tx_deletes tx))"

definition write_budget_remaining :: "nat \<Rightarrow> 'tx Session \<Rightarrow> nat" where
  "write_budget_remaining max_bytes se =
     max_bytes - (case se_txn se of None \<Rightarrow> 0 | Some tx \<Rightarrow> tx_mem tx + tx_undo_mem tx)"

definition set_next_read_only :: "bool \<Rightarrow> 'tx Session \<Rightarrow> 'tx Session \<times> (Error + unit)" where
  "set_next_read_only read_only se =
     (if in_txn se then (se, Inl TransactionInProgress)
      else (se\<lparr>se_next_read_only := Some read_only\<rparr>, Inr ()))"

definition read_only_now :: "'tx Session \<Rightarrow> bool" where
  "read_only_now se =
     (case se_txn se of
        Some tx \<Rightarrow> tx_read_only tx
      | None \<Rightarrow> (case se_next_read_only se of Some b \<Rightarrow> b | None \<Rightarrow> se_session_read_only se))"

definition consume_next_access_unless_implicit :: "'tx Session \<Rightarrow> 'tx Session" where
  "consume_next_access_unless_implicit se =
     (if \<not> in_txn se \<and> se_autocommit se then se\<lparr>se_next_read_only := None\<rparr> else se)"

definition begin_implicit_transaction ::
  "('db, 'tx) redb \<Rightarrow> 'db storage \<Rightarrow> 'tx Session \<Rightarrow> 'tx Session \<times> (Error + unit)" where
  "begin_implicit_transaction R s se =
     (if \<not> se_autocommit se \<and> \<not> in_txn se then begin_with_access R None s se else (se, Inr ()))"

definition set_autocommit ::
  "('tx Session \<Rightarrow> 'w \<Rightarrow> 'tx Session \<times> 'w \<times> (Error + unit)) \<Rightarrow> bool \<Rightarrow> 'tx Session \<Rightarrow> 'w
     \<Rightarrow> 'tx Session \<times> 'w \<times> (Error + unit)" where
  "set_autocommit commit enabled se w =
     (let (se1, w1, r) = (if enabled \<and> \<not> se_autocommit se then commit se w else (se, w, Inr ()))
      in case r of
           Inl e \<Rightarrow> (se1, w1, Inl e)
         | Inr _ \<Rightarrow> (se1\<lparr>se_autocommit := enabled\<rparr>, w1, Inr ()))"

end
