(* ===== verification/Session_Laws.thy ===== *)
theory Session_Laws
  imports Session_Txn
begin

section \<open>What transactions guarantee\<close>

text \<open>
  The invariant of the staged state with its memory accounting, savepoints that restore it,
  reads through the overlay, and what a successful commit has validated.
\<close>

subsection \<open>The invariant\<close>

definition entry_bytes :: "kv \<Rightarrow> nat" where
  "entry_bytes e = length (fst e) + length (snd e)"

lemma entry_bytes_pair [simp]: "entry_bytes (k, v) = length k + length v"
  by (simp add: entry_bytes_def)

definition staged_bytes :: "'tx TxnState \<Rightarrow> nat" where
  "staged_bytes tx = sum_list (map entry_bytes (tx_puts tx)) + sum_list (map length (tx_deletes tx))"

text \<open>
  The staged writes: sorted, a key is put or deleted but not both, and the two counters are
  the bytes held. An undo entry never says that a key was both.
\<close>

definition txn_inv :: "'tx TxnState \<Rightarrow> bool" where
  "txn_inv tx \<longleftrightarrow> bt_sorted (tx_puts tx) \<and> bs_sorted (tx_deletes tx)
     \<and> (\<forall>k \<in> set (tx_deletes tx). map_of (tx_puts tx) k = None)
     \<and> tx_mem tx = staged_bytes tx
     \<and> tx_undo_mem tx = sum_list (map undo_entry_size (tx_undo tx))
     \<and> (\<forall>e \<in> set (tx_undo tx). ue_prev_deleted e \<longrightarrow> ue_prev_put e = None)"

text \<open>Savepoints point into the undo log and the range list, later ones further in.\<close>

definition marks_inv :: "'tx TxnState \<Rightarrow> bool" where
  "marks_inv tx \<longleftrightarrow> distinct (map sv_name (tx_savepoints tx)) \<and>
     sorted (map sv_undo_mark (tx_savepoints tx)) \<and> sorted (map sv_ranges_len (tx_savepoints tx))
     \<and> (\<forall>s \<in> set (tx_savepoints tx). sv_undo_mark s \<le> length (tx_undo tx)
          \<and> sv_ranges_len s \<le> length (tx_ranges tx))"

lemma put_bytes_le:
  "bt_sorted es \<Longrightarrow> map_of es k = Some v \<Longrightarrow> length k + length v \<le> sum_list (map entry_bytes es)"
  using bt_remove_sum [of es entry_bytes k] by simp

lemma delete_bytes_le: "bs_sorted xs \<Longrightarrow> k \<in> set xs \<Longrightarrow> length k \<le> sum_list (map length xs)"
  using bs_remove_sum [of xs length k] by simp

text \<open>Staging keeps the invariant; the subtractions on the byte counter are exact.\<close>

lemma stage_put_inv:
  assumes "txn_inv tx"
  shows "txn_inv (stage_put k v tx)"
proof -
  have sorted: "bt_sorted (tx_puts tx)" "bs_sorted (tx_deletes tx)" and mem: "tx_mem tx = staged_bytes tx"
    and disj: "\<forall>k \<in> set (tx_deletes tx). map_of (tx_puts tx) k = None"
    using assms by (auto simp: txn_inv_def)
  have "tx_mem (stage_put k v tx) = staged_bytes (stage_put k v tx)"
    using bt_insert_sum [OF sorted(1), of entry_bytes k v] bs_remove_sum [OF sorted(2), of length k]
      put_bytes_le [OF sorted(1), of k] delete_bytes_le [OF sorted(2), of k] mem
    by (auto simp: stage_put_def staged_bytes_def Let_def split: option.splits if_splits)
  moreover have "\<forall>x \<in> set (tx_deletes (stage_put k v tx)). map_of (tx_puts (stage_put k v tx)) x = None"
    using disj by (simp add: stage_put_def Let_def)
  ultimately show ?thesis
    using assms by (simp add: txn_inv_def stage_put_def Let_def)
qed

lemma stage_delete_inv:
  assumes "txn_inv tx"
  shows "txn_inv (stage_delete k tx)"
proof -
  have sorted: "bt_sorted (tx_puts tx)" "bs_sorted (tx_deletes tx)" and mem: "tx_mem tx = staged_bytes tx"
    and disj: "\<forall>k \<in> set (tx_deletes tx). map_of (tx_puts tx) k = None"
    using assms by (auto simp: txn_inv_def)
  have "tx_mem (stage_delete k tx) = staged_bytes (stage_delete k tx)"
    using bt_remove_sum [OF sorted(1), of entry_bytes k] bs_insert_sum [OF sorted(2), of length k]
      put_bytes_le [OF sorted(1), of k] mem
    by (auto simp: stage_delete_def staged_bytes_def Let_def split: option.splits if_splits)
  moreover have "\<forall>x \<in> set (tx_deletes (stage_delete k tx)). map_of (tx_puts (stage_delete k tx)) x = None"
    using disj by (simp add: stage_delete_def Let_def)
  ultimately show ?thesis
    using assms by (simp add: txn_inv_def stage_delete_def Let_def)
qed

lemma log_undo_inv:
  assumes "txn_inv tx" and "log_undo budget logging k tx = (tx', ok)"
  shows "txn_inv tx'"
  using assms by (auto simp: log_undo_def txn_inv_def staged_bytes_def Let_def split: if_splits)

subsection \<open>Undoing\<close>

text \<open>Everything of the state but the staged writes and the undo log.\<close>

definition unstaged :: "'tx TxnState \<Rightarrow> 'tx TxnState" where
  "unstaged tx = tx\<lparr>tx_puts := [], tx_deletes := [], tx_undo := [], tx_undo_mem := 0, tx_mem := 0\<rparr>"

lemma txn_state_eqI:
  assumes "txn_inv tx" and "txn_inv tx'" and "map_of (tx_puts tx) = map_of (tx_puts tx')"
    and "set (tx_deletes tx) = set (tx_deletes tx')" and "tx_undo tx = tx_undo tx'"
    and "unstaged tx = unstaged tx'"
  shows "tx = tx'"
proof -
  have "tx_puts tx = tx_puts tx'" "tx_deletes tx = tx_deletes tx'"
    using assms by (auto simp: txn_inv_def intro: bt_sorted_eqI bs_sorted_eqI)
  moreover from this have "tx_mem tx = tx_mem tx'" "tx_undo_mem tx = tx_undo_mem tx'"
    using assms by (auto simp: txn_inv_def staged_bytes_def)
  ultimately show ?thesis
    using assms(5,6) by (cases tx; cases tx') (simp add: unstaged_def)
qed

lemma undo_pop_puts:
  "map_of (tx_puts (undo_pop tx)) = (map_of (tx_puts tx))(ue_key (last (tx_undo tx)) := ue_prev_put (last (tx_undo tx)))"
  by (auto simp: undo_pop_def Let_def split: option.split)

lemma undo_pop_deletes:
  "set (tx_deletes (undo_pop tx)) = (if ue_prev_deleted (last (tx_undo tx))
     then insert (ue_key (last (tx_undo tx))) (set (tx_deletes tx))
     else set (tx_deletes tx) - {ue_key (last (tx_undo tx))})"
  by (auto simp: undo_pop_def Let_def split: option.split)

lemma undo_pop_undo [simp]: "tx_undo (undo_pop tx) = butlast (tx_undo tx)"
  by (auto simp: undo_pop_def Let_def split: option.split)

lemma undo_pop_unstaged [simp]: "unstaged (undo_pop tx) = unstaged tx"
  by (auto simp: undo_pop_def unstaged_def Let_def split: option.split)

lemma sum_list_butlast:
  "xs \<noteq> [] \<Longrightarrow> sum_list (map f (butlast xs)) = sum_list (map f xs) - (f (last xs) :: nat)"
  by (cases xs rule: rev_cases) auto

lemma undo_pop_mem:
  assumes "txn_inv tx" and "tx_undo tx \<noteq> []"
  shows "tx_mem (undo_pop tx) = staged_bytes (undo_pop tx)"
proof -
  let ?e = "last (tx_undo tx)"
  let ?k = "ue_key ?e"
  have sorted: "bt_sorted (tx_puts tx)" "bs_sorted (tx_deletes tx)" and mem: "tx_mem tx = staged_bytes tx"
    using assms by (auto simp: txn_inv_def)
  note sums = bt_remove_sum [OF sorted(1), of entry_bytes ?k]
    bt_insert_sum [OF sorted(1), of entry_bytes ?k "the (ue_prev_put ?e)"]
    bs_remove_sum [OF sorted(2), of length ?k] bs_insert_sum [OF sorted(2), of length ?k]
    delete_bytes_le [OF sorted(2), of ?k]
  show ?thesis
    using sums mem
    by (cases "map_of (tx_puts tx) ?k"; cases "?k \<in> set (tx_deletes tx)"; cases "ue_prev_put ?e";
        cases "ue_prev_deleted ?e") (simp_all add: undo_pop_def staged_bytes_def Let_def)
qed

lemma undo_pop_inv:
  assumes "txn_inv tx" and "tx_undo tx \<noteq> []"
  shows "txn_inv (undo_pop tx)"
proof -
  let ?e = "last (tx_undo tx)"
  have e: "?e \<in> set (tx_undo tx)" using assms(2) by simp
  have entry: "ue_prev_deleted ?e \<longrightarrow> ue_prev_put ?e = None"
    using assms(1) e by (simp add: txn_inv_def)
  have "\<forall>k \<in> set (tx_deletes (undo_pop tx)). map_of (tx_puts (undo_pop tx)) k = None"
    using assms(1) entry unfolding undo_pop_puts undo_pop_deletes by (simp add: txn_inv_def)
  moreover have "bt_sorted (tx_puts (undo_pop tx))" "bs_sorted (tx_deletes (undo_pop tx))"
    using assms(1) by (auto simp: undo_pop_def txn_inv_def Let_def split: option.split)
  moreover have "tx_undo_mem (undo_pop tx) = sum_list (map undo_entry_size (tx_undo (undo_pop tx)))"
  proof -
    have "tx_undo_mem (undo_pop tx) = tx_undo_mem tx - undo_entry_size ?e"
      by (simp add: undo_pop_def Let_def split: option.split)
    then show ?thesis
      using assms by (simp add: txn_inv_def sum_list_butlast)
  qed
  moreover have "\<forall>e \<in> set (tx_undo (undo_pop tx)). ue_prev_deleted e \<longrightarrow> ue_prev_put e = None"
    using assms(1) unfolding undo_pop_undo txn_inv_def by (meson in_set_butlastD)
  ultimately show ?thesis
    using undo_pop_mem [OF assms] unfolding txn_inv_def by blast
qed

lemma stage_unstaged [simp]:
  "unstaged (stage_put k v tx) = unstaged tx" "unstaged (stage_delete k tx) = unstaged tx"
  "tx_undo (stage_put k v tx) = tx_undo tx" "tx_undo (stage_delete k tx) = tx_undo tx"
  by (simp_all add: unstaged_def stage_put_def stage_delete_def Let_def)

text \<open>Undoing takes back exactly one logged write.\<close>

lemma undo_pop_stage_put:
  assumes "txn_inv tx" and "log_undo budget True k tx = (tx1, True)"
  shows "undo_pop (stage_put k v tx1) = tx"
proof -
  have tx1: "tx_undo tx1 = tx_undo tx @ [\<lparr>ue_key = k, ue_prev_put = map_of (tx_puts tx) k,
      ue_prev_deleted = (k \<in> set (tx_deletes tx))\<rparr>]" "tx_puts tx1 = tx_puts tx"
    "tx_deletes tx1 = tx_deletes tx" "unstaged tx1 = unstaged tx"
    using assms(2) by (auto simp: log_undo_def Let_def unstaged_def split: if_splits)
  have inv: "txn_inv (stage_put k v tx1)" using assms log_undo_inv stage_put_inv by blast
  have undo: "tx_undo (stage_put k v tx1) = tx_undo tx1" by simp
  show ?thesis
  proof (rule txn_state_eqI)
    show "txn_inv (undo_pop (stage_put k v tx1))" using undo_pop_inv [OF inv] undo tx1 by simp
    show "unstaged (undo_pop (stage_put k v tx1)) = unstaged tx"
      using tx1 by simp
    show "map_of (tx_puts (undo_pop (stage_put k v tx1))) = map_of (tx_puts tx)"
      unfolding undo_pop_puts undo tx1 by (simp add: stage_put_def Let_def tx1)
    show "set (tx_deletes (undo_pop (stage_put k v tx1))) = set (tx_deletes tx)"
      unfolding undo_pop_deletes undo tx1 by (auto simp: stage_put_def Let_def tx1)
  qed (use assms undo tx1 in simp_all)
qed

lemma undo_pop_stage_delete:
  assumes "txn_inv tx" and "log_undo budget True k tx = (tx1, True)"
  shows "undo_pop (stage_delete k tx1) = tx"
proof -
  have tx1: "tx_undo tx1 = tx_undo tx @ [\<lparr>ue_key = k, ue_prev_put = map_of (tx_puts tx) k,
      ue_prev_deleted = (k \<in> set (tx_deletes tx))\<rparr>]" "tx_puts tx1 = tx_puts tx"
    "tx_deletes tx1 = tx_deletes tx" "unstaged tx1 = unstaged tx"
    using assms(2) by (auto simp: log_undo_def Let_def unstaged_def split: if_splits)
  have inv: "txn_inv (stage_delete k tx1)" using assms log_undo_inv stage_delete_inv by blast
  have undo: "tx_undo (stage_delete k tx1) = tx_undo tx1" by simp
  show ?thesis
  proof (rule txn_state_eqI)
    show "txn_inv (undo_pop (stage_delete k tx1))" using undo_pop_inv [OF inv] undo tx1 by simp
    show "unstaged (undo_pop (stage_delete k tx1)) = unstaged tx"
      using tx1 by simp
    show "map_of (tx_puts (undo_pop (stage_delete k tx1))) = map_of (tx_puts tx)"
      unfolding undo_pop_puts undo tx1 by (simp add: stage_delete_def Let_def tx1)
    show "set (tx_deletes (undo_pop (stage_delete k tx1))) = set (tx_deletes tx)"
      unfolding undo_pop_deletes undo tx1 by (auto simp: stage_delete_def Let_def tx1)
  qed (use assms undo tx1 in simp_all)
qed

lemma undo_loop_done: "length (tx_undo tx) \<le> mark \<Longrightarrow> undo_loop mark tx = tx"
  by (simp add: undo_loop.simps)

lemma undo_loop_pop: "mark < length (tx_undo tx) \<Longrightarrow> undo_loop mark tx = undo_loop mark (undo_pop tx)"
  by (simp add: undo_loop.simps [of mark tx])

lemma undo_loop_inv:
  assumes "txn_inv tx"
  shows "txn_inv (undo_loop mark tx) \<and> unstaged (undo_loop mark tx) = unstaged tx
    \<and> tx_undo (undo_loop mark tx) = take mark (tx_undo tx)"
  using assms
proof (induction mark tx rule: undo_loop.induct)
  case (1 mark tx)
  show ?case
  proof (cases "mark < length (tx_undo tx)")
    case True
    then have "tx_undo tx \<noteq> []" by auto
    with 1 True have "txn_inv (undo_loop mark (undo_pop tx)) \<and> unstaged (undo_loop mark (undo_pop tx)) = unstaged tx
      \<and> tx_undo (undo_loop mark (undo_pop tx)) = take mark (butlast (tx_undo tx))"
      using undo_pop_inv by fastforce
    moreover have "take mark (butlast (tx_undo tx)) = take mark (tx_undo tx)"
      using True by (simp add: butlast_conv_take)
    ultimately show ?thesis using undo_loop_pop [OF True] by simp
  next
    case False
    then show ?thesis using 1 undo_loop_done [of tx mark] by simp
  qed
qed

lemma undo_loop_compose: "mark \<le> mark' \<Longrightarrow> undo_loop mark (undo_loop mark' tx) = undo_loop mark tx"
proof (induction mark' tx rule: undo_loop.induct)
  case (1 mark' tx)
  show ?case
  proof (cases "mark' < length (tx_undo tx)")
    case True
    with 1 have "undo_loop mark (undo_loop mark' (undo_pop tx)) = undo_loop mark (undo_pop tx)" by simp
    then show ?thesis using True 1(2) undo_loop_pop [of mark' tx] undo_loop_pop [of mark tx] by simp
  next
    case False
    then show ?thesis by (simp add: undo_loop_done)
  qed
qed

text \<open>The fields that rolling back works on; it does not look at the others.\<close>

definition staged :: "'tx TxnState \<Rightarrow> kv list \<times> bytes list \<times> UndoEntry list \<times> nat \<times> nat" where
  "staged tx = (tx_puts tx, tx_deletes tx, tx_undo tx, tx_undo_mem tx, tx_mem tx)"

lemma staged_undo_pop: "staged tx = staged tx' \<Longrightarrow> staged (undo_pop tx) = staged (undo_pop tx')"
  by (auto simp: staged_def undo_pop_def Let_def split: option.split)

lemma staged_undo_loop: "staged tx = staged tx' \<Longrightarrow> staged (undo_loop mark tx) = staged (undo_loop mark tx')"
proof (induction mark tx arbitrary: tx' rule: undo_loop.induct)
  case (1 mark tx)
  have "tx_undo tx' = tx_undo tx" using 1(2) by (simp add: staged_def)
  then show ?case
    using 1 staged_undo_pop [OF 1(2)] undo_loop_pop [of mark tx] undo_loop_pop [of mark tx']
      undo_loop_done [of tx mark] undo_loop_done [of tx' mark]
    by (cases "mark < length (tx_undo tx)") (auto simp: not_less)
qed

subsection \<open>Staging a statement's writes\<close>

definition stages :: "bytes \<times> ('tx TxnState \<Rightarrow> 'tx TxnState) \<Rightarrow> bool" where
  "stages p \<longleftrightarrow> snd p = stage_delete (fst p) \<or> (\<exists>v. snd p = stage_put (fst p) v)"

lemma stages_inv: "stages (k, f) \<Longrightarrow> txn_inv tx \<Longrightarrow> txn_inv (f tx) \<and> unstaged (f tx) = unstaged tx \<and> tx_undo (f tx) = tx_undo tx"
  by (auto simp: stages_def intro: stage_put_inv stage_delete_inv)

lemma log_undo_unstaged: "log_undo budget logging k tx = (tx', ok) \<Longrightarrow> unstaged tx' = unstaged tx"
  by (auto simp: log_undo_def unstaged_def Let_def split: if_splits)

lemma stage_all_inv:
  assumes "txn_inv tx" and "\<forall>p \<in> set items. stages p" and "stage_all budget logging items tx = (tx', r)"
  shows "txn_inv tx' \<and> unstaged tx' = unstaged tx \<and> (is_ok r \<and> items \<noteq> [] \<longrightarrow> tx_mem tx' + tx_undo_mem tx' \<le> budget)"
  using assms
proof (induction items arbitrary: tx)
  case (Cons p items)
  obtain k f where p: "p = (k, f)" by force
  obtain tx1 ok where log: "log_undo budget logging k tx = (tx1, ok)" by force
  have tx1: "txn_inv tx1" "unstaged tx1 = unstaged tx"
    using log_undo_inv [OF Cons.prems(1) log] log_undo_unstaged [OF log] by auto
  have f: "txn_inv (f tx1)" "unstaged (f tx1) = unstaged tx"
    using stages_inv [of k f tx1] Cons.prems(2) p tx1 by auto
  show ?case
  proof (cases "ok \<and> \<not> tx_mem (f tx1) + tx_undo_mem (f tx1) > budget")
    case True
    with Cons.prems(3) p log have "stage_all budget logging items (f tx1) = (tx', r)" by (simp add: Let_def)
    with Cons.IH [OF f(1)] Cons.prems(2) f(2) True show ?thesis by (cases items) auto
  next
    case False
    with Cons.prems(3) p log f tx1 show ?thesis by (auto simp: Let_def split: if_splits)
  qed
qed simp

lemma stage_all_undo:
  assumes "txn_inv tx" and "\<forall>p \<in> set items. stages p" and "stage_all budget True items tx = (tx', r)"
    and "mark \<le> length (tx_undo tx)"
  shows "undo_loop mark tx' = undo_loop mark tx \<and> length (tx_undo tx) \<le> length (tx_undo tx')"
  using assms
proof (induction items arbitrary: tx)
  case (Cons p items)
  obtain k f where p: "p = (k, f)" by force
  obtain tx1 ok where log: "log_undo budget True k tx = (tx1, ok)" by force
  show ?case
  proof (cases ok)
    case False
    with log have "tx1 = tx" by (auto simp: log_undo_def Let_def split: if_splits)
    with False Cons.prems(3) p log show ?thesis by simp
  next
    case True
    have tx1: "txn_inv tx1" "length (tx_undo tx1) = Suc (length (tx_undo tx))"
      using log_undo_inv [OF Cons.prems(1) log] log True by (auto simp: log_undo_def Let_def split: if_splits)
    have f: "txn_inv (f tx1)" "tx_undo (f tx1) = tx_undo tx1"
      using stages_inv [of k f tx1] Cons.prems(2) p tx1 by auto
    have "undo_pop (f tx1) = tx"
      using Cons.prems(1,2) p log True undo_pop_stage_put [of tx budget k tx1] undo_pop_stage_delete [of tx budget k tx1]
      by (auto simp: stages_def)
    then have undone: "undo_loop mark (f tx1) = undo_loop mark tx"
      using undo_loop_pop [of mark "f tx1"] f tx1 Cons.prems(4) by simp
    show ?thesis
    proof (cases "tx_mem (f tx1) + tx_undo_mem (f tx1) > budget")
      case True
      with \<open>ok\<close> Cons.prems(3) p log undone f tx1 show ?thesis by (simp add: Let_def)
    next
      case False
      with \<open>ok\<close> Cons.prems(3) p log have "stage_all budget True items (f tx1) = (tx', r)" by (simp add: Let_def)
      with Cons.IH [OF f(1)] Cons.prems(2,4) undone f(2) tx1(2) show ?thesis by simp
    qed
  qed
qed simp

lemma stage_write_items:
  "\<forall>p \<in> set (map (\<lambda>k. (k, stage_delete k)) deletes @ map (\<lambda>e. (fst e, stage_put (fst e) (snd e))) puts). stages p"
  by (auto simp: stages_def)

subsection \<open>What happens inside a transaction\<close>

text \<open>
  One step of an open transaction: a statement that stages writes (with any outcome), reads,
  explicit locks, savepoint statements and the engine's own checkpoints.
\<close>

inductive txn_op :: "('db, 'tx) redb \<Rightarrow> 'tx TxnState \<Rightarrow> 'tx TxnState \<Rightarrow> bool" for R where
  op_write: "stage_write budget puts deletes tx = (tx', r) \<Longrightarrow> txn_op R tx tx'"
| op_get: "txn_get R key tx = (tx', v) \<Longrightarrow> txn_op R tx tx'"
| op_multi_get: "txn_multi_get R keys tx = (tx', vs) \<Longrightarrow> txn_op R tx tx'"
| op_scan: "txn_scan_range R start end limit tx = (tx', es) \<Longrightarrow> txn_op R tx tx'"
| op_lock: "txn_op R tx (lock_keys keys tx)"
| op_require: "txn_op R tx (require_serializable_validation tx)"
| op_savepoint: "txn_op R tx (savepoint name tx)"
| op_rollback_to: "rollback_to name tx = (tx', r) \<Longrightarrow> txn_op R tx tx'"
| op_release: "release_savepoint name tx = (tx', r) \<Longrightarrow> txn_op R tx tx'"
| op_checkpoint: "transaction_checkpoint tx = (tx', c) \<Longrightarrow> txn_op R tx tx'"
| op_release_checkpoint: "release_transaction_checkpoint tx = (tx', r) \<Longrightarrow> txn_op R tx tx'"

text \<open>What stays of a state while only reads and locks are recorded in it.\<close>

definition reads_only :: "'tx TxnState \<Rightarrow> 'tx TxnState \<Rightarrow> bool" where
  "reads_only tx tx' \<longleftrightarrow> staged tx' = staged tx \<and> tx_savepoints tx' = tx_savepoints tx
     \<and> tx_checkpoints tx' = tx_checkpoints tx \<and> (\<exists>rs. tx_ranges tx' = tx_ranges tx @ rs)"

lemma reads_only_trans: "reads_only a b \<Longrightarrow> reads_only b c \<Longrightarrow> reads_only a c"
  by (auto simp: reads_only_def)

lemma note_read_only: "reads_only tx (note_read k tx)"
  by (simp add: reads_only_def note_read_def staged_def)

lemma notes_read_only: "reads_only tx (foldl (\<lambda>tx k. note_read k tx) tx keys)"
proof (induction keys arbitrary: tx)
  case Nil
  then show ?case by (simp add: reads_only_def)
next
  case (Cons k keys)
  show ?case using reads_only_trans [OF note_read_only Cons.IH] by simp
qed

lemma txn_inv_staged: "staged tx = staged tx' \<Longrightarrow> txn_inv tx = txn_inv tx'"
  by (auto simp: staged_def txn_inv_def staged_bytes_def)

lemma reads_only_inv: "reads_only tx tx' \<Longrightarrow> txn_inv tx \<Longrightarrow> marks_inv tx \<Longrightarrow> txn_inv tx' \<and> marks_inv tx'"
  using txn_inv_staged [of tx' tx] by (auto simp: reads_only_def marks_inv_def staged_def trans_le_add1)

lemma unstaged_fields:
  assumes "unstaged tx' = unstaged tx"
  shows "tx_savepoints tx' = tx_savepoints tx" "tx_ranges tx' = tx_ranges tx"
    "tx_checkpoints tx' = tx_checkpoints tx" "tx_snapshot tx' = tx_snapshot tx"
proof -
  have "tx_savepoints (unstaged tx') = tx_savepoints (unstaged tx)" "tx_ranges (unstaged tx') = tx_ranges (unstaged tx)"
    "tx_checkpoints (unstaged tx') = tx_checkpoints (unstaged tx)" "tx_snapshot (unstaged tx') = tx_snapshot (unstaged tx)"
    using assms by simp_all
  then show "tx_savepoints tx' = tx_savepoints tx" "tx_ranges tx' = tx_ranges tx"
    "tx_checkpoints tx' = tx_checkpoints tx" "tx_snapshot tx' = tx_snapshot tx"
    by (simp_all add: unstaged_def)
qed

lemma position_Some:
  "position P xs = Some i \<Longrightarrow> i < length xs \<and> P (xs ! i)"
  by (induction xs arbitrary: i) (auto split: if_splits)

lemma position_None: "position P xs = None \<longleftrightarrow> (\<forall>x \<in> set xs. \<not> P x)"
  by (induction xs) auto

text \<open>The state a savepoint stands for, seen from any later state that still has it.\<close>

definition restores :: "Savepoint \<Rightarrow> 'tx TxnState \<Rightarrow> 'tx TxnState \<Rightarrow> bool" where
  "restores sp tx tx' \<longleftrightarrow>
     staged (undo_loop (sv_undo_mark sp) tx') = staged (undo_loop (sv_undo_mark sp) tx)
     \<and> take (sv_ranges_len sp) (tx_ranges tx') = take (sv_ranges_len sp) (tx_ranges tx)"

lemma reads_only_restores:
  assumes "reads_only tx tx'" and "marks_inv tx" and "sp \<in> set (tx_savepoints tx)"
  shows "restores sp tx tx'"
  using assms staged_undo_loop [of tx' tx "sv_undo_mark sp"]
  by (auto simp: reads_only_def restores_def marks_inv_def)

lemma write_step:
  assumes "txn_inv tx" and "marks_inv tx" and "stage_write budget puts deletes tx = (tx', r)"
  shows "txn_inv tx' \<and> marks_inv tx' \<and> (\<forall>sp \<in> set (tx_savepoints tx). restores sp tx tx')"
proof -
  define logging where "logging \<longleftrightarrow> tx_savepoints tx \<noteq> [] \<or> tx_checkpoints tx > 0"
  note run = assms(3) [unfolded stage_write_def Let_def, folded logging_def]
  note inv = stage_all_inv [OF assms(1) stage_write_items run]
  note fields = unstaged_fields [of tx' tx]
  have "length (tx_undo tx) \<le> length (tx_undo tx')" "restores sp tx tx'" if sp: "sp \<in> set (tx_savepoints tx)" for sp
  proof -
    have "logging" using sp by (auto simp: logging_def)
    then show "length (tx_undo tx) \<le> length (tx_undo tx')" "restores sp tx tx'"
      using stage_all_undo [OF assms(1) stage_write_items, of budget deletes puts tx' r "sv_undo_mark sp"]
        run assms(2) sp inv fields
      by (auto simp: marks_inv_def restores_def)
  qed
  with inv fields assms(2) show ?thesis
    unfolding marks_inv_def by (auto intro: order_trans)
qed

lemma savepoint_step:
  assumes "txn_inv tx" and "marks_inv tx"
  shows "txn_inv (savepoint name tx) \<and> marks_inv (savepoint name tx)
    \<and> (\<forall>sp \<in> set (tx_savepoints tx). restores sp tx (savepoint name tx))"
proof -
  have same: "staged (savepoint name tx) = staged tx" "tx_ranges (savepoint name tx) = tx_ranges tx"
    by (simp_all add: savepoint_def staged_def)
  have "sorted (map f (filter P xs) @ [n])"
    if "sorted (map f xs)" "\<forall>y \<in> set xs. f y \<le> n" for f :: "Savepoint \<Rightarrow> nat" and P xs n
    using that by (auto simp: sorted_append sorted_filter)
  then have "marks_inv (savepoint name tx)"
    using assms(2) by (auto simp: marks_inv_def savepoint_def distinct_map_filter)
  with same assms show ?thesis
    using staged_undo_loop [OF same(1)] txn_inv_staged [OF same(1)] by (auto simp: restores_def)
qed

lemma sorted_take_le:
  assumes "sorted (map f xs)" and "i < length xs" and "x \<in> set (take (i + 1) xs)"
  shows "f x \<le> (f (xs ! i) :: nat)"
proof -
  obtain j where "j < i + 1" "x = xs ! j" "j < length xs"
    using assms(3) by (auto simp: in_set_conv_nth)
  with assms(1,2) show ?thesis
    using sorted_nth_mono [of "map f xs" j i] by simp
qed

lemma rollback_to_step:
  assumes "txn_inv tx" and "marks_inv tx" and "rollback_to name tx = (tx', r)"
  shows "txn_inv tx' \<and> marks_inv tx' \<and> (\<forall>sp \<in> set (tx_savepoints tx'). sp \<in> set (tx_savepoints tx) \<and> restores sp tx tx')"
proof (cases "position (\<lambda>s. sv_name s = name) (tx_savepoints tx)")
  case None
  with assms show ?thesis by (auto simp: rollback_to_def restores_def)
next
  case (Some pos)
  define s where "s = tx_savepoints tx ! pos"
  let ?tx1 = "undo_loop (sv_undo_mark s) tx"
  note inv = undo_loop_inv [OF assms(1), of "sv_undo_mark s"]
  note fields = unstaged_fields [of ?tx1 tx]
  have pos: "pos < length (tx_savepoints tx)" using position_Some [OF Some] by simp
  have tx': "staged tx' = staged ?tx1" "tx_savepoints tx' = take (pos + 1) (tx_savepoints tx)"
    "tx_ranges tx' = take (sv_ranges_len s) (tx_ranges tx)"
    using assms(3) Some inv fields
    by (auto simp: rollback_to_def rollback_tx_to_def s_def [symmetric] Let_def staged_def)
  have s: "sv_undo_mark s \<le> length (tx_undo tx)" "sv_ranges_len s \<le> length (tx_ranges tx)"
    using assms(2) pos by (auto simp: marks_inv_def s_def)
  have undo': "tx_undo tx' = take (sv_undo_mark s) (tx_undo tx)"
    using tx'(1) inv by (simp add: staged_def)
  have le: "sv_undo_mark sp \<le> sv_undo_mark s" "sv_ranges_len sp \<le> sv_ranges_len s"
    if "sp \<in> set (take (pos + 1) (tx_savepoints tx))" for sp
    using sorted_take_le [OF _ pos that] assms(2) by (auto simp: marks_inv_def s_def)
  have "restores sp tx tx'" if "sp \<in> set (take (pos + 1) (tx_savepoints tx))" for sp
    using le [OF that] staged_undo_loop [OF tx'(1), of "sv_undo_mark sp"] undo_loop_compose [of "sv_undo_mark sp" "sv_undo_mark s" tx] tx'(3)
    by (simp add: restores_def min_def)
  moreover have "marks_inv tx'"
    using assms(2) le undo' tx' s by (auto simp: marks_inv_def take_map [symmetric] sorted_wrt_take distinct_take)
  ultimately show ?thesis
    using txn_inv_staged [OF tx'(1)] inv tx'(2) by (auto dest: in_set_takeD)
qed

lemma drop_idle_undo_step:
  assumes "txn_inv tx" and "marks_inv tx"
  shows "txn_inv (drop_idle_undo tx) \<and> marks_inv (drop_idle_undo tx)
    \<and> tx_savepoints (drop_idle_undo tx) = tx_savepoints tx
    \<and> (\<forall>sp \<in> set (tx_savepoints tx). restores sp tx (drop_idle_undo tx))"
  using assms by (auto simp: drop_idle_undo_def txn_inv_def marks_inv_def restores_def staged_bytes_def)

lemma savepoints_only_step:
  assumes "txn_inv tx" and "marks_inv tx" and "staged tx' = staged tx" and "tx_ranges tx' = tx_ranges tx"
    and "tx_savepoints tx' = take n (tx_savepoints tx)"
  shows "txn_inv tx' \<and> marks_inv tx' \<and> (\<forall>sp \<in> set (tx_savepoints tx'). restores sp tx tx')"
proof -
  have "tx_undo tx' = tx_undo tx" using assms(3) by (simp add: staged_def)
  with assms have "marks_inv tx'"
    by (auto simp: marks_inv_def take_map [symmetric] sorted_wrt_take distinct_take dest: in_set_takeD)
  with assms show ?thesis
    using txn_inv_staged [OF assms(3)] staged_undo_loop [OF assms(3)] by (simp add: restores_def)
qed

lemma restores_trans: "restores sp a b \<Longrightarrow> restores sp b c \<Longrightarrow> restores sp a c"
  by (simp add: restores_def)

lemma txn_op_step:
  assumes "txn_op R tx tx'" and "txn_inv tx" and "marks_inv tx"
  shows "txn_inv tx' \<and> marks_inv tx'
    \<and> (\<forall>sp \<in> set (tx_savepoints tx) \<inter> set (tx_savepoints tx'). restores sp tx tx')"
  using assms
proof (induction rule: txn_op.induct)
  case (op_write budget puts deletes tx tx' r)
  then show ?case using write_step by blast
next
  case (op_get key tx tx' v)
  then have "reads_only tx tx'" using note_read_only by (auto simp: txn_get_def Let_def)
  with op_get reads_only_inv reads_only_restores show ?case by blast
next
  case (op_multi_get keys tx tx' vs)
  then have "reads_only tx tx'" using notes_read_only by (auto simp: txn_multi_get_def Let_def split: prod.splits)
  with op_multi_get reads_only_inv reads_only_restores show ?case by blast
next
  case (op_scan start "end" limit tx tx' es)
  then have "reads_only tx tx'" by (auto simp: txn_scan_range_def reads_only_def staged_def Let_def)
  with op_scan reads_only_inv reads_only_restores show ?case by blast
next
  case (op_lock tx keys)
  have "reads_only tx (lock_keys keys tx)" by (simp add: lock_keys_def reads_only_def staged_def)
  with op_lock reads_only_inv reads_only_restores show ?case by blast
next
  case (op_require tx)
  have "reads_only tx (require_serializable_validation tx)"
    by (simp add: require_serializable_validation_def reads_only_def staged_def)
  with op_require reads_only_inv reads_only_restores show ?case by blast
next
  case (op_savepoint tx name)
  then show ?case using savepoint_step by blast
next
  case (op_rollback_to name tx tx' r)
  then show ?case using rollback_to_step by blast
next
  case (op_release name tx tx' r)
  show ?case
  proof (cases "position (\<lambda>s. sv_name s = name) (tx_savepoints tx)")
    case None
    with op_release show ?thesis by (auto simp: release_savepoint_def restores_def)
  next
    case (Some pos)
    let ?tx1 = "tx\<lparr>tx_savepoints := take pos (tx_savepoints tx)\<rparr>"
    have tx': "tx' = drop_idle_undo ?tx1" using op_release Some by (simp add: release_savepoint_def)
    have "txn_inv ?tx1 \<and> marks_inv ?tx1 \<and> (\<forall>sp \<in> set (tx_savepoints ?tx1). restores sp tx ?tx1)"
      by (rule savepoints_only_step [OF op_release(2,3)]) (simp_all add: staged_def)
    with drop_idle_undo_step [of ?tx1] tx' show ?thesis using restores_trans by fastforce
  qed
next
  case (op_checkpoint tx tx' c)
  then have "txn_inv tx' \<and> marks_inv tx' \<and> (\<forall>sp \<in> set (tx_savepoints tx'). restores sp tx tx')"
    by (intro savepoints_only_step [where n = "length (tx_savepoints tx)"])
      (auto simp: transaction_checkpoint_def staged_def)
  then show ?case by blast
next
  case (op_release_checkpoint tx tx' r)
  show ?case
  proof (cases "tx_checkpoints tx = 0")
    case True
    with op_release_checkpoint show ?thesis by (auto simp: release_transaction_checkpoint_def restores_def)
  next
    case False
    let ?tx1 = "tx\<lparr>tx_checkpoints := tx_checkpoints tx - 1\<rparr>"
    have tx': "tx' = drop_idle_undo ?tx1"
      using op_release_checkpoint False by (simp add: release_transaction_checkpoint_def)
    have "txn_inv ?tx1 \<and> marks_inv ?tx1 \<and> (\<forall>sp \<in> set (tx_savepoints ?tx1). restores sp tx ?tx1)"
      by (rule savepoints_only_step [OF op_release_checkpoint(2,3), where n = "length (tx_savepoints tx)"])
        (simp_all add: staged_def)
    with drop_idle_undo_step [of ?tx1] tx' show ?thesis using restores_trans by fastforce
  qed
qed



text \<open>Reachable states: from the beginning of a transaction, by any steps.\<close>

definition begun :: "'tx TxnState \<Rightarrow> bool" where
  "begun tx \<longleftrightarrow> tx_puts tx = [] \<and> tx_deletes tx = [] \<and> tx_savepoints tx = [] \<and> tx_undo tx = []
     \<and> tx_undo_mem tx = 0 \<and> tx_mem tx = 0"

lemma txn_reachable_inv: "(txn_op R)\<^sup>*\<^sup>* tx0 tx \<Longrightarrow> begun tx0 \<Longrightarrow> txn_inv tx \<and> marks_inv tx"
proof (induction rule: rtranclp_induct)
  case base
  then show ?case by (simp add: begun_def txn_inv_def marks_inv_def staged_bytes_def)
next
  case (step y z)
  then show ?case using txn_op_step by blast
qed

lemma begin_begun:
  "begin_with_access R ro s se = (se', Inr ()) \<Longrightarrow> \<exists>tx. se_txn se' = Some tx \<and> begun tx"
  by (auto simp: begin_with_access_def begun_def Let_def split: sum.splits)


subsection \<open>Properties of savepoints\<close>


definition ex_txn :: "kv list TxnState" where
  "ex_txn = \<lparr>tx_snapshot = [([1], [10]), ([2], [20]), ([3], [30])], tx_read_only = False, tx_puts = [], tx_deletes = [],
     tx_serializable = True, tx_reads = [], tx_ranges = [], tx_locked = [], tx_savepoints = [],
     tx_checkpoints = 0, tx_undo = [], tx_undo_mem = 0, tx_mem = 0\<rparr>"

definition ex_staged :: "kv list TxnState" where
  "ex_staged = fst (stage_write 1000 [([1], [11])] [[2]] ex_txn)"


lemma ex_staged_reachable: "begun ex_txn" "(txn_op ref_redb)\<^sup>*\<^sup>* ex_txn ex_staged"
proof -
  show "begun ex_txn" by (simp add: begun_def ex_txn_def)
  have "txn_op ref_redb ex_txn ex_staged"
    unfolding ex_staged_def by (rule op_write) (rule prod.collapse [symmetric])
  then show "(txn_op ref_redb)\<^sup>*\<^sup>* ex_txn ex_staged" by blast
qed


subsection \<open>Reading through the overlay\<close>

text \<open>The keyspace as the transaction sees it over the committed keyspace \<open>m\<close>.\<close>

definition txn_view :: "'tx TxnState \<Rightarrow> kvmap \<Rightarrow> kvmap" where
  "txn_view tx m = apply_map m (tx_puts tx) (tx_deletes tx)"

lemma map_of_rev_sorted: "bt_sorted es \<Longrightarrow> map_of (rev es) = map_of es"
  by (intro map_of_inject_set [THEN iffD2]) (auto simp: sorted_wrt_map_fst_distinct simp flip: rev_map)

lemma txn_view_apply:
  assumes "txn_inv tx"
  shows "txn_view tx m k = (if k \<in> set (tx_deletes tx) then None
    else case map_of (tx_puts tx) k of Some v \<Rightarrow> Some v | None \<Rightarrow> m k)"
  using assms
  by (auto simp: txn_view_def apply_map_def put_map_apply del_map_apply txn_inv_def map_of_rev_sorted split: option.split)

lemma txn_view_stage_put:
  assumes "txn_inv tx"
  shows "txn_view (stage_put k v tx) m = (txn_view tx m)(k \<mapsto> v)"
  using txn_view_apply [OF assms] txn_view_apply [OF stage_put_inv [OF assms, of k v]]
  by (intro ext) (auto simp: stage_put_def Let_def split: option.split)

lemma txn_view_stage_delete:
  assumes "txn_inv tx"
  shows "txn_view (stage_delete k tx) m = (txn_view tx m)(k := None)"
  using txn_view_apply [OF assms] txn_view_apply [OF stage_delete_inv [OF assms, of k]]
  by (intro ext) (auto simp: stage_delete_def Let_def split: option.split)

lemma log_undo_view: "log_undo budget logging k tx = (tx', ok) \<Longrightarrow> txn_view tx' m = txn_view tx m"
  by (auto simp: log_undo_def txn_view_def Let_def split: if_splits)

lemma stage_all_append:
  "stage_all budget lg (xs @ ys) tx = (tx', Inr ()) \<Longrightarrow>
     \<exists>tx1. stage_all budget lg xs tx = (tx1, Inr ()) \<and> stage_all budget lg ys tx1 = (tx', Inr ())"
  by (induction xs arbitrary: tx) (auto simp: Let_def split: prod.splits if_splits)

lemma stage_deletes_view:
  assumes "txn_inv tx" and "stage_all budget lg (map (\<lambda>k. (k, stage_delete k)) deletes) tx = (tx', Inr ())"
  shows "txn_view tx' m = del_map (txn_view tx m) deletes"
  using assms
proof (induction deletes arbitrary: tx)
  case (Cons k ks)
  obtain tx1 ok where log: "log_undo budget lg k tx = (tx1, ok)" by force
  then have "txn_inv tx1" "txn_view tx1 m = txn_view tx m"
    using Cons.prems(1) log_undo_inv log_undo_view by blast+
  with Cons.prems log Cons.IH [of "stage_delete k tx1"] show ?case
    using txn_view_stage_delete [of tx1 k m] stage_delete_inv [of tx1 k]
    by (simp add: Let_def del_map_def fun_upd_def split: if_splits)
qed (simp add: del_map_def)

lemma stage_puts_view:
  assumes "txn_inv tx" and "stage_all budget lg (map (\<lambda>e. (fst e, stage_put (fst e) (snd e))) puts) tx = (tx', Inr ())"
  shows "txn_view tx' m = put_map (txn_view tx m) puts"
  using assms
proof (induction puts arbitrary: tx)
  case (Cons e es)
  obtain tx1 ok where log: "log_undo budget lg (fst e) tx = (tx1, ok)" by force
  then have "txn_inv tx1" "txn_view tx1 m = txn_view tx m"
    using Cons.prems(1) log_undo_inv log_undo_view by blast+
  with Cons.prems log Cons.IH [of "stage_put (fst e) (snd e) tx1"] show ?case
    using txn_view_stage_put [of tx1 "fst e" "snd e" m] stage_put_inv [of tx1 "fst e" "snd e"]
    by (simp add: Let_def fun_upd_def split: if_splits)
qed simp

lemma stage_write_view:
  assumes "txn_inv tx" and "stage_write budget puts deletes tx = (tx', Inr ())"
  shows "txn_inv tx' \<and> tx_snapshot tx' = tx_snapshot tx \<and> txn_view tx' m = apply_map (txn_view tx m) puts deletes"
proof -
  let ?lg = "tx_savepoints tx \<noteq> [] \<or> tx_checkpoints tx > 0"
  note run = assms(2) [unfolded stage_write_def Let_def]
  from stage_all_append [OF run] obtain tx1 where
    del: "stage_all budget ?lg (map (\<lambda>k. (k, stage_delete k)) deletes) tx = (tx1, Inr ())"
    and put: "stage_all budget ?lg (map (\<lambda>e. (fst e, stage_put (fst e) (snd e))) puts) tx1 = (tx', Inr ())" by blast
  have "txn_inv tx1" using stage_all_inv [OF assms(1) _ del] by (auto simp: stages_def)
  with stage_deletes_view [OF assms(1) del] stage_puts_view [OF _ put] show ?thesis
    using stage_all_inv [OF assms(1) stage_write_items run] unstaged_fields(4) [of tx' tx]
    by (simp add: apply_map_def)
qed

lemma resolve_fill:
  assumes "resolve tx i ks = (result, misses)" and "length pre = i" and "txn_inv tx"
  shows "foldl (\<lambda>r ((j, _), v). r[j := v]) (pre @ result) (zip misses (map (\<lambda>e. m (snd e)) misses))
    = pre @ map (txn_view tx m) ks"
  using assms(1,2)
proof (induction ks arbitrary: i result misses pre)
  case (Cons k ks)
  obtain result1 misses1 where rest: "resolve tx (i + 1) ks = (result1, misses1)" by force
  have IH: "foldl (\<lambda>r ((j, _), v). r[j := v]) ((pre @ [x]) @ result1) (zip misses1 (map (\<lambda>e. m (snd e)) misses1))
      = (pre @ [x]) @ map (txn_view tx m) ks" for x
    using Cons.IH [OF rest, of "pre @ [x]"] Cons.prems(2) by simp
  show ?case
    using Cons.prems rest IH txn_view_apply [OF assms(3), of m k]
    by (auto simp: list_update_append split: if_splits option.splits)
qed simp

context redb_laws
begin

lemma multi_get_view: "snapshot_multi_get R t ks = Inr vs \<Longrightarrow> vs = map (view t) ks"
  by (induction ks arbitrary: vs) (auto simp: result_simps dest!: get)

lemma txn_get_view:
  assumes "txn_inv tx" and "txn_get R key tx = (tx', Inr v)"
  shows "v = txn_view tx (view (tx_snapshot tx)) key"
  using assms txn_view_apply [OF assms(1), of "view (tx_snapshot tx)" key]
  by (auto simp: txn_get_def snapshot_get_def Let_def result_simps split: if_splits option.splits dest!: get)

lemma txn_multi_get_view:
  assumes "txn_inv tx" and "txn_multi_get R keys tx = (tx', Inr vs)"
  shows "vs = map (txn_view tx (view (tx_snapshot tx))) keys"
proof -
  obtain result misses where resolve: "resolve tx 0 keys = (result, misses)" by force
  with assms(2) obtain fetched where "snapshot_multi_get R (tx_snapshot tx) (map snd misses) = Inr fetched"
    and "vs = foldl (\<lambda>r ((i, _), v). r[i := v]) result (zip misses fetched)"
    by (auto simp: txn_multi_get_def Let_def bindE_eq_Inr)
  with multi_get_view have "vs = foldl (\<lambda>r ((i, _), v). r[i := v]) result
      (zip misses (map (\<lambda>e. view (tx_snapshot tx) (snd e)) misses))"
    by (fastforce simp: comp_def)
  with resolve_fill [OF resolve _ assms(1), of "[]" "view (tx_snapshot tx)"] show ?thesis by simp
qed

lemma push_limited_fold:
  "foldE_until (push_limited limit) acc (map Inr es) = Inr (acc @ take (max 1 (limit - length acc)) es)"
proof (induction es arbitrary: acc)
  case (Cons e es)
  show ?case
  proof (cases "limit \<le> Suc (length acc)")
    case True
    then have "max 1 (limit - length acc) = 1" by auto
    with True show ?thesis by (simp add: push_limited_def Let_def)
  next
    case False
    then have "max 1 (limit - length acc) = Suc (max 1 (limit - length (acc @ [e])))" by (auto simp: max_def)
    with False show ?thesis using Cons.IH [of "acc @ [e]"] by (simp add: push_limited_def Let_def)
  qed
qed simp

lemma snapshot_scan_range_view:
  assumes "snapshot_scan_range R t lo hi limit = Inr out"
  shows "\<exists>es. is_range (view t) lo hi es \<and> out = take (max 1 limit) es"
proof -
  from assms obtain items where items: "rb_range R t lo hi = Inr items"
    and out: "foldE_until (push_limited limit) [] items = Inr out"
    by (auto simp: snapshot_scan_range_def result_simps)
  from range [OF items] obtain es where es: "is_range (view t) lo hi es" "range_items es items" by blast
  have "foldE_until (push_limited limit) [] (map Inr es) = Inr out"
    by (rule foldE_until_range_items [OF es(2) _ out]) (simp add: push_limited_def)
  with es(1) show ?thesis by (auto simp: push_limited_fold)
qed

end

subsection \<open>Merging the overlay into a scan\<close>

lemma overlay_range_filter:
  assumes "sorted_wrt (\<lambda>x y. key x < key y) es"
  shows "overlay_range lo hi key es = filter (\<lambda>e. in_range lo hi (key e)) es"
proof -
  have "dropWhile (\<lambda>e. key e < lo) es = filter (\<lambda>e. lo \<le> key e) es"
    using assms
  proof (induction es)
    case (Cons e es)
    show ?case
    proof (cases "key e < lo")
      case True
      with Cons show ?thesis by simp
    next
      case False
      with Cons.prems have "\<forall>x \<in> set es. lo \<le> key x" by (auto intro: order_trans less_imp_le)
      with False show ?thesis by (simp add: filter_id_conv)
    qed
  qed simp
  moreover have "takeWhile (\<lambda>e. in_range lo hi (key e)) (filter (\<lambda>e. lo \<le> key e) es)
      = filter (\<lambda>e. in_range lo hi (key e)) (filter (\<lambda>e. lo \<le> key e) es)"
  proof (rule takeWhile_filter_sorted)
    have "sorted_wrt (\<lambda>x y. key x < key y) (filter (\<lambda>e. lo \<le> key e) es)"
      using assms by (rule sorted_wrt_filter)
    then show "sorted_wrt (\<lambda>x y. in_range lo hi (key y) \<longrightarrow> in_range lo hi (key x)) (filter (\<lambda>e. lo \<le> key e) es)"
      by (rule sorted_wrt_mono_rel [rotated]) (auto simp: in_range_def split: option.splits)
  qed
  ultimately show ?thesis
    by (auto simp: overlay_range_def in_range_def intro!: filter_cong)
qed

definition overlay_step :: "kv list \<Rightarrow> bytes \<times> bytes option \<Rightarrow> kv list" where
  "overlay_step m e = (case snd e of Some v \<Rightarrow> bt_insert (fst e) v m | None \<Rightarrow> bt_remove (fst e) m)"

lemma overlay_steps:
  "bt_sorted m \<Longrightarrow> bt_sorted (foldl overlay_step m os)
     \<and> map_of (foldl overlay_step m os) = foldl (\<lambda>f e. f(fst e := snd e)) (map_of m) os"
proof (induction os arbitrary: m)
  case (Cons e os)
  have "bt_sorted (overlay_step m e)" "map_of (overlay_step m e) = (map_of m)(fst e := snd e)"
    using Cons.prems by (auto simp: overlay_step_def split: option.split)
  with Cons.IH [of "overlay_step m e"] show ?case by simp
qed simp

lemma foldl_bt_insert_sorted:
  fixes es :: "kv list"
  assumes "bt_sorted es"
  shows "foldl (\<lambda>m (k, v). bt_insert k v m) [] es = es"
proof (rule bt_sorted_eqI [OF _ assms])
  have "bt_sorted (foldl (\<lambda>m (k, v). bt_insert k v m) m es) \<and>
      map_of (foldl (\<lambda>m (k, v). bt_insert k v m) m es) = put_map (map_of m) es" if "bt_sorted m" for m :: "kv list"
    using that by (induction es arbitrary: m) (auto simp: put_map_def)
  from this [of "[]"] show "bt_sorted (foldl (\<lambda>m (k, v). bt_insert k v m) [] es)"
    "map_of (foldl (\<lambda>m (k, v). bt_insert k v m) [] es) = map_of es"
    using map_of_rev_sorted [OF assms] by (auto simp: fun_eq_iff put_map_apply split: option.split)
qed

lemma map_of_filter_keys: "map_of (filter (\<lambda>e. P (fst e)) es) k = (if P k then map_of es k else None)"
  by (induction es) auto

lemma overlay_entries_map:
  assumes "txn_inv tx"
  shows "foldl (\<lambda>f e. f(fst e := snd e)) f (overlay_entries lo hi tx) k
    = (if in_range lo hi k then (if k \<in> set (tx_deletes tx) then None
         else case map_of (tx_puts tx) k of Some v \<Rightarrow> Some v | None \<Rightarrow> f k) else f k)"
proof -
  let ?puts = "filter (\<lambda>e. in_range lo hi (fst e)) (tx_puts tx)"
  let ?dels = "filter (\<lambda>k. in_range lo hi k) (tx_deletes tx)"
  have sorted: "bt_sorted (tx_puts tx)" "bs_sorted (tx_deletes tx)" using assms by (auto simp: txn_inv_def)
  then have "sorted_wrt (\<lambda>x y. fst x < fst y) (tx_puts tx)" "sorted_wrt (\<lambda>x y. id x < id y) (tx_deletes tx)"
    by (simp_all add: sorted_wrt_map)
  then have entries: "overlay_entries lo hi tx = map (\<lambda>e. (fst e, Some (snd e))) ?puts @ map (\<lambda>k. (k, None)) ?dels"
    by (simp add: overlay_entries_def overlay_range_filter)
  have puts: "foldl (\<lambda>f e. f(fst e := snd e)) f (map (\<lambda>e. (fst e, Some (snd e))) es) = put_map f es" for f es
    by (induction es arbitrary: f) auto
  have dels: "foldl (\<lambda>f e. f(fst e := snd e)) f (map (\<lambda>k. (k, None)) ks) = del_map f ks" for f ks
    by (induction ks arbitrary: f) (auto simp: del_map_def)
  have "bt_sorted ?puts" using sorted(1) by (simp add: sorted_wrt_map sorted_wrt_filter)
  then show ?thesis
    by (auto simp: entries puts dels del_map_apply put_map_apply map_of_rev_sorted
        map_of_filter_keys split: option.split)
qed

lemma merge_steps:
  assumes "bt_sorted committed"
  shows "merge committed overlay limit = take limit (foldl overlay_step committed overlay)"
  unfolding merge_def foldl_bt_insert_sorted [OF assms]
  by (rule arg_cong [of _ _ "take limit"], rule foldl_cong) (auto simp: overlay_step_def split: option.split)

lemma is_range_map:
  assumes "is_range m lo hi es"
  shows "map_of es k = (if in_range lo hi k then m k else None)"
proof -
  from assms have "distinct (map fst es)" by (simp add: is_range_def sorted_wrt_map_fst_distinct)
  then have "map_of es k = Some v \<longleftrightarrow> (k, v) \<in> set es" for v by simp
  moreover have "(k, v) \<in> set es \<longleftrightarrow> (if in_range lo hi k then m k else None) = Some v" for v
    using assms by (simp add: is_range_def)
  ultimately show ?thesis by (metis option.exhaust)
qed

lemma is_rangeI:
  assumes "bt_sorted es" and "\<And>k. map_of es k = (if in_range lo hi k then m k else None)"
  shows "is_range m lo hi es"
proof -
  have "(k, v) \<in> set es \<longleftrightarrow> m k = Some v \<and> in_range lo hi k" for k v
    using assms(2) [of k] map_of_eq_Some_iff [OF sorted_wrt_map_fst_distinct [OF assms(1)], of k v]
    by (auto split: if_splits)
  with assms(1) show ?thesis by (auto simp: is_range_def)
qed

lemma overlay_range_view:
  assumes "txn_inv tx" and "is_range m lo hi es"
  shows "is_range (txn_view tx m) lo hi (foldl overlay_step es (overlay_entries lo hi tx))"
  using assms overlay_steps [of es "overlay_entries lo hi tx"]
  by (intro is_rangeI)
    (auto simp: is_range_def overlay_entries_map txn_view_apply is_range_map [OF assms(2)] split: option.split)

lemma take_le_eq:
  assumes "take n xs = take n ys" and "m \<le> n"
  shows "take m xs = take m ys"
  using arg_cong [OF assms(1), of "take m"] assms(2) by (simp add: min_absorb1)

lemma take_bt_insert:
  "take n xs = take n ys \<Longrightarrow> take n (bt_insert k v xs) = take n (bt_insert k v ys)"
proof (induction xs arbitrary: n ys)
  case Nil
  then show ?case by (cases n; cases ys) auto
next
  case (Cons x xs)
  show ?case
  proof (cases n)
    case (Suc n')
    with Cons.prems obtain ys' where "ys = x # ys'" "take n' xs = take n' ys'" by (cases ys) auto
    with Suc Cons.IH [of n' ys'] take_le_eq [of "n'" xs ys' "n' - 1"] show ?thesis
      by (cases n') auto
  qed simp
qed

lemma take_overlay_puts:
  assumes "take n xs = take n ys" and "\<forall>e \<in> set os. snd e \<noteq> None"
  shows "take n (foldl overlay_step xs os) = take n (foldl overlay_step ys os)"
  using assms
proof (induction os arbitrary: xs ys)
  case (Cons e os)
  then obtain v where "snd e = Some v" by auto
  with take_bt_insert [OF Cons.prems(1)] have "take n (overlay_step xs e) = take n (overlay_step ys e)"
    by (simp add: overlay_step_def)
  with Cons.IH [of "overlay_step xs e" "overlay_step ys e"] Cons.prems(2) show ?case by simp
qed simp

context redb_laws
begin

lemma txn_scan_range_merge:
  assumes "txn_inv tx" and "txn_scan_range R lo hi limit tx = (tx', Inr out)"
    and "is_range (view (tx_snapshot tx)) lo hi es"
  shows "out = take limit (foldl overlay_step (take (max 1 limit) es) (overlay_entries lo hi tx))"
proof -
  from assms(2) obtain committed where "snapshot_scan_range R (tx_snapshot tx) lo hi limit = Inr committed"
    and out: "out = merge committed (overlay_entries lo hi tx) limit"
    by (auto simp: txn_scan_range_def Let_def bindE_eq_Inr)
  from snapshot_scan_range_view [OF this(1)] obtain es' where
    "is_range (view (tx_snapshot tx)) lo hi es'" "committed = take (max 1 limit) es'" by blast
  with is_range_unique [OF assms(3), of es'] have "committed = take (max 1 limit) es" by simp
  moreover have "bt_sorted (take (max 1 limit) es)"
    using assms(3) by (simp add: is_range_def sorted_wrt_take flip: take_map)
  ultimately show ?thesis by (simp add: out merge_steps)
qed

lemma txn_scan_range_exact:
  assumes "txn_inv tx" and "txn_scan_range R lo hi limit tx = (tx', Inr out)"
    and "is_range (view (tx_snapshot tx)) lo hi es" and "is_range (txn_view tx (view (tx_snapshot tx))) lo hi E"
    and "length es \<le> limit \<or> (\<forall>k \<in> set (tx_deletes tx). \<not> in_range lo hi k)"
  shows "out = take limit E"
proof -
  have E: "E = foldl overlay_step es (overlay_entries lo hi tx)"
    using overlay_range_view [OF assms(1,3)] assms(4) is_range_unique by blast
  note out = txn_scan_range_merge [OF assms(1,2,3)]
  from assms(5) show ?thesis
  proof
    assume "length es \<le> limit"
    then show ?thesis by (simp add: out E)
  next
    assume none: "\<forall>k \<in> set (tx_deletes tx). \<not> in_range lo hi k"
    have "sorted_wrt (\<lambda>x y. id x < id y) (tx_deletes tx)" using assms(1) by (simp add: txn_inv_def)
    with none have "\<forall>e \<in> set (overlay_entries lo hi tx). snd e \<noteq> None"
      by (auto simp: overlay_entries_def overlay_range_filter)
    moreover have "take limit (take (max 1 limit) es) = take limit es" by (simp add: min_def)
    ultimately show ?thesis unfolding out E by (intro take_overlay_puts)
  qed
qed

lemma txn_scan_range_hidden:
  assumes "txn_inv tx" and "txn_scan_range R lo hi limit tx = (tx', Inr out)"
    and "is_range (view (tx_snapshot tx)) lo hi es" and "1 \<le> limit"
    and "fst ` set (take limit es) \<subseteq> set (tx_deletes tx)"
    and "\<forall>k \<in> fst ` set (tx_puts tx). \<not> in_range lo hi k"
  shows "out = []"
proof -
  let ?w = "take limit es"
  let ?m = "foldl overlay_step ?w (overlay_entries lo hi tx)"
  have "bt_sorted ?w" using assms(3) by (simp add: is_range_def sorted_wrt_take flip: take_map)
  then have map: "map_of ?m = foldl (\<lambda>f e. f(fst e := snd e)) (map_of ?w) (overlay_entries lo hi tx)"
    using overlay_steps by blast
  have inside: "map_of ?w k = None \<or> in_range lo hi k \<and> k \<in> set (tx_deletes tx)" for k
    using assms(3,5) by (cases "map_of ?w k") (auto simp: is_range_def dest!: map_of_SomeD dest: in_set_takeD)
  have "map_of (tx_puts tx) k = None" if "in_range lo hi k" for k
    using that assms(6) unfolding map_of_eq_None_iff by blast
  with inside have "map_of ?m k = None" for k
    by (auto simp: map overlay_entries_map [OF assms(1)])
  then have "map_of ?m = Map.empty" by (rule ext)
  then have "?m = []" by (rule map_of_eq_empty_iff [THEN iffD1])
  with txn_scan_range_merge [OF assms(1-3)] assms(4) show ?thesis by simp
qed

end

subsection \<open>Validation at commit\<close>

lemma coalesce_step_snoc:
  "coalesce_step (ms @ [p]) rng = ms @ [p, rng] \<or>
   (\<exists>e. coalesce_step (ms @ [p]) rng = ms @ [(fst p, e)]
      \<and> (\<forall>k. in_range (fst p) (snd p) k \<longrightarrow> in_range (fst p) e k)
      \<and> (\<forall>k. fst p \<le> fst rng \<longrightarrow> in_range (fst rng) (snd rng) k \<longrightarrow> in_range (fst p) e k))"
  by (cases p; cases rng; cases "snd p"; cases "snd rng")
    (auto simp: coalesce_step_def in_range_def)

lemma coalesce_step_covers:
  assumes "\<exists>r \<in> set merged. in_range (fst r) (snd r) k"
  shows "\<exists>r \<in> set (coalesce_step merged rng). in_range (fst r) (snd r) k"
proof (cases merged rule: rev_cases)
  case (snoc ms p)
  with assms coalesce_step_snoc [of ms p rng] show ?thesis by fastforce
qed (use assms in simp)

lemma coalesce_step_covers_new:
  assumes "\<forall>r \<in> set merged. fst r \<le> fst rng" and "in_range (fst rng) (snd rng) k"
  shows "\<exists>r \<in> set (coalesce_step merged rng). in_range (fst r) (snd r) k"
proof (cases merged rule: rev_cases)
  case (snoc ms p)
  with assms coalesce_step_snoc [of ms p rng] show ?thesis by fastforce
qed (use assms in \<open>simp add: coalesce_step_def\<close>)

lemma coalesce_step_starts: "fst ` set (coalesce_step merged rng) \<subseteq> insert (fst rng) (fst ` set merged)"
  by (cases merged rule: rev_cases) (auto simp: coalesce_step_def Let_def split: prod.splits if_splits)

lemma coalesce_fold_covers:
  assumes "sorted (map fst rs)" and "\<forall>m \<in> set merged. \<forall>r \<in> set rs. fst m \<le> fst r"
    and "\<exists>r \<in> set merged \<union> set rs. in_range (fst r) (snd r) k"
  shows "\<exists>r \<in> set (foldl coalesce_step merged rs). in_range (fst r) (snd r) k"
  using assms
proof (induction rs arbitrary: merged)
  case (Cons rng rs)
  let ?next = "coalesce_step merged rng"
  from Cons.prems have "\<forall>r \<in> set merged. fst r \<le> fst rng" by simp
  with Cons.prems(3) have "\<exists>r \<in> set ?next \<union> set rs. in_range (fst r) (snd r) k"
    using coalesce_step_covers [of merged k rng] coalesce_step_covers_new [of merged rng k] by fastforce
  moreover have "\<forall>m \<in> set ?next. \<forall>r \<in> set rs. fst m \<le> fst r"
    using Cons.prems(1,2) coalesce_step_starts [of merged rng] by fastforce
  ultimately show ?case using Cons.IH [of ?next] Cons.prems(1) by simp
qed simp

lemma coalesce_covers:
  "(lo, hi) \<in> set ranges \<Longrightarrow> in_range lo hi k \<Longrightarrow> \<exists>r \<in> set (coalesce_ranges ranges). in_range (fst r) (snd r) k"
  unfolding coalesce_ranges_def by (rule coalesce_fold_covers) force+

lemma foldl_bs_insert_set: "set (foldl (\<lambda>s k. bs_insert k s) s ks) = set s \<union> set ks"
  by (induction ks arbitrary: s) auto

lemma commit_keys_set:
  "set (commit_keys tx ranges) =
     {k \<in> fst ` set (tx_puts tx) \<union> set (tx_deletes tx). \<not> is_meta k \<and> \<not> range_covers (tx_serializable tx) ranges k}
     \<union> set (tx_locked tx) \<union> {k. tx_serializable tx \<and> k \<in> set (tx_reads tx) \<and> \<not> is_meta k}"
  by (auto simp: commit_keys_def Let_def foldl_bs_insert_set)

context redb_laws
begin

lemma range_snapshots_view:
  assumes "range_snapshots R t cap ranges = Inr snaps" and "cap < USIZE_MAX"
  shows "\<forall>r \<in> set ranges. \<exists>sn \<in> set snaps.
    rs_start sn = fst r \<and> rs_end sn = snd r \<and> is_range (view t) (fst r) (snd r) (rs_content sn)"
  using assms(1)
proof (induction ranges arbitrary: snaps)
  case (Cons rng ranges)
  obtain lo hi where rng: "rng = (lo, hi)" by force
  with Cons.prems obtain content rest where
    scan: "snapshot_scan_range R t lo hi (saturating_succ cap) = Inr content" and "length content \<le> cap"
    and "range_snapshots R t cap ranges = Inr rest"
    and "snaps = \<lparr>rs_start = lo, rs_end = hi, rs_content = content\<rparr> # rest"
    by (auto simp: bindE_eq_Inr split: if_splits)
  moreover from snapshot_scan_range_view [OF scan] obtain es where
    "is_range (view t) lo hi es" "content = take (max 1 (saturating_succ cap)) es" by blast
  moreover from calculation assms(2) have "content = es"
    by (auto simp: saturating_succ_def min_def max_def split: if_splits)
  ultimately show ?case using Cons.IH rng by simp
qed simp

lemma commit_validation_sound:
  assumes "commit_validation R cap tx = Inr v" and "cap < USIZE_MAX"
    and "keys_valid m (va_keys v)" and "ranges_valid m (va_ranges v)"
  defines "m0 \<equiv> view (tx_snapshot tx)"
  shows "\<forall>k \<in> fst ` set (tx_puts tx) \<union> set (tx_deletes tx). is_meta k \<or> m k = m0 k"
    and "\<forall>k \<in> set (tx_locked tx). m k = m0 k"
    and "tx_serializable tx \<Longrightarrow> k \<in> set (tx_reads tx) \<Longrightarrow> is_meta k \<or> m k = m0 k"
    and "tx_serializable tx \<Longrightarrow> (lo, hi) \<in> set (tx_ranges tx) \<Longrightarrow> in_range lo hi k \<Longrightarrow> m k = m0 k"
proof -
  let ?ranges = "if tx_serializable tx then coalesce_ranges (tx_ranges tx) else tx_ranges tx"
  let ?keys = "commit_keys tx ?ranges"
  from assms(1) obtain vals snaps where vals: "snapshot_multi_get R (tx_snapshot tx) ?keys = Inr vals"
    and snaps: "(if tx_serializable tx then range_snapshots R (tx_snapshot tx) cap ?ranges else Inr []) = Inr snaps"
    and v: "v = \<lparr>va_keys = zip ?keys vals, va_ranges = snaps\<rparr>"
    by (auto simp: commit_validation_def Let_def bindE_eq_Inr)
  have "vals = map m0 ?keys" using multi_get_view [OF vals] by (simp add: m0_def)
  with assms(3) v have keys: "k \<in> set ?keys \<Longrightarrow> m k = m0 k" for k
    by (auto simp: keys_valid_def zip_map2 zip_same_conv_map)
  have ranges: "m k = m0 k"
    if "tx_serializable tx" "r \<in> set ?ranges" "in_range (fst r) (snd r) k" for r k
  proof -
    from snaps that(1) have "range_snapshots R (tx_snapshot tx) cap ?ranges = Inr snaps" by simp
    from range_snapshots_view [OF this assms(2)] that(2) obtain sn where
      "sn \<in> set snaps" "rs_start sn = fst r" "rs_end sn = snd r" "is_range m0 (fst r) (snd r) (rs_content sn)"
      by (auto simp: m0_def)
    with assms(4) v have "is_range m (fst r) (snd r) (rs_content sn)" "is_range m0 (fst r) (snd r) (rs_content sn)"
      by (auto simp: ranges_valid_def)
    with is_range_map [of m] is_range_map [of m0] that(3) show ?thesis by metis
  qed
  show "\<forall>k \<in> fst ` set (tx_puts tx) \<union> set (tx_deletes tx). is_meta k \<or> m k = m0 k"
    using keys ranges unfolding commit_keys_set range_covers_def by fastforce
  show "\<forall>k \<in> set (tx_locked tx). m k = m0 k"
    using keys by (auto simp: commit_keys_set)
  show "tx_serializable tx \<Longrightarrow> k \<in> set (tx_reads tx) \<Longrightarrow> is_meta k \<or> m k = m0 k"
    using keys by (auto simp: commit_keys_set)
  show "tx_serializable tx \<Longrightarrow> (lo, hi) \<in> set (tx_ranges tx) \<Longrightarrow> in_range lo hi k \<Longrightarrow> m k = m0 k"
    using ranges coalesce_covers by fastforce
qed

end

subsection \<open>Properties of reads, scans and commits\<close>

text \<open>
  C12. A transaction reads its own writes over a fixed snapshot. In any reachable state of a
  transaction, after a write that was accepted, \<open>get\<close> and \<open>multi_get\<close> return the values the
  written keyspace has: what the transaction saw before, with the deletes and the puts of the
  write applied. What other sessions commit meanwhile plays no part.
\<close>

theorem read_your_writes:
  assumes "redb_laws R contents view"
    and "begun tx0" and "(txn_op R)\<^sup>*\<^sup>* tx0 tx"
    and "stage_write budget puts deletes tx = (tx1, Inr ())"
    and "txn_get R key tx1 = (tx2, Inr v)" and "txn_multi_get R keys tx1 = (tx3, Inr vs)"
  shows "v = apply_map (txn_view tx (view (tx_snapshot tx))) puts deletes key
    \<and> vs = map (apply_map (txn_view tx (view (tx_snapshot tx))) puts deletes) keys"
proof -
  have "txn_inv tx" using txn_reachable_inv [OF assms(3,2)] by simp
  note after = stage_write_view [OF this assms(4)]
  then have "txn_inv tx1" by simp
  with after redb_laws.txn_get_view [OF assms(1) _ assms(5)] redb_laws.txn_multi_get_view [OF assms(1) _ assms(6)]
  show ?thesis by simp
qed

theorem read_your_writes_witness:
  "map (apply_map (txn_view ex_staged (map_of (tx_snapshot ex_staged))) [([4], [44])] [[3]]) [[3], [4], [1], [2]]
    = [None, Some [44], Some [11], None]"
proof -
  let ?w = "stage_write 1000 [([4], [44])] [[3]] ex_staged"
  let ?g = "txn_get ref_redb [4] (fst ?w)" and ?m = "txn_multi_get ref_redb [[3], [4], [1], [2]] (fst ?w)"
  have "snd ?w = Inr ()" "snd ?g = Inr (Some [44])" "snd ?m = Inr [None, Some [44], Some [11], None]"
    by code_simp+
  then have "?w = (fst ?w, Inr ())" "?g = (fst ?g, Inr (Some [44]))"
    "?m = (fst ?m, Inr [None, Some [44], Some [11], None])"
    by (metis prod.collapse)+
  from read_your_writes [OF ref.redb_laws_axioms ex_staged_reachable this] show ?thesis by simp
qed






text \<open>
  C14. A scan inside a transaction is the scan of the transaction's view. \<open>scan_range\<close> returns
  the first \<open>limit\<close> entries, in key order, of the keyspace the transaction sees, if the
  committed rows of the range fit into the window it fetches or if the transaction has deleted
  no key of the range.
\<close>

theorem scan_range_view:
  assumes "redb_laws R contents view"
    and "begun tx0" and "(txn_op R)\<^sup>*\<^sup>* tx0 tx"
    and "txn_scan_range R lo hi limit tx = (tx', Inr out)"
    and "is_range (view (tx_snapshot tx)) lo hi es"
    and "is_range (txn_view tx (view (tx_snapshot tx))) lo hi E"
    and "length es \<le> limit \<or> (\<forall>k \<in> set (tx_deletes tx). \<not> in_range lo hi k)"
  shows "out = take limit E"
  using redb_laws.txn_scan_range_exact [OF assms(1) _ assms(4-7)] txn_reachable_inv [OF assms(3,2)] by simp

theorem scan_range_view_witness:
  "snd (txn_scan_range ref_redb [1] None 3 ex_staged) = Inr (take 3 [([1], [11]), ([3], [30])])"
proof -
  let ?run = "txn_scan_range ref_redb [1] None 3 ex_staged"
  have res: "snd ?run = Inr [([1], [11]), ([3], [30])]" by code_simp
  then have run: "?run = (fst ?run, Inr [([1], [11]), ([3], [30])])" by (metis prod.collapse)
  have snap: "tx_snapshot ex_staged = [([1], [10]), ([2], [20]), ([3], [30])]" by code_simp
  have es: "is_range (map_of (tx_snapshot ex_staged)) [1] None [([1], [10]), ([2], [20]), ([3], [30])]"
    unfolding snap by (rule is_rangeI) (auto simp: in_range_def)
  have "txn_inv ex_staged" using txn_reachable_inv ex_staged_reachable by blast
  note E = overlay_range_view [OF this es]
  have "foldl overlay_step [([1], [10]), ([2], [20]), ([3], [30])] (overlay_entries [1] None ex_staged)
      = [([1], [11]), ([3], [30])]" by code_simp
  with E have "is_range (txn_view ex_staged (map_of (tx_snapshot ex_staged))) [1] None [([1], [11]), ([3], [30])]"
    by simp
  from scan_range_view [OF ref.redb_laws_axioms ex_staged_reachable run es this] res show ?thesis by simp
qed

text \<open>
  C15. The window of a scan can hide rows. When the transaction has deleted every one of the
  first \<open>limit\<close> committed rows of a range and put nothing into it, \<open>scan_range\<close> returns no row
  at all, although the transaction still sees the row \<open>(k, v)\<close> further on. A caller that stops
  at an empty or short batch misses it.
\<close>

theorem scan_window_misses_rows:
  assumes "redb_laws R contents view"
    and "begun tx0" and "(txn_op R)\<^sup>*\<^sup>* tx0 tx"
    and "txn_scan_range R lo hi limit tx = (tx', Inr out)" and "1 \<le> limit"
    and "is_range (view (tx_snapshot tx)) lo hi es"
    and "fst ` set (take limit es) \<subseteq> set (tx_deletes tx)"
    and "\<forall>k \<in> fst ` set (tx_puts tx). \<not> in_range lo hi k"
    and "(k, v) \<in> set es" and "k \<notin> set (tx_deletes tx)"
  shows "out = [] \<and> in_range lo hi k \<and> txn_view tx (view (tx_snapshot tx)) k = Some v"
proof -
  have inv: "txn_inv tx" using txn_reachable_inv [OF assms(3,2)] by simp
  have "in_range lo hi k" "view (tx_snapshot tx) k = Some v" using assms(6,9) by (auto simp: is_range_def)
  moreover from this(1) assms(8) have "map_of (tx_puts tx) k = None" unfolding map_of_eq_None_iff by blast
  ultimately show ?thesis
    using redb_laws.txn_scan_range_hidden [OF assms(1) inv assms(4,6,5,7,8)] assms(10)
    by (simp add: txn_view_apply [OF inv])
qed

definition ex_deleted :: "kv list TxnState" where
  "ex_deleted = fst (stage_write 1000 [] [[1], [2]] ex_txn)"

theorem scan_window_misses_rows_witness:
  "snd (txn_scan_range ref_redb [] None 2 ex_deleted) = Inr []
    \<and> txn_view ex_deleted (map_of (tx_snapshot ex_deleted)) [3] = Some [30]"
proof -
  let ?run = "txn_scan_range ref_redb [] None 2 ex_deleted" and ?es = "[([1], [10]), ([2], [20]), ([3], [30])] :: kv list"
  have res: "snd ?run = Inr []" by code_simp
  then have run: "?run = (fst ?run, Inr [])" by (metis prod.collapse)
  have snap: "tx_snapshot ex_deleted = ?es" "tx_deletes ex_deleted = [[1], [2]]" "tx_puts ex_deleted = []"
    by code_simp+
  have es: "is_range (map_of (tx_snapshot ex_deleted)) [] None ?es"
    unfolding snap by (rule is_rangeI) (auto simp: in_range_def)
  have "txn_op ref_redb ex_txn ex_deleted"
    unfolding ex_deleted_def by (rule op_write) (rule prod.collapse [symmetric])
  then have "(txn_op ref_redb)\<^sup>*\<^sup>* ex_txn ex_deleted" by blast
  moreover have "fst ` set (take 2 ?es) \<subseteq> set (tx_deletes ex_deleted)" "[3] \<notin> set (tx_deletes ex_deleted)"
    "\<forall>k \<in> fst ` set (tx_puts ex_deleted). \<not> in_range [] None k" "(1 :: nat) \<le> 2" "([3], [30]) \<in> set ?es"
    by (simp_all add: snap)
  ultimately show ?thesis
    using scan_window_misses_rows [OF ref.redb_laws_axioms ex_staged_reachable(1) _ run _ es, of "[3]" "[30]"] res
    by blast
qed

subsection \<open>The access mode and the handlers outside a transaction\<close>

lemma first_under_iff:
  assumes "bs_sorted keys"
  shows "first_under prefix keys \<longleftrightarrow> (\<exists>k \<in> set keys. starts_with k prefix)"
  using assms
proof (induction keys)
  case (Cons k keys)
  have above: "prefix \<le> x" if "starts_with x prefix" for x
    using that by (auto simp: starts_with_iff)
  show ?case
  proof (cases "k < prefix")
    case True
    with above have "\<not> starts_with k prefix" by force
    with True Cons show ?thesis by (simp add: first_under_def)
  next
    case False
    have "starts_with k prefix" if "x \<in> set keys" "starts_with x prefix" for x
      using starts_with_mono [of prefix k x] Cons.prems False that by (auto simp: not_less less_imp_le)
    with False show ?thesis by (auto simp: first_under_def)
  qed
qed (simp add: first_under_def)

end
