(* ===== verification/Lock_Manager.thy ===== *)
theory Lock_Manager
  imports Errors "HOL-Library.Multiset"
begin

section \<open>Table locks\<close>

text \<open>
  \<open>crates/elyra-engine/src/lockmgr.rs\<close> with the parts of \<open>session.rs\<close> (\<open>lock_tables\<close>,
  \<open>unlock_tables\<close>, \<open>held_lock\<close>) and of the engine's \<open>lib.rs\<close> (\<open>strongest_locks\<close>,
  \<open>check_own_locks\<close>, \<open>transient_locks\<close>, \<open>lock_trigger_table\<close>) that drive it. The manager's
  hash map is a map; the guards alive in all sessions are the ghost state of a step relation
  in which taking a lock and counting it, and giving a lock back and uncounting it, are
  separate steps, as they are in the code.
\<close>

subsection \<open>The manager\<close>

datatype LockMode = Shared | Exclusive

record TableState =
  ts_readers :: nat
  ts_writer :: bool

record LockManager =
  lm_tables :: "string \<rightharpoonup> TableState"
  lm_explicit :: nat

record LockGuard =
  lg_table :: string
  lg_mode :: LockMode
  lg_explicit :: bool

definition lock_manager_new :: LockManager where
  "lock_manager_new = \<lparr>lm_tables = Map.empty, lm_explicit = 0\<rparr>"

definition explicit_active :: "LockManager \<Rightarrow> bool" where
  "explicit_active lm \<longleftrightarrow> lm_explicit lm > 0"

definition entry_or_default :: "TableState option \<Rightarrow> TableState" where
  "entry_or_default e = (case e of Some st \<Rightarrow> st | None \<Rightarrow> \<lparr>ts_readers = 0, ts_writer = False\<rparr>)"

definition try_take :: "string \<Rightarrow> LockMode \<Rightarrow> LockManager \<Rightarrow> LockManager \<times> bool" where
  "try_take table mode lm =
     (let st = entry_or_default (lm_tables lm table);
          ok = (case mode of
                  Shared \<Rightarrow> \<not> ts_writer st
                | Exclusive \<Rightarrow> \<not> ts_writer st \<and> ts_readers st = 0);
          st' = (if ok then (case mode of
                    Shared \<Rightarrow> st\<lparr>ts_readers := ts_readers st + 1\<rparr>
                  | Exclusive \<Rightarrow> st\<lparr>ts_writer := True\<rparr>) else st)
      in (lm\<lparr>lm_tables := (lm_tables lm)(table \<mapsto> st')\<rparr>, ok))"

definition give_back :: "string \<Rightarrow> LockMode \<Rightarrow> LockManager \<Rightarrow> LockManager" where
  "give_back table mode lm =
     (case lm_tables lm table of
        None \<Rightarrow> lm
      | Some st \<Rightarrow>
          (let st' = (case mode of
                        Shared \<Rightarrow> st\<lparr>ts_readers := ts_readers st - 1\<rparr>
                      | Exclusive \<Rightarrow> st\<lparr>ts_writer := False\<rparr>)
           in lm\<lparr>lm_tables := (lm_tables lm)(table :=
                (if \<not> ts_writer st' \<and> ts_readers st' = 0 then None else Some st'))\<rparr>))"

definition count_explicit :: "bool \<Rightarrow> LockManager \<Rightarrow> LockManager" where
  "count_explicit explicit lm = (if explicit then lm\<lparr>lm_explicit := lm_explicit lm + 1\<rparr> else lm)"

definition uncount_explicit :: "bool \<Rightarrow> LockManager \<Rightarrow> LockManager" where
  "uncount_explicit explicit lm = (if explicit then lm\<lparr>lm_explicit := lm_explicit lm - 1\<rparr> else lm)"

definition drop_guard :: "LockGuard \<Rightarrow> LockManager \<Rightarrow> LockManager" where
  "drop_guard g lm = uncount_explicit (lg_explicit g) (give_back (lg_table g) (lg_mode g) lm)"

definition lock_wait_timeout :: Error where
  "lock_wait_timeout = Query ''Lock wait timeout exceeded; try restarting transaction''"

text \<open>
  The loop of \<open>acquire\<close>. Each turn is one element of \<open>polls\<close>: the clock the turn reads, and
  what the other sessions do to the manager while it sleeps. The result is \<open>None\<close> while the
  loop has not returned within the turns given.
\<close>

fun acquire ::
  "string \<Rightarrow> LockMode \<Rightarrow> bool \<Rightarrow> nat \<Rightarrow> (nat \<times> (LockManager \<Rightarrow> LockManager)) list \<Rightarrow> LockManager
     \<Rightarrow> LockManager \<times> (Error + LockGuard) option" where
  "acquire table mode explicit deadline [] lm = (lm, None)"
| "acquire table mode explicit deadline ((now, others) # polls) lm =
     (let (lm1, ok) = try_take table mode lm in
      if ok then
        (count_explicit explicit lm1,
         Some (Inr \<lparr>lg_table = table, lg_mode = mode, lg_explicit = explicit\<rparr>))
      else if now \<ge> deadline then (lm1, Some (Inl lock_wait_timeout))
      else acquire table mode explicit deadline polls (others lm1))"

definition LOCK_WAIT :: nat where
  "LOCK_WAIT = 10000"

definition transient ::
  "string \<Rightarrow> LockMode \<Rightarrow> nat \<Rightarrow> (nat \<times> (LockManager \<Rightarrow> LockManager)) list \<Rightarrow> LockManager
     \<Rightarrow> LockManager \<times> (Error + LockGuard) option" where
  "transient table mode now = acquire table mode False (now + LOCK_WAIT)"

subsection \<open>Locks of a session\<close>

record SessionLocks =
  sl_held :: "LockGuard list"
  sl_global :: bool

definition ascii_lower :: "string \<Rightarrow> nat list" where
  "ascii_lower = map (\<lambda>c. let n = of_char c in if 65 \<le> n \<and> n \<le> 90 then n + 32 else n)"

definition eq_ignore_ascii_case :: "string \<Rightarrow> string \<Rightarrow> bool" where
  "eq_ignore_ascii_case a b \<longleftrightarrow> ascii_lower a = ascii_lower b"

definition held_lock :: "string \<Rightarrow> SessionLocks \<Rightarrow> LockMode option" where
  "held_lock table sl =
     (case map lg_mode (filter (\<lambda>g. eq_ignore_ascii_case (lg_table g) table) (sl_held sl)) of
        [] \<Rightarrow> None
      | first # modes \<Rightarrow> Some (if Exclusive \<in> set modes then Exclusive else first))"

definition holds_global_read_lock :: "SessionLocks \<Rightarrow> bool" where
  "holds_global_read_lock sl = sl_global sl"

definition holds_table_locks :: "SessionLocks \<Rightarrow> bool" where
  "holds_table_locks sl \<longleftrightarrow> sl_held sl \<noteq> [] \<and> \<not> holds_global_read_lock sl"

definition drop_guards :: "LockGuard list \<Rightarrow> LockManager \<Rightarrow> LockManager" where
  "drop_guards gs lm = foldl (\<lambda>lm g. drop_guard g lm) lm gs"

definition unlock_tables :: "SessionLocks \<Rightarrow> LockManager \<Rightarrow> SessionLocks \<times> LockManager" where
  "unlock_tables sl lm = (sl\<lparr>sl_held := [], sl_global := False\<rparr>, drop_guards (sl_held sl) lm)"

text \<open>
  The loop of \<open>lock_tables\<close>: each lock with the turns its \<open>acquire\<close> takes. An error drops the
  guards taken so far.
\<close>

fun acquire_all ::
  "(string \<times> LockMode) list \<Rightarrow> (nat \<times> (nat \<times> (LockManager \<Rightarrow> LockManager)) list) list \<Rightarrow> LockGuard list
     \<Rightarrow> LockManager \<Rightarrow> LockManager \<times> (Error + LockGuard list) option" where
  "acquire_all [] waits guards lm = (lm, Some (Inr guards))"
| "acquire_all (l # locks) [] guards lm = (lm, None)"
| "acquire_all ((table, mode) # locks) ((now, polls) # waits) guards lm =
     (case acquire table mode True (now + 10000) polls lm of
        (lm1, None) \<Rightarrow> (lm1, None)
      | (lm1, Some (Inl e)) \<Rightarrow> (drop_guards guards lm1, Some (Inl e))
      | (lm1, Some (Inr g)) \<Rightarrow> acquire_all locks waits (guards @ [g]) lm1)"

definition lock_tables ::
  "(string \<times> LockMode) list \<Rightarrow> bool \<Rightarrow> (nat \<times> (nat \<times> (LockManager \<Rightarrow> LockManager)) list) list
     \<Rightarrow> SessionLocks \<Rightarrow> LockManager \<Rightarrow> SessionLocks \<times> LockManager \<times> (Error + unit) option" where
  "lock_tables locks global waits sl lm =
     (let (sl1, lm1) = unlock_tables sl lm in
      case acquire_all locks waits [] lm1 of
        (lm2, None) \<Rightarrow> (sl1, lm2, None)
      | (lm2, Some (Inl e)) \<Rightarrow> (sl1, lm2, Some (Inl e))
      | (lm2, Some (Inr guards)) \<Rightarrow> (sl1\<lparr>sl_held := guards, sl_global := global\<rparr>, lm2, Some (Inr ())))"

subsection \<open>Locks of a statement\<close>

fun add_lock :: "(string \<times> LockMode) list \<Rightarrow> string \<times> LockMode \<Rightarrow> (string \<times> LockMode) list" where
  "add_lock [] l = [l]"
| "add_lock (e # out) l =
     (if eq_ignore_ascii_case (fst e) (fst l)
      then (if snd l = Exclusive then (fst e, Exclusive) else e) # out
      else e # add_lock out l)"

definition strongest_locks :: "(string \<times> LockMode) list \<Rightarrow> (string \<times> LockMode) list" where
  "strongest_locks locks = sort_key (\<lambda>l. ascii_lower (fst l)) (foldl add_lock [] locks)"

record LockAccess =
  la_writes :: "string list"
  la_reads :: "string list"

fun check_writes :: "SessionLocks \<Rightarrow> string list \<Rightarrow> Error + unit" where
  "check_writes sl [] = Inr ()"
| "check_writes sl (t # ts) =
     (case held_lock t sl of
        Some Exclusive \<Rightarrow> check_writes sl ts
      | Some Shared \<Rightarrow> Inl (TableLockedForRead t)
      | None \<Rightarrow> Inl (TableNotLocked t))"

fun check_reads :: "SessionLocks \<Rightarrow> string list \<Rightarrow> Error + unit" where
  "check_reads sl [] = Inr ()"
| "check_reads sl (t # ts) = (if held_lock t sl = None then Inl (TableNotLocked t) else check_reads sl ts)"

text \<open>
  \<open>dml\<close> says whether the statement is a query or DML, \<open>needs_write\<close> whether the privilege it
  needs is at least \<open>Write\<close>.
\<close>

definition check_own_locks :: "SessionLocks \<Rightarrow> bool \<Rightarrow> bool \<Rightarrow> LockAccess \<Rightarrow> bool \<Rightarrow> Error + unit" where
  "check_own_locks sl dml in_routine access needs_write =
     (if holds_global_read_lock sl then (if needs_write then Inl ConflictingReadLock else Inr ())
      else if \<not> dml \<or> \<not> holds_table_locks sl \<or> in_routine then Inr ()
      else bindE (check_writes sl (la_writes access)) (\<lambda>_. check_reads sl (la_reads access)))"

text \<open>\<open>base\<close> are the tables the views among the reads stand for (\<open>base_tables\<close>).\<close>

definition transient_locks :: "SessionLocks \<Rightarrow> string list \<Rightarrow> LockAccess \<Rightarrow> (string \<times> LockMode) list" where
  "transient_locks sl base access =
     filter (\<lambda>l. held_lock (fst l) sl = None)
       (strongest_locks (map (\<lambda>t. (t, Exclusive)) (la_writes access) @ map (\<lambda>t. (t, Shared)) base @
          map (\<lambda>t. (t, Shared)) (la_reads access)))"

definition lock_trigger_table ::
  "string \<Rightarrow> nat \<Rightarrow> (nat \<times> (LockManager \<Rightarrow> LockManager)) list \<Rightarrow> SessionLocks \<Rightarrow> LockManager
     \<Rightarrow> LockManager \<times> (Error + LockGuard option) option" where
  "lock_trigger_table table now polls sl lm =
     (if \<not> explicit_active lm then (lm, Some (Inr None))
      else if holds_global_read_lock sl then (lm, Some (Inl ConflictingReadLock))
      else case held_lock table sl of
             Some Exclusive \<Rightarrow> (lm, Some (Inr None))
           | Some Shared \<Rightarrow> (lm, Some (Inl (TableLockedForRead table)))
           | None \<Rightarrow>
               if holds_table_locks sl then (lm, Some (Inl (TableNotLocked table)))
               else (case transient table Exclusive now polls lm of
                       (lm1, None) \<Rightarrow> (lm1, None)
                     | (lm1, Some (Inl e)) \<Rightarrow> (lm1, Some (Inl e))
                     | (lm1, Some (Inr g)) \<Rightarrow> (lm1, Some (Inr (Some g)))))"

subsection \<open>All sessions together\<close>

text \<open>
  The manager with the guards taken by an \<open>acquire\<close> that has yet to count them, the guards
  alive, and the number of explicit guards given back and not yet uncounted. Any session may
  do any of the steps at any time.
\<close>

record LockSystem =
  ls_mgr :: LockManager
  ls_fresh :: "LockGuard list"
  ls_held :: "LockGuard list"
  ls_leaving :: nat

inductive lock_step :: "LockSystem \<Rightarrow> LockSystem \<Rightarrow> bool" where
  ls_take: "try_take (lg_table g) (lg_mode g) (ls_mgr s) = (lm, True)
    \<Longrightarrow> lock_step s (s\<lparr>ls_mgr := lm, ls_fresh := g # ls_fresh s\<rparr>)"
| ls_refused: "try_take table mode (ls_mgr s) = (lm, False) \<Longrightarrow> lock_step s (s\<lparr>ls_mgr := lm\<rparr>)"
| ls_count: "g \<in> set (ls_fresh s) \<Longrightarrow> lock_step s
    (s\<lparr>ls_mgr := count_explicit (lg_explicit g) (ls_mgr s),
       ls_fresh := remove1 g (ls_fresh s), ls_held := g # ls_held s\<rparr>)"
| ls_give_back: "g \<in> set (ls_held s) \<Longrightarrow> lock_step s
    (s\<lparr>ls_mgr := give_back (lg_table g) (lg_mode g) (ls_mgr s), ls_held := remove1 g (ls_held s),
       ls_leaving := ls_leaving s + (if lg_explicit g then 1 else 0)\<rparr>)"
| ls_uncount: "ls_leaving s > 0 \<Longrightarrow> lock_step s
    (s\<lparr>ls_mgr := uncount_explicit True (ls_mgr s), ls_leaving := ls_leaving s - 1\<rparr>)"

definition lock_system_new :: LockSystem where
  "lock_system_new = \<lparr>ls_mgr = lock_manager_new, ls_fresh = [], ls_held = [], ls_leaving = 0\<rparr>"

definition live_guards :: "LockSystem \<Rightarrow> LockGuard list" where
  "live_guards s = ls_fresh s @ ls_held s"

subsection \<open>The invariant\<close>

definition guards_on :: "string \<Rightarrow> LockMode \<Rightarrow> LockGuard list \<Rightarrow> nat" where
  "guards_on t mode gs = length (filter (\<lambda>g. lg_table g = t \<and> lg_mode g = mode) gs)"

definition explicit_count :: "LockGuard list \<Rightarrow> nat" where
  "explicit_count gs = length (filter lg_explicit gs)"

definition table_ok :: "TableState option \<Rightarrow> nat \<Rightarrow> nat \<Rightarrow> bool" where
  "table_ok st shared exclusive \<longleftrightarrow>
     (case st of
        None \<Rightarrow> shared = 0 \<and> exclusive = 0
      | Some st \<Rightarrow> ts_readers st = shared \<and> (if ts_writer st then exclusive = 1 \<and> shared = 0
          else exclusive = 0 \<and> shared > 0))"

definition lock_inv :: "LockSystem \<Rightarrow> bool" where
  "lock_inv s \<longleftrightarrow>
     (\<forall>t. table_ok (lm_tables (ls_mgr s) t) (guards_on t Shared (live_guards s)) (guards_on t Exclusive (live_guards s)))
     \<and> lm_explicit (ls_mgr s) = explicit_count (ls_held s) + ls_leaving s"

lemma guards_on_Cons [simp]:
  "guards_on t mode (g # gs) = (if lg_table g = t \<and> lg_mode g = mode then 1 else 0) + guards_on t mode gs"
  by (simp add: guards_on_def)

lemma guards_on_append [simp]: "guards_on t mode (xs @ ys) = guards_on t mode xs + guards_on t mode ys"
  by (simp add: guards_on_def)

lemma guards_on_remove1:
  "g \<in> set gs \<Longrightarrow> guards_on t mode gs
    = (if lg_table g = t \<and> lg_mode g = mode then 1 else 0) + guards_on t mode (remove1 g gs)"
  by (induction gs) auto

lemma explicit_count_remove1:
  "g \<in> set gs \<Longrightarrow> explicit_count gs = (if lg_explicit g then 1 else 0) + explicit_count (remove1 g gs)"
  by (induction gs) (auto simp: explicit_count_def)

lemma try_take_frame:
  "try_take t mode lm = (lm', ok) \<Longrightarrow> lm_explicit lm' = lm_explicit lm \<and> (t' \<noteq> t \<longrightarrow> lm_tables lm' t' = lm_tables lm t')"
  by (auto simp: try_take_def Let_def)

lemma try_take_ok:
  assumes "try_take t mode lm = (lm', True)" and "table_ok (lm_tables lm t) a b"
  shows "table_ok (lm_tables lm' t) (a + (if mode = Shared then 1 else 0)) (b + (if mode = Exclusive then 1 else 0))"
  using assms by (cases mode)
    (auto simp: try_take_def Let_def table_ok_def entry_or_default_def split: option.splits if_splits)

lemma try_take_refused:
  assumes "try_take t mode lm = (lm', False)" and "table_ok (lm_tables lm t) a b"
  shows "lm_tables lm' t = lm_tables lm t"
  using assms by (cases mode)
    (auto simp: try_take_def Let_def table_ok_def entry_or_default_def split: option.splits if_splits)

lemma give_back_frame:
  "lm_explicit (give_back t mode lm) = lm_explicit lm" "t' \<noteq> t \<Longrightarrow> lm_tables (give_back t mode lm) t' = lm_tables lm t'"
  by (auto simp: give_back_def Let_def split: option.split)

lemma give_back_ok:
  assumes "table_ok (lm_tables lm t) (a + (if mode = Shared then 1 else 0)) (b + (if mode = Exclusive then 1 else 0))"
  shows "table_ok (lm_tables (give_back t mode lm) t) a b"
  using assms by (cases mode) (auto simp: give_back_def Let_def table_ok_def split: option.splits if_splits)

lemma lock_step_inv:
  assumes "lock_step s s'" and "lock_inv s"
  shows "lock_inv s'"
  using assms
proof cases
  case (ls_take g lm)
  have "table_ok (lm_tables lm t) (guards_on t Shared (g # live_guards s)) (guards_on t Exclusive (g # live_guards s))" for t
    using try_take_ok [OF ls_take(2)] try_take_frame [OF ls_take(2), of t] assms(2)
    by (cases "t = lg_table g"; cases "lg_mode g") (auto simp: lock_inv_def add.commute)
  with ls_take assms(2) try_take_frame [OF ls_take(2)] show ?thesis
    by (simp add: lock_inv_def live_guards_def)
next
  case (ls_refused table mode lm)
  have "lm_tables lm t = lm_tables (ls_mgr s) t" for t
    using try_take_refused [OF ls_refused(2)] try_take_frame [OF ls_refused(2), of t] assms(2)
    by (cases "t = table") (auto simp: lock_inv_def)
  with ls_refused assms(2) try_take_frame [OF ls_refused(2)] show ?thesis
    by (simp add: lock_inv_def live_guards_def)
next
  case (ls_count g)
  have "guards_on t mode (live_guards s') = guards_on t mode (live_guards s)" for t mode
    using guards_on_remove1 [OF ls_count(2), of t mode] ls_count(1) by (simp add: live_guards_def)
  with ls_count assms(2) show ?thesis
    by (simp add: lock_inv_def count_explicit_def explicit_count_def)
next
  case (ls_give_back g)
  have count: "guards_on t mode (live_guards s)
      = guards_on t mode (live_guards s') + (if lg_table g = t \<and> lg_mode g = mode then 1 else 0)" for t mode
    using guards_on_remove1 [OF ls_give_back(2), of t mode] ls_give_back(1) by (simp add: live_guards_def)
  have "table_ok (lm_tables (ls_mgr s') t) (guards_on t Shared (live_guards s')) (guards_on t Exclusive (live_guards s'))" for t
  proof (cases "t = lg_table g")
    case True
    from assms(2) have "table_ok (lm_tables (ls_mgr s) t)
      (guards_on t Shared (live_guards s)) (guards_on t Exclusive (live_guards s))"
      unfolding lock_inv_def by blast
    then have "table_ok (lm_tables (ls_mgr s) (lg_table g))
      (guards_on t Shared (live_guards s') + (if lg_mode g = Shared then 1 else 0))
      (guards_on t Exclusive (live_guards s') + (if lg_mode g = Exclusive then 1 else 0))"
      unfolding count True by simp
    from give_back_ok [OF this] True ls_give_back(1) show ?thesis by simp
  next
    case False
    then have "guards_on t mode (live_guards s') = guards_on t mode (live_guards s)" for mode
      using count [of t mode] by simp
    moreover have "lm_tables (ls_mgr s') t = lm_tables (ls_mgr s) t"
      using ls_give_back(1) give_back_frame(2) [OF False] by simp
    ultimately show ?thesis using assms(2) by (simp add: lock_inv_def)
  qed
  then show ?thesis
    using assms(2) ls_give_back explicit_count_remove1 [OF ls_give_back(2)] give_back_frame(1)
    by (simp add: lock_inv_def)
next
  case ls_uncount
  with assms(2) show ?thesis by (simp add: lock_inv_def live_guards_def uncount_explicit_def)
qed

lemma lock_inv_new: "lock_inv lock_system_new"
  by (simp add: lock_inv_def lock_system_new_def lock_manager_new_def live_guards_def guards_on_def
      explicit_count_def table_ok_def)

lemma lock_reach_inv: "lock_step\<^sup>*\<^sup>* lock_system_new s \<Longrightarrow> lock_inv s"
  by (induction rule: rtranclp_induct) (auto intro: lock_step_inv lock_inv_new)

lemma guards_on_pos: "guards_on t mode gs > 0 \<longleftrightarrow> (\<exists>g \<in> set gs. lg_table g = t \<and> lg_mode g = mode)"
  by (auto simp: guards_on_def filter_empty_conv)



lemma locked_tables:
  assumes "lock_inv s"
  shows "dom (lm_tables (ls_mgr s)) = lg_table ` set (live_guards s)"
proof -
  have "lm_tables (ls_mgr s) t \<noteq> None \<longleftrightarrow>
      guards_on t Shared (live_guards s) > 0 \<or> guards_on t Exclusive (live_guards s) > 0" for t
    using assms [unfolded lock_inv_def, THEN conjunct1, rule_format, of t]
    by (auto simp: table_ok_def split: option.splits if_splits)
  also have "\<dots> t \<longleftrightarrow> t \<in> lg_table ` set (live_guards s)" for t
    unfolding guards_on_pos by (auto simp: image_iff) (metis LockMode.exhaust)
  finally show ?thesis by (auto simp: dom_def)
qed




subsection \<open>Requests of one statement\<close>

abbreviation lock_names :: "(string \<times> LockMode) list \<Rightarrow> nat list list" where
  "lock_names out \<equiv> map (\<lambda>l. ascii_lower (fst l)) out"

lemma set_add_lock_names: "set (lock_names (add_lock out l)) = insert (ascii_lower (fst l)) (set (lock_names out))"
  by (induction out) (simp_all add: eq_ignore_ascii_case_def insert_commute)

lemma add_lock_names: "distinct (lock_names out) \<Longrightarrow> distinct (lock_names (add_lock out l))"
proof (induction out)
  case (Cons e out)
  then show ?case using set_add_lock_names [of out l]
    by (cases "ascii_lower (fst e) = ascii_lower (fst l)") (simp_all add: eq_ignore_ascii_case_def)
qed simp

definition granted :: "(string \<times> LockMode) list \<Rightarrow> string \<Rightarrow> LockMode \<Rightarrow> bool" where
  "granted out t mode \<longleftrightarrow> (\<exists>e \<in> set out. eq_ignore_ascii_case (fst e) t \<and> (mode = Exclusive \<longrightarrow> snd e = Exclusive))"

lemma granted_Cons:
  "granted (e # out) t mode \<longleftrightarrow>
     eq_ignore_ascii_case (fst e) t \<and> (mode = Exclusive \<longrightarrow> snd e = Exclusive) \<or> granted out t mode"
  by (simp add: granted_def)

lemma add_lock_granted: "granted (add_lock out l) (fst l) (snd l)"
  by (induction out) (simp_all add: granted_Cons, simp add: granted_def eq_ignore_ascii_case_def)

lemma add_lock_keeps: "granted out t mode \<Longrightarrow> granted (add_lock out l) t mode"
proof (induction out)
  case (Cons e out)
  then show ?case
    by (cases "eq_ignore_ascii_case (fst e) (fst l)"; cases "eq_ignore_ascii_case (fst e) t") (auto simp: granted_Cons)
qed (simp add: granted_def)

definition requested :: "(string \<times> LockMode) list \<Rightarrow> string \<times> LockMode \<Rightarrow> bool" where
  "requested locks l \<longleftrightarrow> (\<exists>r \<in> set locks. eq_ignore_ascii_case (fst r) (fst l) \<and> snd r = snd l)"

lemma requested_snoc:
  "requested (locks @ [l]) e \<longleftrightarrow> requested locks e \<or> eq_ignore_ascii_case (fst l) (fst e) \<and> snd l = snd e"
  by (auto simp: requested_def)

lemma add_lock_requested:
  "\<forall>e \<in> set out. requested locks e \<Longrightarrow> \<forall>e \<in> set (add_lock out l). requested (locks @ [l]) e"
  by (induction out) (simp_all add: requested_snoc, simp_all add: eq_ignore_ascii_case_def)

lemma add_locks_fold:
  "distinct (lock_names (foldl add_lock [] locks))
   \<and> (\<forall>r \<in> set locks. granted (foldl add_lock [] locks) (fst r) (snd r))
   \<and> (\<forall>e \<in> set (foldl add_lock [] locks). requested locks e)"
proof (induction locks rule: rev_induct)
  case (snoc l locks)
  let ?out = "foldl add_lock [] locks"
  have "distinct (lock_names (add_lock ?out l))" using snoc add_lock_names by blast
  moreover have "\<forall>r \<in> set (locks @ [l]). granted (add_lock ?out l) (fst r) (snd r)"
    using snoc add_lock_keeps [of ?out _ _ l] add_lock_granted [of ?out l] by simp
  moreover have "\<forall>e \<in> set (add_lock ?out l). requested (locks @ [l]) e"
    using snoc add_lock_requested by blast
  ultimately show ?case by simp
qed simp

lemma held_lock_iff:
  "held_lock t sl = Some Exclusive \<longleftrightarrow> (\<exists>g \<in> set (sl_held sl). eq_ignore_ascii_case (lg_table g) t \<and> lg_mode g = Exclusive)"
  "held_lock t sl = None \<longleftrightarrow> (\<forall>g \<in> set (sl_held sl). \<not> eq_ignore_ascii_case (lg_table g) t)"
proof -
  let ?gs = "filter (\<lambda>g. eq_ignore_ascii_case (lg_table g) t) (sl_held sl)"
  show "held_lock t sl = None \<longleftrightarrow> (\<forall>g \<in> set (sl_held sl). \<not> eq_ignore_ascii_case (lg_table g) t)"
    unfolding filter_empty_conv [symmetric] by (auto simp: held_lock_def split: list.split)
  have "held_lock t sl = Some Exclusive \<longleftrightarrow> Exclusive \<in> set (map lg_mode ?gs)"
    unfolding held_lock_def by (cases "map lg_mode ?gs") (simp_all del: set_map, auto)
  also have "\<dots> \<longleftrightarrow> (\<exists>g \<in> set (sl_held sl). eq_ignore_ascii_case (lg_table g) t \<and> lg_mode g = Exclusive)"
    by (auto simp: image_iff) 
  finally show "held_lock t sl = Some Exclusive \<longleftrightarrow> (\<exists>g \<in> set (sl_held sl). eq_ignore_ascii_case (lg_table g) t \<and> lg_mode g = Exclusive)" .
qed

subsection \<open>Properties\<close>

text \<open>
  C16. Table locks exclude. However the sessions interleave, of two guards alive on the same
  table both are shared; the manager's table has an entry for exactly the tables that are
  locked; and while any session holds an explicit lock the fast path is off, since
  \<open>explicit_active\<close> is true.
\<close>

theorem lock_exclusion:
  assumes "lock_step\<^sup>*\<^sup>* lock_system_new s"
  shows "(live_guards s = xs @ g # ys @ h # zs \<and> lg_table g = lg_table h \<longrightarrow> lg_mode g = Shared \<and> lg_mode h = Shared)
    \<and> dom (lm_tables (ls_mgr s)) = lg_table ` set (live_guards s)
    \<and> (\<forall>g \<in> set (ls_held s). lg_explicit g \<longrightarrow> explicit_active (ls_mgr s))"
proof -
  note inv = lock_reach_inv [OF assms]
  have "lg_mode g = Shared \<and> lg_mode h = Shared"
    if "live_guards s = xs @ g # ys @ h # zs" "lg_table g = lg_table h"
  proof -
    have "table_ok (lm_tables (ls_mgr s) (lg_table h)) (guards_on (lg_table h) Shared (xs @ g # ys @ h # zs))
        (guards_on (lg_table h) Exclusive (xs @ g # ys @ h # zs))"
      using inv that(1) unfolding lock_inv_def by metis
    with that(2) show ?thesis
      by (cases "lg_mode g"; cases "lg_mode h") (auto simp: table_ok_def split: option.splits if_splits)
  qed
  moreover have "explicit_active (ls_mgr s)" if "g \<in> set (ls_held s)" "lg_explicit g" for g
  proof -
    have "0 < explicit_count (ls_held s)" using that by (auto simp: explicit_count_def filter_empty_conv)
    with inv show ?thesis by (simp add: lock_inv_def explicit_active_def)
  qed
  ultimately show ?thesis using locked_tables [OF inv] by blast
qed

definition ex_guard :: "LockMode \<Rightarrow> LockGuard" where
  "ex_guard mode = \<lparr>lg_table = ''t'', lg_mode = mode, lg_explicit = True\<rparr>"

definition ex_locks :: LockSystem where
  "ex_locks = \<lparr>ls_mgr = fst (try_take ''t'' Shared (count_explicit True (fst (try_take ''t'' Shared lock_manager_new)))),
     ls_fresh = [ex_guard Shared], ls_held = [ex_guard Shared], ls_leaving = 0\<rparr>"

lemma ex_locks_reachable: "lock_step\<^sup>*\<^sup>* lock_system_new ex_locks"
proof -
  let ?g = "ex_guard Shared"
  let ?lm1 = "fst (try_take ''t'' Shared lock_manager_new)"
  let ?s1 = "lock_system_new\<lparr>ls_mgr := ?lm1, ls_fresh := [?g]\<rparr>"
  let ?s2 = "?s1\<lparr>ls_mgr := count_explicit True ?lm1, ls_fresh := [], ls_held := [?g]\<rparr>"
  have "lock_step lock_system_new ?s1"
    using ls_take [of ?g lock_system_new ?lm1]
    by (simp add: ex_guard_def lock_system_new_def lock_manager_new_def try_take_def entry_or_default_def)
  moreover have "lock_step ?s1 ?s2"
    using ls_count [of ?g ?s1] by (simp add: ex_guard_def lock_system_new_def)
  moreover have "lock_step ?s2 ex_locks"
    using ls_take [of ?g ?s2 "fst (try_take ''t'' Shared (ls_mgr ?s2))"]
    by (simp add: ex_guard_def ex_locks_def lock_system_new_def lock_manager_new_def try_take_def
        entry_or_default_def count_explicit_def)
  ultimately show ?thesis by (meson rtranclp.rtrancl_into_rtrancl rtranclp.rtrancl_refl)
qed

theorem lock_exclusion_witness:
  "dom (lm_tables (ls_mgr ex_locks)) = {''t''} \<and> explicit_active (ls_mgr ex_locks)"
  using lock_exclusion [OF ex_locks_reachable]
  by (auto simp: ex_locks_def ex_guard_def live_guards_def)



text \<open>
  C18. A statement asks for each table once, in a fixed order. \<open>strongest_locks\<close> names no table
  twice (up to ASCII case), is sorted by name, so that two statements take their locks in the
  same order, grants every request at its mode or a stronger one, and contains nothing that was
  not requested.
\<close>

theorem strongest_locks_spec:
  "distinct (lock_names (strongest_locks locks))
   \<and> sorted (lock_names (strongest_locks locks))
   \<and> (\<forall>r \<in> set locks. granted (strongest_locks locks) (fst r) (snd r))
   \<and> (\<forall>l \<in> set (strongest_locks locks). requested locks l)"
proof -
  let ?f = "\<lambda>l :: string \<times> LockMode. ascii_lower (fst l)"
  let ?out = "foldl add_lock [] locks"
  note out = add_locks_fold [of locks]
  have "mset (map ?f (strongest_locks locks)) = mset (map ?f ?out)"
    by (simp add: strongest_locks_def)
  then have "distinct (map ?f (strongest_locks locks))"
    using out mset_eq_imp_distinct_iff by blast
  moreover have "set (strongest_locks locks) = set ?out" by (simp add: strongest_locks_def)
  moreover have "sorted (map ?f (strongest_locks locks))" by (simp add: strongest_locks_def)
  ultimately show ?thesis using out unfolding granted_def by simp
qed

theorem strongest_locks_spec_witness:
  "strongest_locks [(''b'', Shared), (''A'', Shared), (''B'', Exclusive)] = [(''A'', Shared), (''b'', Exclusive)]
    \<and> granted [(''A'', Shared), (''b'', Exclusive)] ''B'' Exclusive"
proof -
  have run: "strongest_locks [(''b'', Shared), (''A'', Shared), (''B'', Exclusive)] = [(''A'', Shared), (''b'', Exclusive)]"
    by code_simp
  with strongest_locks_spec [of "[(''b'', Shared), (''A'', Shared), (''B'', Exclusive)]"] show ?thesis by simp
qed

end
