(* ===== verification/Rust_Text.thy ===== *)
theory Rust_Text
  imports Elyra_Prelude
begin

section \<open>Text of the standard library\<close>

text \<open>
  The functions of \<open>str\<close> the small text files of the server are read with: \<open>lines\<close>, \<open>trim\<close>
  and \<open>parse::<u64>\<close>, on ASCII text, with what printing a number and reading it back gives.
\<close>

definition newline :: char where
  "newline = CHR 0x0A"

definition is_space :: "char \<Rightarrow> bool" where
  "is_space c \<longleftrightarrow> c \<in> {CHR 0x09, CHR 0x0A, CHR 0x0B, CHR 0x0C, CHR 0x0D, CHR 0x20}"

definition strip_cr :: "string \<Rightarrow> string" where
  "strip_cr l = (if l \<noteq> [] \<and> last l = CHR 0x0D then butlast l else l)"

fun lines_from :: "string \<Rightarrow> string \<Rightarrow> string list" where
  "lines_from cur [] = (if cur = [] then [] else [cur])"
| "lines_from cur (c # cs) =
     (if c = newline then strip_cr cur # lines_from [] cs else lines_from (cur @ [c]) cs)"

definition str_lines :: "string \<Rightarrow> string list" where
  "str_lines = lines_from []"

definition str_trim :: "string \<Rightarrow> string" where
  "str_trim s = rev (dropWhile is_space (rev (dropWhile is_space s)))"

definition is_digit :: "char \<Rightarrow> bool" where
  "is_digit c \<longleftrightarrow> (let n = of_char c :: nat in 48 \<le> n \<and> n \<le> 57)"

definition digit_val :: "char \<Rightarrow> nat" where
  "digit_val c = of_char c - 48"

definition parse_digits :: "string \<Rightarrow> nat option" where
  "parse_digits s = (if s \<noteq> [] \<and> (\<forall>c \<in> set s. is_digit c) then Some (digits_nat (map digit_val s)) else None)"

text \<open>\<open>parse::<u64>\<close>: an optional plus sign, digits, and no overflow.\<close>

definition parse_u64 :: "string \<Rightarrow> nat option" where
  "parse_u64 s =
     (let body = (case s of c # cs \<Rightarrow> if c = CHR ''+'' then cs else s | [] \<Rightarrow> s)
      in case parse_digits body of
           Some n \<Rightarrow> if n < 2 ^ 64 then Some n else None
         | None \<Rightarrow> None)"

lemma of_char_digit [simp]: "d < 10 \<Longrightarrow> of_char (char_of (48 + d) :: char) = 48 + (d :: nat)"
  by simp

lemma show_nat_digits: "c \<in> set (show_nat n) \<Longrightarrow> is_digit c"
  by (auto simp: show_nat_def is_digit_def dest!: dec_digits_range)

lemma show_nat_nonempty [simp]: "show_nat n \<noteq> []"
  by (simp add: show_nat_def)

lemma parse_digits_show [simp]: "parse_digits (show_nat n) = Some n"
proof -
  have "map digit_val (show_nat n) = dec_digits n"
    by (auto simp: show_nat_def digit_val_def comp_def dest!: dec_digits_range intro!: map_idI)
  then show ?thesis by (auto simp: parse_digits_def show_nat_digits)
qed

lemma digit_plain: "is_digit c \<Longrightarrow> \<not> is_space c \<and> c \<noteq> newline \<and> c \<noteq> CHR ''+'' \<and> c \<noteq> CHR ''-'' \<and> c \<noteq> CHR 0x0D"
  by (auto simp: is_digit_def is_space_def newline_def Let_def)

lemma parse_u64_show: "n < 2 ^ 64 \<Longrightarrow> parse_u64 (show_nat n) = Some n"
proof -
  assume n: "n < 2 ^ 64"
  obtain c cs where s: "show_nat n = c # cs" by (cases "show_nat n") auto
  then have "c \<noteq> CHR ''+''" using show_nat_digits [of c n] digit_plain by auto
  with n s show ?thesis using parse_digits_show [of n] by (simp add: parse_u64_def)
qed

lemma str_trim_plain: "\<forall>c \<in> set s. \<not> is_space c \<Longrightarrow> str_trim s = s"
proof -
  assume s: "\<forall>c \<in> set s. \<not> is_space c"
  then have "dropWhile is_space s = s" by (cases s) auto
  moreover from s have "\<forall>c \<in> set (rev s). \<not> is_space c" by simp
  then have "dropWhile is_space (rev s) = rev s" by (cases "rev s") (auto simp del: set_rev)
  ultimately show ?thesis by (simp add: str_trim_def)
qed

lemma str_trim_show [simp]: "str_trim (show_nat n) = show_nat n"
  using str_trim_plain show_nat_digits digit_plain by blast

lemma parse_empty [simp]: "str_trim [] = []" "parse_u64 [] = None"
  by (simp_all add: str_trim_def parse_u64_def parse_digits_def)

lemma lines_from_line:
  "\<forall>c \<in> set l. c \<noteq> newline \<Longrightarrow> lines_from cur (l @ newline # rest) = strip_cr (cur @ l) # lines_from [] rest"
  by (induction l arbitrary: cur) auto

lemma strip_cr_plain: "\<forall>c \<in> set l. c \<noteq> CHR 0x0D \<Longrightarrow> strip_cr l = l"
  by (cases l rule: rev_cases) (auto simp: strip_cr_def)

lemma str_lines_Nil [simp]: "str_lines [] = []"
  by (simp add: str_lines_def)

lemma str_lines_show [simp]: "str_lines (show_nat n @ newline # rest) = show_nat n # str_lines rest"
proof -
  have "\<forall>c \<in> set (show_nat n). c \<noteq> newline" "\<forall>c \<in> set (show_nat n). c \<noteq> CHR 0x0D"
    using show_nat_digits digit_plain by blast+
  then show ?thesis by (simp add: str_lines_def lines_from_line strip_cr_plain)
qed

lemma str_lines_newline [simp]: "str_lines (newline # rest) = [] # str_lines rest"
  by (simp add: str_lines_def strip_cr_def)

end
