(* ===== verification/Raft_Log.thy ===== *)
theory Raft_Log
  imports Rust_Text
begin

section \<open>The replicated log\<close>

text \<open>
  \<open>crates/elyra-server/src/raftlog.rs\<close>: the log of one Raft node with its commit and apply
  cursors, compaction, and its two files. Terms and indexes are \<open>u64\<close> counters kept as
  naturals. \<open>bincode\<close> is a pair of functions, \<open>ser\<close> and \<open>de\<close>; the outcome of a file operation
  is an argument, and a failed append may have written any prefix of its bytes.
\<close>

subsection \<open>State\<close>

record LogEntry =
  le_term :: nat
  le_index :: nat
  le_data :: bytes

record RaftLog =
  rl_entries :: "LogEntry list"
  rl_commit_index :: nat
  rl_last_applied :: nat
  rl_path :: bool
  rl_persisted :: nat
  rl_snapshot_index :: nat
  rl_snapshot_term :: nat

text \<open>The log file and the snapshot-metadata file beside it.\<close>

record RaftDisk =
  rd_log :: "bytes option"
  rd_snap :: "string option"

datatype io_outcome = Io_ok | Io_failed nat

type_synonym bincode_ser = "LogEntry \<Rightarrow> bytes option"
type_synonym bincode_de = "bytes \<Rightarrow> LogEntry option"

definition raft_log_new :: RaftLog where
  "raft_log_new = \<lparr>rl_entries = [], rl_commit_index = 0, rl_last_applied = 0, rl_path = False,
     rl_persisted = 0, rl_snapshot_index = 0, rl_snapshot_term = 0\<rparr>"

subsection \<open>Reading the log\<close>

definition last_index :: "RaftLog \<Rightarrow> nat" where
  "last_index l = (if rl_entries l = [] then rl_snapshot_index l else le_index (last (rl_entries l)))"

definition last_term :: "RaftLog \<Rightarrow> nat" where
  "last_term l = (if rl_entries l = [] then rl_snapshot_term l else le_term (last (rl_entries l)))"

definition entry_at :: "nat \<Rightarrow> LogEntry list \<Rightarrow> LogEntry option" where
  "entry_at index es = find (\<lambda>e. le_index e = index) es"

definition term_at :: "nat \<Rightarrow> RaftLog \<Rightarrow> nat option" where
  "term_at index l =
     (if index = rl_snapshot_index l then Some (rl_snapshot_term l)
      else if index < rl_snapshot_index l then None
      else map_option le_term (entry_at index (rl_entries l)))"

definition is_up_to_date :: "nat \<Rightarrow> nat \<Rightarrow> RaftLog \<Rightarrow> bool" where
  "is_up_to_date cand_last_term cand_last_index l \<longleftrightarrow>
     cand_last_term > last_term l \<or> cand_last_term = last_term l \<and> cand_last_index \<ge> last_index l"

definition entries_after :: "nat \<Rightarrow> RaftLog \<Rightarrow> LogEntry list" where
  "entries_after index l = filter (\<lambda>e. le_index e > index) (rl_entries l)"

subsection \<open>Files\<close>

definition frame :: "bincode_ser \<Rightarrow> LogEntry \<Rightarrow> bytes" where
  "frame ser e =
     (case ser e of
        Some b \<Rightarrow> to_le_bytes 4 (of_nat (length b) :: u32) @ b
      | None \<Rightarrow> [])"

definition frames :: "bincode_ser \<Rightarrow> LogEntry list \<Rightarrow> bytes" where
  "frames ser es = concat (map (frame ser) es)"

function read_records :: "bincode_de \<Rightarrow> bytes \<Rightarrow> LogEntry list" where
  "read_records de buf =
     (if length buf < 4 then []
      else
        let len = unat (from_le_bytes (take 4 buf) :: u32);
            rest = drop 4 buf
        in if length rest < len then []
           else (case de (take len rest) of Some e \<Rightarrow> [e] | None \<Rightarrow> []) @ read_records de (drop len rest))"
  by pat_completeness auto
termination
  by (relation "measure (\<lambda>(de, buf). length buf)") auto

declare read_records.simps [simp del]

definition read_snapshot_meta :: "RaftDisk \<Rightarrow> nat \<times> nat" where
  "read_snapshot_meta d =
     (case rd_snap d of
        None \<Rightarrow> (0, 0)
      | Some s \<Rightarrow>
          (let number = (\<lambda>ls. case ls of [] \<Rightarrow> 0
                 | l # _ \<Rightarrow> (case parse_u64 (str_trim l) of Some n \<Rightarrow> n | None \<Rightarrow> 0));
               ls = str_lines s
           in (number ls, number (drop 1 ls))))"

definition write_snapshot_meta :: "io_outcome \<Rightarrow> nat \<Rightarrow> nat \<Rightarrow> RaftDisk \<Rightarrow> RaftDisk" where
  "write_snapshot_meta io index trm d =
     (if io = Io_ok then d\<lparr>rd_snap := Some (show_nat index @ newline # show_nat trm @ [newline])\<rparr> else d)"

definition raft_open :: "bincode_de \<Rightarrow> RaftDisk \<Rightarrow> RaftLog" where
  "raft_open de d =
     (let entries = (case rd_log d of Some buf \<Rightarrow> read_records de buf | None \<Rightarrow> []);
          (snapshot_index, snapshot_term) = read_snapshot_meta d
      in \<lparr>rl_entries = entries, rl_commit_index = snapshot_index, rl_last_applied = snapshot_index,
          rl_path = True, rl_persisted = length entries,
          rl_snapshot_index = snapshot_index, rl_snapshot_term = snapshot_term\<rparr>)"

definition append_file :: "io_outcome \<Rightarrow> bytes \<Rightarrow> RaftDisk \<Rightarrow> RaftDisk" where
  "append_file io buf d =
     (let old = (case rd_log d of Some b \<Rightarrow> b | None \<Rightarrow> []) in
      case io of
        Io_ok \<Rightarrow> d\<lparr>rd_log := Some (old @ buf)\<rparr>
      | Io_failed n \<Rightarrow> d\<lparr>rd_log := Some (old @ take n buf)\<rparr>)"

definition persist_appended :: "bincode_ser \<Rightarrow> io_outcome \<Rightarrow> RaftLog \<Rightarrow> RaftDisk \<Rightarrow> RaftLog \<times> RaftDisk" where
  "persist_appended ser io l d =
     (if \<not> rl_path l then (l\<lparr>rl_persisted := length (rl_entries l)\<rparr>, d)
      else if rl_persisted l \<ge> length (rl_entries l) then (l, d)
      else
        let d' = append_file io (frames ser (drop (rl_persisted l) (rl_entries l))) d
        in (if io = Io_ok then l\<lparr>rl_persisted := length (rl_entries l)\<rparr> else l, d'))"

text \<open>The whole file is written beside the old one and renamed over it.\<close>

definition persist_rewrite :: "bincode_ser \<Rightarrow> io_outcome \<Rightarrow> RaftLog \<Rightarrow> RaftDisk \<Rightarrow> RaftLog \<times> RaftDisk" where
  "persist_rewrite ser io l d =
     (if \<not> rl_path l then (l\<lparr>rl_persisted := length (rl_entries l)\<rparr>, d)
      else if io = Io_ok
        then (l\<lparr>rl_persisted := length (rl_entries l)\<rparr>, d\<lparr>rd_log := Some (frames ser (rl_entries l))\<rparr>)
      else (l, d))"

definition raft_sync :: "bincode_ser \<Rightarrow> io_outcome \<Rightarrow> RaftLog \<Rightarrow> RaftDisk \<Rightarrow> RaftLog \<times> RaftDisk" where
  "raft_sync ser io l d =
     (if rl_persisted l > length (rl_entries l) then persist_rewrite ser io l d
      else persist_appended ser io l d)"

subsection \<open>Changing the log\<close>

definition leader_append :: "nat \<Rightarrow> bytes \<Rightarrow> RaftLog \<Rightarrow> RaftLog \<times> nat" where
  "leader_append trm data l =
     (let index = last_index l + 1
      in (l\<lparr>rl_entries := rl_entries l @ [\<lparr>le_term = trm, le_index = index, le_data = data\<rparr>]\<rparr>, index))"

fun index_position :: "nat \<Rightarrow> LogEntry list \<Rightarrow> nat option" where
  "index_position i [] = None"
| "index_position i (e # es) = (if le_index e = i then Some 0 else map_option Suc (index_position i es))"

definition merge_entry :: "LogEntry list \<times> bool \<Rightarrow> LogEntry \<Rightarrow> LogEntry list \<times> bool" where
  "merge_entry = (\<lambda>(es, truncated) ne.
     (case index_position (le_index ne) es of
        Some pos \<Rightarrow>
          if le_term (es ! pos) \<noteq> le_term ne then (take pos es @ [ne], True) else (es, truncated)
      | None \<Rightarrow> (es @ [ne], truncated)))"

definition append_entries ::
  "bincode_ser \<Rightarrow> io_outcome \<Rightarrow> nat \<Rightarrow> nat \<Rightarrow> LogEntry list \<Rightarrow> RaftLog \<Rightarrow> RaftDisk
     \<Rightarrow> (RaftLog \<times> RaftDisk) \<times> bool" where
  "append_entries ser io prev_index prev_term new_entries l d =
     (if term_at prev_index l \<noteq> Some prev_term then ((l, d), False)
      else
        let (es, truncated) = foldl merge_entry (rl_entries l, False) new_entries;
            l1 = l\<lparr>rl_entries := es\<rparr>
        in (if truncated \<or> rl_persisted l1 > length es then persist_rewrite ser io l1 d
            else persist_appended ser io l1 d, True))"

definition advance_commit :: "nat \<Rightarrow> RaftLog \<Rightarrow> RaftLog" where
  "advance_commit leader_commit l =
     (let target = min leader_commit (last_index l)
      in if target > rl_commit_index l then l\<lparr>rl_commit_index := target\<rparr> else l)"

definition maybe_commit :: "nat list \<Rightarrow> nat \<Rightarrow> RaftLog \<Rightarrow> RaftLog" where
  "maybe_commit match_indexes current_term l =
     (if match_indexes = [] then l
      else
        let majority_idx = sort match_indexes ! ((length match_indexes - 1) div 2)
        in if majority_idx > rl_commit_index l \<and> term_at majority_idx l = Some current_term
           then l\<lparr>rl_commit_index := majority_idx\<rparr> else l)"

function take_applicable_from :: "nat \<Rightarrow> RaftLog \<Rightarrow> LogEntry list \<times> nat" where
  "take_applicable_from applied l =
     (if applied < rl_commit_index l then
        (case entry_at (applied + 1) (rl_entries l) of
           Some e \<Rightarrow> (let (out, a) = take_applicable_from (applied + 1) l in (e # out, a))
         | None \<Rightarrow> ([], applied))
      else ([], applied))"
  by pat_completeness auto
termination
  by (relation "measure (\<lambda>(applied, l). rl_commit_index l - applied)") auto

declare take_applicable_from.simps [simp del]

definition take_applicable :: "RaftLog \<Rightarrow> RaftLog \<times> LogEntry list" where
  "take_applicable l =
     (let (out, applied) = take_applicable_from (rl_last_applied l) l
      in (l\<lparr>rl_last_applied := applied\<rparr>, out))"

definition compact ::
  "bincode_ser \<Rightarrow> io_outcome \<Rightarrow> io_outcome \<Rightarrow> nat \<Rightarrow> RaftLog \<Rightarrow> RaftDisk \<Rightarrow> RaftLog \<times> RaftDisk" where
  "compact ser io_meta io_log up_to l d =
     (if up_to \<le> rl_snapshot_index l \<or> up_to > rl_last_applied l then (l, d)
      else case term_at up_to l of
             None \<Rightarrow> (l, d)
           | Some trm \<Rightarrow>
               (let l1 = l\<lparr>rl_entries := filter (\<lambda>e. le_index e > up_to) (rl_entries l),
                           rl_snapshot_index := up_to, rl_snapshot_term := trm\<rparr>;
                    d1 = (if rl_path l then write_snapshot_meta io_meta up_to trm d else d)
                in persist_rewrite ser io_log l1 d1))"

end
