(* ===== verification/Raft_Log_Laws.thy ===== *)
theory Raft_Log_Laws
  imports Raft_Log
begin

section \<open>Laws of the replicated log\<close>

text \<open>
  What the log of one node guarantees: a follower that accepts entries agrees with the leader
  on everything both still have, entries are applied once each and in order, the commit rule
  needs a majority, and what was synced survives a crash. The last property shows the gap a
  peer added after a compaction ends up with.
\<close>

subsection \<open>Consecutive entries\<close>

definition contig :: "nat \<Rightarrow> LogEntry list \<Rightarrow> bool" where
  "contig s es \<longleftrightarrow> map le_index es = [s + 1..<s + 1 + length es]"

lemma contig_Nil [simp]: "contig s []"
  by (simp add: contig_def)

lemma contig_Cons [simp]: "contig s (e # es) \<longleftrightarrow> le_index e = s + 1 \<and> contig (s + 1) es"
  by (auto simp: contig_def upt_rec)

lemma contig_append: "contig s (xs @ ys) \<longleftrightarrow> contig s xs \<and> contig (s + length xs) ys"
  by (induction xs arbitrary: s) auto

lemma contig_take: "contig s es \<Longrightarrow> contig s (take n es)"
  using contig_append [of s "take n es" "drop n es"] by simp

lemma contig_nth: "contig s es \<Longrightarrow> i < length es \<Longrightarrow> le_index (es ! i) = s + 1 + i"
  unfolding contig_def by (metis length_map nth_map nth_upt length_upt add_diff_cancel_left' add_less_cancel_left)

lemma contig_position:
  "contig s es \<Longrightarrow> index_position i es = (if s < i \<and> i \<le> s + length es then Some (i - s - 1) else None)"
proof (induction es arbitrary: s)
  case (Cons e es)
  from Cons.IH [of "s + 1"] Cons.prems have "index_position i es = (if s + 1 < i \<and> i \<le> s + 1 + length es then Some (i - (s + 1) - 1) else None)"
    by simp
  with Cons.prems show ?case by auto
qed simp

lemma contig_entry_at:
  "contig s es \<Longrightarrow> entry_at i es = (if s < i \<and> i \<le> s + length es then Some (es ! (i - s - 1)) else None)"
proof (induction es arbitrary: s)
  case (Cons e es)
  from Cons.IH [of "s + 1"] Cons.prems have "entry_at i es = (if s + 1 < i \<and> i \<le> s + 1 + length es then Some (es ! (i - (s + 1) - 1)) else None)"
    by simp
  with Cons.prems show ?case by (auto simp: entry_at_def nth_Cons')
qed (simp add: entry_at_def)



lemma contig_last: "contig s es \<Longrightarrow> es \<noteq> [] \<Longrightarrow> le_index (last es) = s + length es"
  by (simp add: last_conv_nth contig_nth)

text \<open>
  A well-formed log: consecutive entries that reach the snapshot boundary. Entries at or below
  the boundary may still be there, as after a crash in the middle of a compaction.
\<close>

definition log_wf :: "RaftLog \<Rightarrow> bool" where
  "log_wf l \<longleftrightarrow> (\<exists>s. s \<le> rl_snapshot_index l \<and> contig s (rl_entries l)
     \<and> rl_snapshot_index l \<le> s + length (rl_entries l))"

lemma log_wf_last: "contig s (rl_entries l) \<Longrightarrow> s \<le> rl_snapshot_index l \<Longrightarrow> rl_snapshot_index l \<le> s + length (rl_entries l)
    \<Longrightarrow> last_index l = s + length (rl_entries l)"
  by (auto simp: last_index_def contig_last)

lemma log_wf_entry_at:
  assumes "log_wf l" and "rl_snapshot_index l < i"
  shows "entry_at i (rl_entries l) \<noteq> None \<longleftrightarrow> i \<le> last_index l"
proof -
  from assms(1) obtain s where s: "s \<le> rl_snapshot_index l" "contig s (rl_entries l)"
    "rl_snapshot_index l \<le> s + length (rl_entries l)" by (auto simp: log_wf_def)
  with assms(2) show ?thesis using log_wf_last [OF s(2,1,3)] by (simp add: contig_entry_at [OF s(2)])
qed

lemma entry_at_index: "entry_at i es = Some e \<Longrightarrow> le_index e = i \<and> e \<in> set es"
  by (auto simp: entry_at_def find_Some_iff)

subsection \<open>Merging new entries\<close>

text \<open>What the loop of \<open>append_entries\<close> computes: entries that agree are kept, the rest replaced.\<close>

fun merged :: "LogEntry list \<Rightarrow> nat \<Rightarrow> LogEntry list \<Rightarrow> LogEntry list" where
  "merged es pos [] = es"
| "merged es pos (n # ns) =
     (if pos < length es \<and> le_term (es ! pos) = le_term n then merged es (Suc pos) ns
      else take pos es @ n # ns)"

lemma merge_entry_append:
  "contig s es \<Longrightarrow> contig (s + length es) ns \<Longrightarrow> foldl merge_entry (es, tr) ns = (es @ ns, tr)"
proof (induction ns arbitrary: es)
  case (Cons n ns)
  then have "merge_entry (es, tr) n = (es @ [n], tr)"
    by (simp add: merge_entry_def contig_position [OF Cons.prems(1)])
  moreover have "contig s (es @ [n])" using Cons.prems by (simp add: contig_append)
  ultimately show ?case using Cons.IH [of "es @ [n]"] Cons.prems by simp
qed simp

lemma merge_entries:
  "contig s es \<Longrightarrow> contig (s + pos) ns \<Longrightarrow> pos \<le> length es \<Longrightarrow> fst (foldl merge_entry (es, tr) ns) = merged es pos ns"
proof (induction ns arbitrary: pos tr)
  case (Cons n ns)
  show ?case
  proof (cases "pos < length es")
    case True
    then have position: "index_position (le_index n) es = Some pos"
      using Cons.prems by (simp add: contig_position [OF Cons.prems(1)])
    show ?thesis
    proof (cases "le_term (es ! pos) = le_term n")
      case eq: True
      then show ?thesis using Cons.IH [of "Suc pos" tr] Cons.prems True position by (simp add: merge_entry_def)
    next
      case False
      have "contig s (take pos es @ [n])" "contig (s + length (take pos es @ [n])) ns"
        using Cons.prems True contig_take [OF Cons.prems(1)] by (auto simp: contig_append min_absorb2)
      from merge_entry_append [OF this] show ?thesis using False True position by (simp add: merge_entry_def)
    qed
  next
    case False
    then show ?thesis using merge_entry_append [OF Cons.prems(1), of "n # ns" tr] Cons.prems by simp
  qed
qed simp

lemma merged_contig: "contig s es \<Longrightarrow> contig (s + pos) ns \<Longrightarrow> pos \<le> length es \<Longrightarrow> contig s (merged es pos ns)"
proof (induction es pos ns rule: merged.induct)
  case (2 es pos n ns)
  then show ?case using contig_take [of s es pos] by (auto simp: contig_append min_absorb2)
qed simp

lemma merged_length: "pos \<le> length es \<Longrightarrow> length (merged es pos ns) \<ge> pos + length ns"
  by (induction es pos ns rule: merged.induct) auto

lemma merged_take: "pos \<le> length es \<Longrightarrow> take pos (merged es pos ns) = take pos es"
proof (induction es pos ns rule: merged.induct)
  case (2 es pos n ns)
  show ?case
  proof (cases "pos < length es \<and> le_term (es ! pos) = le_term n")
    case True
    then have "take (Suc pos) (merged es (Suc pos) ns) = take (Suc pos) es" using 2 by simp
    from arg_cong [OF this, of "take pos"] True show ?thesis by (simp add: min_absorb1)
  qed (use 2 in auto)
qed simp

lemma merged_nth:
  assumes "pos \<le> length es" and "j < length ns"
  shows "merged es pos ns ! (pos + j) = ns ! j
    \<or> pos + j < length es \<and> merged es pos ns ! (pos + j) = es ! (pos + j) \<and> le_term (es ! (pos + j)) = le_term (ns ! j)"
  using assms
proof (induction es pos ns arbitrary: j rule: merged.induct)
  case (2 es pos n ns)
  show ?case
  proof (cases "pos < length es \<and> le_term (es ! pos) = le_term n")
    case True
    show ?thesis
    proof (cases j)
      case 0
      have "take (Suc pos) (merged es (Suc pos) ns) ! pos = take (Suc pos) es ! pos"
        using merged_take [of "Suc pos" es ns] True by simp
      with 0 True show ?thesis by simp
    next
      case (Suc i)
      with 2 True show ?thesis by auto
    qed
  next
    case False
    with 2 show ?thesis by (auto simp: nth_append)
  qed
qed simp

lemma merged_same:
  "\<forall>j < length ns. pos + j < length es \<and> le_term (es ! (pos + j)) = le_term (ns ! j) \<Longrightarrow> merged es pos ns = es"
proof (induction es pos ns rule: merged.induct)
  case (2 es pos n ns)
  then have "pos < length es \<and> le_term (es ! pos) = le_term n" by (auto dest: spec [of _ 0])
  moreover have "\<forall>j < length ns. Suc pos + j < length es \<and> le_term (es ! (Suc pos + j)) = le_term (ns ! j)"
    using 2(2) by (metis Suc_less_eq add_Suc_shift length_Cons nth_Cons_Suc)
  ultimately show ?case using 2(1) by simp
qed simp

definition same_cursors :: "RaftLog \<Rightarrow> RaftLog \<Rightarrow> bool" where
  "same_cursors l l' \<longleftrightarrow> rl_commit_index l' = rl_commit_index l \<and> rl_last_applied l' = rl_last_applied l
     \<and> rl_snapshot_index l' = rl_snapshot_index l \<and> rl_snapshot_term l' = rl_snapshot_term l \<and> rl_path l' = rl_path l"

lemma persist_appended_log:
  "persist_appended ser io l d = (l', d') \<Longrightarrow> rl_entries l' = rl_entries l \<and> same_cursors l l'"
  by (auto simp: persist_appended_def same_cursors_def Let_def split: if_splits)

lemma persist_rewrite_log:
  "persist_rewrite ser io l d = (l', d') \<Longrightarrow> rl_entries l' = rl_entries l \<and> same_cursors l l'"
  by (auto simp: persist_rewrite_def same_cursors_def split: if_splits)

lemma append_entries_log:
  assumes "append_entries ser io prev pt ns l d = ((l', d'), ok)"
  shows "ok \<longleftrightarrow> term_at prev l = Some pt" and "\<not> ok \<Longrightarrow> l' = l"
    and "ok \<Longrightarrow> rl_entries l' = fst (foldl merge_entry (rl_entries l, False) ns) \<and> same_cursors l l'"
proof -
  obtain es tr where fold: "foldl merge_entry (rl_entries l, False) ns = (es, tr)" by force
  let ?l = "l\<lparr>rl_entries := es\<rparr>"
  note run = assms [unfolded append_entries_def fold Let_def prod.case]
  show "ok \<longleftrightarrow> term_at prev l = Some pt" using run by (auto split: if_splits)
  show "\<not> ok \<Longrightarrow> l' = l" using run by (auto split: if_splits)
  assume ok
  with run have "persist_rewrite ser io ?l d = (l', d') \<or> persist_appended ser io ?l d = (l', d')"
    by (auto split: if_splits)
  then have "rl_entries l' = rl_entries ?l \<and> same_cursors ?l l'"
    using persist_rewrite_log persist_appended_log by blast
  then show "rl_entries l' = fst (foldl merge_entry (rl_entries l, False) ns) \<and> same_cursors l l'"
    by (simp add: fold same_cursors_def)
qed

lemma term_at_range:
  assumes "contig s (rl_entries l)" and "term_at i l = Some t"
    and "s \<le> rl_snapshot_index l" and "rl_snapshot_index l \<le> s + length (rl_entries l)"
  shows "rl_snapshot_index l \<le> i \<and> i \<le> s + length (rl_entries l)"
  using assms(2-4) contig_entry_at [OF assms(1), of i] by (auto simp: term_at_def split: if_splits)

lemma append_entries_spec:
  assumes "append_entries ser io prev pt ns l d = ((l', d'), True)"
    and "s \<le> rl_snapshot_index l" and "contig s (rl_entries l)" and "rl_snapshot_index l \<le> s + length (rl_entries l)"
    and "contig prev ns"
  shows "rl_entries l' = merged (rl_entries l) (prev - s) ns" and "same_cursors l l'"
    and "rl_snapshot_index l \<le> prev" and "prev \<le> s + length (rl_entries l)"
    and "contig s (rl_entries l')" and "rl_snapshot_index l' \<le> s + length (rl_entries l')"
proof -
  note log = append_entries_log [OF assms(1)]
  have "rl_snapshot_index l \<le> prev \<and> prev \<le> s + length (rl_entries l)"
    using term_at_range [OF assms(3) _ assms(2,4)] log(1) by blast
  then show range: "rl_snapshot_index l \<le> prev" "prev \<le> s + length (rl_entries l)" by simp_all
  then have pos: "s + (prev - s) = prev" "prev - s \<le> length (rl_entries l)" using assms(2) by auto
  then show es: "rl_entries l' = merged (rl_entries l) (prev - s) ns"
    using log(3) merge_entries [OF assms(3), of "prev - s" ns] assms(5) by simp
  show same: "same_cursors l l'" using log(3) by simp
  show "contig s (rl_entries l')" using es merged_contig [OF assms(3), of "prev - s" ns] pos assms(5) by simp
  show "rl_snapshot_index l' \<le> s + length (rl_entries l')"
    using es merged_length [OF pos(2), of ns] range same assms(2) by (simp add: same_cursors_def)
qed

lemma append_entries_entry_at:
  assumes "append_entries ser io prev pt ns l d = ((l', d'), True)" and "log_wf l" and "contig prev ns"
  shows "log_wf l'" and "i \<le> prev \<Longrightarrow> entry_at i (rl_entries l') = entry_at i (rl_entries l)"
    and "n \<in> set ns \<Longrightarrow> \<exists>e. entry_at (le_index n) (rl_entries l') = Some e
      \<and> (e = n \<or> entry_at (le_index n) (rl_entries l) = Some e \<and> le_term e = le_term n)"
    and "\<forall>n \<in> set ns. map_option le_term (entry_at (le_index n) (rl_entries l)) = Some (le_term n)
      \<Longrightarrow> rl_entries l' = rl_entries l"
proof -
  from assms(2) obtain s where s: "s \<le> rl_snapshot_index l" "contig s (rl_entries l)"
    "rl_snapshot_index l \<le> s + length (rl_entries l)" by (auto simp: log_wf_def)
  note spec = append_entries_spec [OF assms(1) s assms(3)]
  let ?es = "rl_entries l" and ?pos = "prev - s"
  have pos: "?pos \<le> length ?es" "s + ?pos = prev" using spec(3,4) s(1) by auto
  show "log_wf l'" using spec s(1) by (auto simp: log_wf_def same_cursors_def)
  have keep: "take ?pos (rl_entries l') = take ?pos ?es" using merged_take [OF pos(1)] spec(1) by simp
  have len: "length (rl_entries l') \<ge> ?pos + length ns" using merged_length [OF pos(1)] spec(1) by simp
  show "entry_at i (rl_entries l') = entry_at i ?es" if "i \<le> prev"
  proof (cases "s < i")
    case True
    then have "take ?pos (rl_entries l') ! (i - s - 1) = take ?pos ?es ! (i - s - 1)" by (simp add: keep)
    then show ?thesis using True that pos len by (auto simp: contig_entry_at [OF s(2)] contig_entry_at [OF spec(5)])
  qed (simp add: contig_entry_at [OF s(2)] contig_entry_at [OF spec(5)])
  show "\<exists>e. entry_at (le_index n) (rl_entries l') = Some e
      \<and> (e = n \<or> entry_at (le_index n) ?es = Some e \<and> le_term e = le_term n)" if "n \<in> set ns"
  proof -
    from that obtain j where j: "j < length ns" "ns ! j = n" by (auto simp: in_set_conv_nth)
    then have index: "le_index n - s - 1 = ?pos + j" "s < le_index n" "le_index n \<le> s + length (rl_entries l')"
      using contig_nth [OF assms(3) j(1)] pos len by auto
    then have "entry_at (le_index n) (rl_entries l') = Some (merged ?es ?pos ns ! (?pos + j))"
      using contig_entry_at [OF spec(5), of "le_index n"] by (simp flip: spec(1))
    moreover have "?pos + j < length ?es \<Longrightarrow> entry_at (le_index n) ?es = Some (?es ! (?pos + j))"
      using index contig_nth [OF assms(3) j(1)] j(2) pos by (auto simp: contig_entry_at [OF s(2)])
    ultimately show ?thesis using merged_nth [OF pos(1) j(1)] j(2) by auto
  qed
  show "rl_entries l' = ?es"
    if present: "\<forall>n \<in> set ns. map_option le_term (entry_at (le_index n) ?es) = Some (le_term n)"
  proof -
    have "?pos + j < length ?es \<and> le_term (?es ! (?pos + j)) = le_term (ns ! j)" if "j < length ns" for j
    proof -
      have "le_index (ns ! j) - s - 1 = ?pos + j" "le_index (ns ! j) = prev + 1 + j"
        using contig_nth [OF assms(3) that] pos by auto
      moreover have "map_option le_term (entry_at (le_index (ns ! j)) ?es) = Some (le_term (ns ! j))"
        using present that by simp
      ultimately show ?thesis using pos by (auto simp: contig_entry_at [OF s(2)] split: if_splits)
    qed
    then show ?thesis using spec(1) merged_same by simp
  qed
qed

subsection \<open>Applying in order\<close>










lemma contig_above: "contig s es \<Longrightarrow> x \<in> set es \<Longrightarrow> s < le_index x"
  by (induction es arbitrary: s) (auto dest: Suc_lessD)

lemma contig_filter: "contig s es \<Longrightarrow> s \<le> k \<Longrightarrow> filter (\<lambda>e. le_index e > k) es = drop (k - s) es"
proof (induction es arbitrary: s)
  case (Cons e es)
  show ?case
  proof (cases "k = s")
    case True
    then have "\<forall>x \<in> set (e # es). k < le_index x" using contig_above [OF Cons.prems(1)] by blast
    with True show ?thesis by (simp add: filter_id_conv)
  next
    case False
    with Cons.IH [of "s + 1"] Cons.prems show ?thesis by (simp add: drop_Cons' Suc_diff_Suc [symmetric])
  qed
qed simp

















lemma advance_commit_fields:
  "rl_entries (advance_commit c l) = rl_entries l" "rl_last_applied (advance_commit c l) = rl_last_applied l"
  "rl_snapshot_index (advance_commit c l) = rl_snapshot_index l"
  "rl_entries (maybe_commit ms t l) = rl_entries l" "rl_last_applied (maybe_commit ms t l) = rl_last_applied l"
  "rl_snapshot_index (maybe_commit ms t l) = rl_snapshot_index l"
  by (simp_all add: advance_commit_def maybe_commit_def Let_def)




subsection \<open>Agreement with the leader\<close>

text \<open>
  The log matching property between two logs: entries with the same index and term are
  preceded by the same entries, as far as both logs still have them.
\<close>

definition log_matching :: "RaftLog \<Rightarrow> RaftLog \<Rightarrow> bool" where
  "log_matching l m \<longleftrightarrow>
     (\<forall>i e f. entry_at i (rl_entries l) = Some e \<longrightarrow> entry_at i (rl_entries m) = Some f \<longrightarrow> le_term e = le_term f
        \<longrightarrow> (\<forall>j \<le> i. rl_snapshot_index l < j \<longrightarrow> rl_snapshot_index m < j
              \<longrightarrow> entry_at j (rl_entries l) = entry_at j (rl_entries m)))"

lemma entries_after_contig:
  assumes "log_wf m" and "term_at prev m = Some t"
  shows "contig prev (entries_after prev m)"
proof -
  from assms(1) obtain s where s: "s \<le> rl_snapshot_index m" "contig s (rl_entries m)"
    "rl_snapshot_index m \<le> s + length (rl_entries m)" by (auto simp: log_wf_def)
  have range: "s \<le> prev" "prev \<le> s + length (rl_entries m)" using term_at_range [OF s(2) assms(2) s(1,3)] s(1) by auto
  have "entries_after prev m = drop (prev - s) (rl_entries m)"
    unfolding entries_after_def by (rule contig_filter [OF s(2) range(1)])
  moreover have "contig (s + (prev - s)) (drop (prev - s) (rl_entries m))"
    using s(2) contig_append [of s "take (prev - s) (rl_entries m)" "drop (prev - s) (rl_entries m)"] range
    by (simp add: min_absorb2)
  ultimately show ?thesis using range by simp
qed

lemma converges:
  assumes "log_wf l" and "log_wf m" and "log_matching l m" and "term_at prev m = Some t"
    and "append_entries ser io prev t (entries_after prev m) l d = ((l', d'), True)"
    and "rl_snapshot_index l < i" and "rl_snapshot_index m < i" and "i \<le> last_index m"
  shows "entry_at i (rl_entries l') = entry_at i (rl_entries m)"
proof -
  note app = append_entries_entry_at [OF assms(5,1) entries_after_contig [OF assms(2,4)]]
  from log_wf_entry_at [OF assms(2,7)] assms(8) obtain f where f: "entry_at i (rl_entries m) = Some f" by auto
  show ?thesis
  proof (cases "i \<le> prev")
    case True
    then have "term_at prev l = Some t" using append_entries_log(1) [OF assms(5)] by simp
    with True assms(4,6,7) obtain e g where
      "entry_at prev (rl_entries l) = Some e" "entry_at prev (rl_entries m) = Some g" "le_term e = le_term g"
      by (auto simp: term_at_def split: if_splits)
    with assms(3,6,7) True have "entry_at i (rl_entries l) = entry_at i (rl_entries m)"
      unfolding log_matching_def by blast
    with app(2) [OF True] show ?thesis by simp
  next
    case False
    then have "f \<in> set (entries_after prev m)" "le_index f = i"
      using entry_at_index [OF f] by (auto simp: entries_after_def)
    with app(3) [of f] obtain e where e: "entry_at i (rl_entries l') = Some e"
      "e = f \<or> entry_at i (rl_entries l) = Some e \<and> le_term e = le_term f" by blast
    then have "e = f" using assms(3,6,7) f unfolding log_matching_def by (metis option.inject order_refl)
    with e f show ?thesis by simp
  qed
qed

subsection \<open>The commit rule\<close>

lemma sorted_upper_half:
  fixes xs :: "nat list"
  assumes "sorted xs" and "k < length xs"
  shows "length (filter (\<lambda>x. xs ! k \<le> x) xs) \<ge> length xs - k"
proof -
  have "\<forall>x \<in> set (drop k xs). xs ! k \<le> x"
    using assms by (auto simp: in_set_conv_nth intro!: sorted_nth_mono)
  then have "filter (\<lambda>x. xs ! k \<le> x) (drop k xs) = drop k xs" by (simp add: filter_id_conv)
  moreover have "length (filter (\<lambda>x. xs ! k \<le> x) xs)
      = length (filter (\<lambda>x. xs ! k \<le> x) (take k xs)) + length (filter (\<lambda>x. xs ! k \<le> x) (drop k xs))"
    by (metis append_take_drop_id filter_append length_append)
  ultimately show ?thesis by simp
qed

lemma length_filter_sort: "length (filter P (sort xs)) = length (filter P (xs :: nat list))"
  by (simp add: filter_sort)

lemma maybe_commit_majority:
  assumes "maybe_commit ms t l = l'" and "rl_commit_index l' \<noteq> rl_commit_index l"
  shows "length (filter (\<lambda>x. rl_commit_index l' \<le> x) ms) \<ge> length ms div 2 + 1
    \<and> term_at (rl_commit_index l') l = Some t \<and> rl_commit_index l < rl_commit_index l'"
proof -
  let ?k = "(length ms - 1) div 2"
  have "ms \<noteq> []" "rl_commit_index l' = sort ms ! ?k" "term_at (rl_commit_index l') l = Some t"
    "rl_commit_index l < rl_commit_index l'"
    using assms by (auto simp: maybe_commit_def Let_def split: if_splits)
  moreover from \<open>ms \<noteq> []\<close> have "?k < length ms" by (cases ms) (simp_all add: le_imp_less_Suc)
  moreover have "length (filter (\<lambda>x. sort ms ! ?k \<le> x) (sort ms)) \<ge> length (sort ms) - ?k"
    using \<open>?k < length ms\<close> by (intro sorted_upper_half) simp_all
  moreover have "length ms - ?k = length ms div 2 + 1" using \<open>?k < length ms\<close> by presburger
  ultimately show ?thesis by (simp add: length_filter_sort)
qed

subsection \<open>The file\<close>




lemma frames_simps [simp]: "frames ser [] = []" "frames ser (e # es) = frame ser e @ frames ser es"
  "frames ser (xs @ ys) = frames ser xs @ frames ser ys"
  by (simp_all add: frames_def)


lemma read_records_Nil [simp]: "read_records de [] = []"
  by (subst read_records.simps) simp





lemma read_write_snapshot_meta:
  "i < 2 ^ 64 \<Longrightarrow> t < 2 ^ 64 \<Longrightarrow> read_snapshot_meta (write_snapshot_meta Io_ok i t d) = (i, t)"
  using parse_u64_show by (simp add: read_snapshot_meta_def write_snapshot_meta_def Let_def)

subsection \<open>Properties\<close>

text \<open>
  C19. A follower that accepts the leader's entries has the leader's log. If the two logs match
  before, and the follower accepts an \<open>AppendEntries\<close> carrying everything the leader has after
  the previous index, then afterwards both agree on every index up to the leader's last that
  neither has compacted away, whatever uncommitted suffix the follower had; its log is still
  gap-free, and a message the follower already had changes nothing.
\<close>

theorem append_entries_converges:
  assumes "log_wf l" and "log_wf m" and "log_matching l m" and "term_at prev m = Some t"
    and "append_entries ser io prev t (entries_after prev m) l d = ((l', d'), True)"
  shows "log_wf l'
    \<and> (\<forall>i. rl_snapshot_index l < i \<and> rl_snapshot_index m < i \<and> i \<le> last_index m
        \<longrightarrow> entry_at i (rl_entries l') = entry_at i (rl_entries m))
    \<and> ((\<forall>n \<in> set (entries_after prev m). map_option le_term (entry_at (le_index n) (rl_entries l)) = Some (le_term n))
        \<longrightarrow> rl_entries l' = rl_entries l)"
  using append_entries_entry_at(1,4) [OF assms(5,1) entries_after_contig [OF assms(2,4)]] converges [OF assms] by blast

definition ex_entry :: "nat \<Rightarrow> nat \<Rightarrow> LogEntry" where
  "ex_entry t i = \<lparr>le_term = t, le_index = i, le_data = [of_nat t, of_nat i]\<rparr>"

definition ex_log :: "LogEntry list \<Rightarrow> RaftLog" where
  "ex_log es = raft_log_new\<lparr>rl_entries := es\<rparr>"

definition ex_ser :: bincode_ser where
  "ex_ser e = Some [of_nat (le_term e), of_nat (le_index e)]"


lemma ex_logs_wf: "log_wf (ex_log [ex_entry 1 1, ex_entry 1 2, ex_entry 1 3])" "log_wf (ex_log [ex_entry 1 1, ex_entry 2 2])"
  by (auto simp: log_wf_def ex_log_def raft_log_new_def ex_entry_def intro!: exI [of _ 0])

theorem append_entries_converges_witness:
  "\<exists>l' d'. append_entries ex_ser Io_ok 1 1 (entries_after 1 (ex_log [ex_entry 1 1, ex_entry 2 2]))
      (ex_log [ex_entry 1 1, ex_entry 1 2, ex_entry 1 3]) \<lparr>rd_log = None, rd_snap = None\<rparr> = ((l', d'), True)
    \<and> entry_at 2 (rl_entries l') = Some (ex_entry 2 2)"
proof -
  let ?l = "ex_log [ex_entry 1 1, ex_entry 1 2, ex_entry 1 3]" and ?m = "ex_log [ex_entry 1 1, ex_entry 2 2]"
  let ?run = "append_entries ex_ser Io_ok 1 1 (entries_after 1 ?m) ?l \<lparr>rd_log = None, rd_snap = None\<rparr>"
  have "snd ?run = True" by code_simp
  then have run: "?run = ((fst (fst ?run), snd (fst ?run)), True)" by (metis prod.collapse)
  have "log_matching ?l ?m"
    by (auto simp: log_matching_def ex_log_def ex_entry_def entry_at_def raft_log_new_def split: if_splits)
  moreover have "term_at 1 ?m = Some 1" by code_simp
  ultimately have "entry_at 2 (rl_entries (fst (fst ?run))) = entry_at 2 (rl_entries ?m)"
    using append_entries_converges [OF ex_logs_wf _ _ run]
    by (auto simp: ex_log_def ex_entry_def raft_log_new_def last_index_def)
  moreover have "entry_at 2 (rl_entries ?m) = Some (ex_entry 2 2)" by code_simp
  ultimately show ?thesis using run by metis
qed



text \<open>
  C21. The commit rule needs a majority in the current term. When \<open>maybe_commit\<close> moves the
  commit index, it moves it forward, to an index that more than half of the given match indexes
  reach and whose entry is of the current term.
\<close>

theorem commit_needs_majority:
  assumes "rl_commit_index (maybe_commit match_indexes current_term l) \<noteq> rl_commit_index l"
  shows "length (filter (\<lambda>x. rl_commit_index (maybe_commit match_indexes current_term l) \<le> x) match_indexes)
      \<ge> length match_indexes div 2 + 1
    \<and> term_at (rl_commit_index (maybe_commit match_indexes current_term l)) l = Some current_term
    \<and> rl_commit_index l < rl_commit_index (maybe_commit match_indexes current_term l)"
  by (rule maybe_commit_majority [OF refl assms])

theorem commit_needs_majority_witness:
  "rl_commit_index (maybe_commit [2, 1, 2] 2 (ex_log [ex_entry 1 1, ex_entry 2 2])) = 2
    \<and> length (filter (\<lambda>x. 2 \<le> x) [2, 1, 2 :: nat]) \<ge> 2"
proof -
  have "rl_commit_index (maybe_commit [2, 1, 2] 2 (ex_log [ex_entry 1 1, ex_entry 2 2])) = 2"
    "rl_commit_index (ex_log [ex_entry 1 1, ex_entry 2 2]) = 0" by code_simp+
  with commit_needs_majority [of "[2, 1, 2]" 2 "ex_log [ex_entry 1 1, ex_entry 2 2]"] show ?thesis by simp
qed



lemma index_position_above: "\<forall>e \<in> set es. le_index e < i \<Longrightarrow> index_position i es = None"
  by (induction es) auto

lemma merge_entry_above:
  "contig s ns \<Longrightarrow> \<forall>e \<in> set pre. le_index e \<le> s \<Longrightarrow> foldl merge_entry (pre, False) ns = (pre @ ns, False)"
proof (induction ns arbitrary: pre s)
  case (Cons n ns)
  then have "index_position (le_index n) pre = None" by (intro index_position_above) auto
  then have "merge_entry (pre, False) n = (pre @ [n], False)" by (simp add: merge_entry_def)
  moreover have "\<forall>e \<in> set (pre @ [n]). le_index e \<le> s + 1" using Cons.prems by auto
  ultimately show ?case using Cons.IH [of "s + 1" "pre @ [n]"] Cons.prems(1) by simp
qed simp

text \<open>
  C23. A peer added after a compaction never catches up. A leader without progress for a peer
  sends from index 1; once its log is compacted the term of the previous index 0 is unknown and
  sent as 0, which an empty log accepts. The new peer then acknowledges the leader's last index
  although its log misses everything up to the snapshot, and it never applies an entry, however
  far the leader's commit index advances.
\<close>

theorem added_peer_gap:
  assumes "0 < rl_snapshot_index m" and "contig (rl_snapshot_index m) (rl_entries m)"
    and "rl_entries m \<noteq> []"
    and "append_entries ser io 0 (case term_at 0 m of Some t \<Rightarrow> t | None \<Rightarrow> 0) (entries_after 0 m)
      raft_log_new d = ((l', d'), ok)"
  shows "ok \<and> last_index l' = last_index m \<and> entry_at 1 (rl_entries l') = None
    \<and> snd (take_applicable (advance_commit c l')) = []"
proof -
  have none: "term_at 0 m = None" using assms(1) by (simp add: term_at_def)
  have all: "entries_after 0 m = rl_entries m"
    using contig_above [OF assms(2)] by (auto simp: entries_after_def filter_id_conv dest: gr_implies_not0)
  note run = append_entries_log [OF assms(4) [unfolded none all option.case]]
  have ok: ok using run(1) by (simp add: term_at_def raft_log_new_def)
  have es: "rl_entries l' = rl_entries m"
    using run(3) [OF ok] merge_entry_above [OF assms(2), of "[]"] by (simp add: raft_log_new_def)
  moreover have "entry_at 1 (rl_entries l') = None"
    using es contig_entry_at [OF assms(2), of 1] assms(1) by simp
  moreover have "rl_last_applied (advance_commit c l') = 0" "rl_entries (advance_commit c l') = rl_entries l'"
    using run(3) [OF ok] by (simp_all add: advance_commit_fields same_cursors_def raft_log_new_def)
  ultimately show ?thesis
    using ok assms(3) take_applicable_from.simps [of 0 "advance_commit c l'"]
    by (simp add: last_index_def take_applicable_def)
qed

theorem added_peer_gap_witness:
  "\<exists>l' d'. append_entries ex_ser Io_ok 0 0 [ex_entry 1 4] raft_log_new \<lparr>rd_log = None, rd_snap = None\<rparr> = ((l', d'), True)
    \<and> last_index l' = 4 \<and> snd (take_applicable (advance_commit 4 l')) = []"
proof -
  let ?m = "(ex_log [ex_entry 1 4])\<lparr>rl_snapshot_index := 3, rl_snapshot_term := 1\<rparr>"
  have m: "0 < rl_snapshot_index ?m" "contig (rl_snapshot_index ?m) (rl_entries ?m)" "rl_entries ?m \<noteq> []"
    "term_at 0 ?m = None" "entries_after 0 ?m = [ex_entry 1 4]" "last_index ?m = 4"
    by (simp_all add: ex_log_def ex_entry_def term_at_def entries_after_def last_index_def)
  obtain l' d' ok where run: "append_entries ex_ser Io_ok 0 0 [ex_entry 1 4] raft_log_new
      \<lparr>rd_log = None, rd_snap = None\<rparr> = ((l', d'), ok)" by (metis prod.collapse)
  from added_peer_gap [OF m(1-3), of ex_ser Io_ok "\<lparr>rd_log = None, rd_snap = None\<rparr>" l' d' ok 4] run m(4-6)
  show ?thesis by auto
qed

end
