(* ===== verification/Raft_Node.thy ===== *)
theory Raft_Node
  imports Raft_Log Errors "HOL-Library.AList"
begin

section \<open>The Raft node\<close>

text \<open>
  \<open>crates/elyra-server/src/cluster.rs\<close>: a node's election state, its handlers for the
  control-plane messages, elections, the leader's replication round and the proposals of
  clients. The state machine is a parameter: \<open>app data db\<close> is what deserializing and applying
  one entry to the database does. Clocks and the randomized election timeout are the deadline
  a handler is given; the outcome of a file operation is an argument. Client channels are
  numbers, with the answers sent so far recorded in the node. Terms, indexes and ids are \<open>u64\<close>
  values kept as naturals.
\<close>

subsection \<open>State and messages\<close>

record Peer =
  pe_id :: nat
  pe_addr :: string

datatype Role = Follower | Candidate | Leader

record RaftState =
  ns_term :: nat
  ns_voted_for :: "nat option"
  ns_role :: Role
  ns_leader :: "nat option"
  ns_deadline :: nat

record LeaderInfo =
  li_id :: nat
  li_is_self :: bool
  li_repl_addr :: string

record Progress =
  pg_next :: nat
  pg_match :: nat

datatype Msg =
    RequestVote nat nat nat nat
  | Vote nat bool
  | AppendEntries nat nat string "(nat \<times> string) list" nat nat "LogEntry list" nat nat
  | AppendAck nat bool nat
  | AddPeer nat string
  | RemovePeer nat
  | CtlAck bool

record 'db Node =
  nd_id :: nat
  nd_listen :: string
  nd_repl_addr :: string
  nd_cfg_peers :: "Peer list"
  nd_peers :: "Peer list"
  nd_state :: RaftState
  nd_log :: RaftLog
  nd_disk :: RaftDisk
  nd_state_file :: "string option"
  nd_db :: 'db
  nd_pending :: "(nat \<times> nat) list"
  nd_progress :: "(nat \<times> Progress) list"
  nd_leader :: "LeaderInfo option"
  nd_answers :: "(nat \<times> (Error + unit)) list"

record Replication =
  rp_inflight :: "(nat \<times> nat) list"
  rp_round :: nat

record PeerReply =
  pr_peer :: nat
  pr_term :: nat
  pr_round :: nat
  pr_reply :: "Msg option"

datatype ReplyOutcome = Acked | Refused | Ignored | SteppedDown

text \<open>Serialization of log entries, and what applying the bytes of an entry does.\<close>

record 'db machine =
  mc_ser :: bincode_ser
  mc_app :: "bytes \<Rightarrow> 'db \<Rightarrow> 'db \<times> (Error + unit)"
  mc_noop :: bytes

subsection \<open>The election state file\<close>

definition persist_text :: "nat \<Rightarrow> nat option \<Rightarrow> string" where
  "persist_text trm voted_for =
     show_nat trm @ newline # (case voted_for of Some v \<Rightarrow> show_nat v | None \<Rightarrow> []) @ [newline]"

definition load_state :: "string option \<Rightarrow> nat \<times> nat option" where
  "load_state file =
     (case file of
        None \<Rightarrow> (0, None)
      | Some s \<Rightarrow>
          (let ls = str_lines s;
               trm = (case ls of [] \<Rightarrow> 0 | l # _ \<Rightarrow> (case parse_u64 (str_trim l) of Some n \<Rightarrow> n | None \<Rightarrow> 0));
               voted_for = (case drop 1 ls of [] \<Rightarrow> None | l # _ \<Rightarrow> parse_u64 (str_trim l))
           in (trm, voted_for)))"

definition persist_state :: "io_outcome \<Rightarrow> 'db Node \<Rightarrow> 'db Node" where
  "persist_state io n =
     (if io = Io_ok
      then n\<lparr>nd_state_file := Some (persist_text (ns_term (nd_state n)) (ns_voted_for (nd_state n)))\<rparr>
      else n)"

subsection \<open>Membership\<close>

definition majority :: "'db Node \<Rightarrow> nat" where
  "majority n = (length (nd_peers n) + 1) div 2 + 1"

definition adopt_members :: "(nat \<times> string) list \<Rightarrow> 'db Node \<Rightarrow> 'db Node" where
  "adopt_members ms n =
     n\<lparr>nd_peers := map (\<lambda>(i, a). \<lparr>pe_id = i, pe_addr = a\<rparr>) (filter (\<lambda>(i, _). i \<noteq> nd_id n) ms)\<rparr>"

definition members :: "'db Node \<Rightarrow> (nat \<times> string) list" where
  "members n = (nd_id n, nd_listen n) # map (\<lambda>p. (pe_id p, pe_addr p)) (nd_peers n)"

definition add_peer :: "nat \<Rightarrow> string \<Rightarrow> 'db Node \<Rightarrow> 'db Node" where
  "add_peer i addr n =
     (if i \<noteq> nd_id n \<and> (\<forall>p \<in> set (nd_peers n). pe_id p \<noteq> i)
      then n\<lparr>nd_peers := nd_peers n @ [\<lparr>pe_id = i, pe_addr = addr\<rparr>]\<rparr> else n)"

definition remove_peer :: "nat \<Rightarrow> 'db Node \<Rightarrow> 'db Node" where
  "remove_peer i n = n\<lparr>nd_peers := filter (\<lambda>p. pe_id p \<noteq> i) (nd_peers n)\<rparr>"

subsection \<open>Clients\<close>

definition drain_pending :: "string \<Rightarrow> 'db Node \<Rightarrow> 'db Node" where
  "drain_pending err n =
     n\<lparr>nd_pending := [], nd_answers := nd_answers n @ map (\<lambda>(_, c). (c, Inl (Storage err))) (nd_pending n)\<rparr>"

definition not_the_leader :: Error where
  "not_the_leader = Storage ''not the leader: writes must go to the current leader''"

text \<open>
  \<open>propose\<close> reads the term under one lock and appends under another, so it is two steps:
  another handler may run in between.
\<close>

definition propose_check :: "'db Node \<Rightarrow> Error + nat" where
  "propose_check n =
     (if ns_role (nd_state n) \<noteq> Leader then Inl not_the_leader else Inr (ns_term (nd_state n)))"

definition commit_not_confirmed :: Error where
  "commit_not_confirmed = Storage ''commit not confirmed (leadership change)''"

text \<open>A sender that the new one displaces is dropped, which its client sees as an error.\<close>

definition propose_append :: "nat \<Rightarrow> bytes \<Rightarrow> nat \<Rightarrow> 'db Node \<Rightarrow> 'db Node" where
  "propose_append trm data client n =
     (let (log, index) = leader_append trm data (nd_log n);
          displaced = (case map_of (nd_pending n) index of Some c \<Rightarrow> [(c, Inl commit_not_confirmed)] | None \<Rightarrow> [])
      in n\<lparr>nd_log := log, nd_pending := AList.update index client (nd_pending n), nd_answers := nd_answers n @ displaced\<rparr>)"

subsection \<open>Handlers\<close>

definition on_request_vote ::
  "io_outcome \<Rightarrow> nat \<Rightarrow> nat \<Rightarrow> nat \<Rightarrow> nat \<Rightarrow> nat \<Rightarrow> 'db Node \<Rightarrow> 'db Node \<times> Msg" where
  "on_request_vote io deadline trm candidate last_log_index last_log_term n =
     (let s = nd_state n;
          newer = trm > ns_term s;
          s1 = (if newer then s\<lparr>ns_term := trm, ns_voted_for := None, ns_role := Follower\<rparr> else s);
          up_to_date = is_up_to_date last_log_term last_log_index (nd_log n);
          granted = (trm = ns_term s1 \<and> (ns_voted_for s1 = None \<or> ns_voted_for s1 = Some candidate) \<and> up_to_date);
          s2 = (if granted then s1\<lparr>ns_voted_for := Some candidate, ns_deadline := deadline\<rparr> else s1);
          n1 = n\<lparr>nd_state := s2\<rparr>;
          n2 = (if newer \<or> granted then persist_state io n1 else n1)
      in (n2, Vote (ns_term s2) granted))"

fun apply_entries :: "'db machine \<Rightarrow> LogEntry list \<Rightarrow> 'db \<Rightarrow> 'db \<times> (nat \<times> (Error + unit)) list" where
  "apply_entries m [] db = (db, [])"
| "apply_entries m (e # es) db =
     (let (db1, r) = mc_app m (le_data e) db;
          (db2, rs) = apply_entries m es db1
      in (db2, (le_index e, r) # rs))"

text \<open>
  \<open>on_append_entries\<close>: the sender of a current term is accepted as leader, then the entries are
  stored, the newly committed ones applied in log order and the log compacted.
\<close>

definition accept_leader ::
  "io_outcome \<Rightarrow> nat \<Rightarrow> nat \<Rightarrow> nat \<Rightarrow> string \<Rightarrow> (nat \<times> string) list \<Rightarrow> 'db Node \<Rightarrow> 'db Node" where
  "accept_leader io deadline trm leader repl_addr ms n =
     (let s = nd_state n;
          s1 = (if trm > ns_term s then s\<lparr>ns_term := trm, ns_voted_for := None\<rparr> else s);
          was_leader = (ns_role s1 = Leader);
          s2 = s1\<lparr>ns_role := Follower, ns_leader := Some leader, ns_deadline := deadline\<rparr>;
          n1 = persist_state io (n\<lparr>nd_state := s2\<rparr>);
          n2 = (if was_leader then drain_pending ''stepped down: no longer leader'' n1 else n1)
      in (adopt_members ms n2)\<lparr>nd_leader :=
           Some \<lparr>li_id = leader, li_is_self = (leader = nd_id n), li_repl_addr = repl_addr\<rparr>\<rparr>)"

definition store_entries ::
  "'db machine \<Rightarrow> io_outcome \<Rightarrow> nat \<Rightarrow> nat \<Rightarrow> LogEntry list \<Rightarrow> nat \<Rightarrow> nat \<Rightarrow> 'db Node \<Rightarrow> 'db Node \<times> bool \<times> nat" where
  "store_entries m io prev_index prev_term entries leader_commit compact_index n =
     (let ((log1, disk1), ok) = append_entries (mc_ser m) io prev_index prev_term entries (nd_log n) (nd_disk n)
      in if \<not> ok then (n, False, 0)
         else
           let log2 = advance_commit leader_commit log1;
               (log3, to_apply) = take_applicable log2;
               (db, _) = apply_entries m to_apply (nd_db n);
               (log4, disk2) = compact (mc_ser m) io io compact_index log3 disk1
           in (n\<lparr>nd_log := log4, nd_disk := disk2, nd_db := db\<rparr>, True, last_index log2))"

definition on_append_entries ::
  "'db machine \<Rightarrow> io_outcome \<Rightarrow> nat \<Rightarrow> nat \<Rightarrow> nat \<Rightarrow> string \<Rightarrow> (nat \<times> string) list \<Rightarrow> nat \<Rightarrow> nat
     \<Rightarrow> LogEntry list \<Rightarrow> nat \<Rightarrow> nat \<Rightarrow> 'db Node \<Rightarrow> 'db Node \<times> Msg" where
  "on_append_entries m io deadline trm leader repl_addr ms prev_index prev_term entries leader_commit compact_index n =
     (if trm < ns_term (nd_state n) then (n, AppendAck (ns_term (nd_state n)) False 0)
      else
        let (n', ok, match_index) = store_entries m io prev_index prev_term entries leader_commit compact_index
              (accept_leader io deadline trm leader repl_addr ms n)
        in (n', AppendAck (ns_term (nd_state n')) ok match_index))"

definition handle_control :: "'db machine \<Rightarrow> io_outcome \<Rightarrow> nat \<Rightarrow> Msg \<Rightarrow> 'db Node \<Rightarrow> 'db Node \<times> Msg" where
  "handle_control m io deadline msg n =
     (case msg of
        AddPeer i addr \<Rightarrow> (add_peer i addr n, CtlAck True)
      | RemovePeer i \<Rightarrow> (remove_peer i n, CtlAck True)
      | RequestVote trm candidate last_log_index last_log_term \<Rightarrow>
          on_request_vote io deadline trm candidate last_log_index last_log_term n
      | AppendEntries trm leader repl_addr ms prev_index prev_term entries leader_commit compact_index \<Rightarrow>
          on_append_entries m io deadline trm leader repl_addr ms prev_index prev_term entries leader_commit compact_index n
      | _ \<Rightarrow> (n, CtlAck False))"

subsection \<open>Elections\<close>

text \<open>Standing for election: the new term, the vote for itself, and the request to send.\<close>

definition start_election :: "io_outcome \<Rightarrow> nat \<Rightarrow> 'db Node \<Rightarrow> 'db Node \<times> Msg" where
  "start_election io deadline n =
     (let s = (nd_state n)\<lparr>ns_term := ns_term (nd_state n) + 1, ns_role := Candidate,
                ns_voted_for := Some (nd_id n), ns_leader := None, ns_deadline := deadline\<rparr>
      in (persist_state io (n\<lparr>nd_state := s\<rparr>),
          RequestVote (ns_term s) (nd_id n) (last_index (nd_log n)) (last_term (nd_log n))))"

text \<open>One reply of the loop over the votes; \<open>None\<close> when a later term ends the election.\<close>

definition count_vote :: "io_outcome \<Rightarrow> nat \<Rightarrow> Msg option \<Rightarrow> nat \<Rightarrow> 'db Node \<Rightarrow> 'db Node \<times> nat option" where
  "count_vote io trm reply votes n =
     (case reply of
        Some (Vote t granted) \<Rightarrow>
          (let s = nd_state n in
           if t > ns_term s
           then (persist_state io (n\<lparr>nd_state := s\<lparr>ns_term := t, ns_role := Follower, ns_voted_for := None\<rparr>\<rparr>), None)
           else (n, Some (if granted \<and> ns_role s = Candidate \<and> ns_term s = trm then votes + 1 else votes)))
      | _ \<Rightarrow> (n, Some votes))"

definition finish_election :: "'db machine \<Rightarrow> nat \<Rightarrow> nat \<Rightarrow> 'db Node \<Rightarrow> 'db Node \<times> bool" where
  "finish_election m trm votes n =
     (let s = nd_state n in
      if ns_role s = Candidate \<and> ns_term s = trm \<and> votes \<ge> majority n then
        let last = last_index (nd_log n);
            progress = map (\<lambda>p. (pe_id p, \<lparr>pg_next = last + 1, pg_match = 0\<rparr>)) (nd_peers n);
            (log, _) = leader_append trm (mc_noop m) (nd_log n)
        in (n\<lparr>nd_state := s\<lparr>ns_role := Leader, ns_leader := Some (nd_id n)\<rparr>, nd_progress := progress, nd_log := log,
              nd_leader := Some \<lparr>li_id = nd_id n, li_is_self = True, li_repl_addr = nd_repl_addr n\<rparr>\<rparr>, True)
      else (n, False))"

subsection \<open>Replication\<close>

definition compact_point :: "'db Node \<Rightarrow> nat" where
  "compact_point n =
     (if nd_peers n = [] then rl_last_applied (nd_log n)
      else Min (set (map (\<lambda>p. case map_of (nd_progress n) (pe_id p) of Some x \<Rightarrow> pg_match x | None \<Rightarrow> 0) (nd_peers n))))"

definition append_message :: "nat \<Rightarrow> nat \<Rightarrow> nat \<Rightarrow> Peer \<Rightarrow> 'db Node \<Rightarrow> Msg" where
  "append_message trm leader_commit compact_index peer n =
     (let next_i = (case map_of (nd_progress n) (pe_id peer) of Some p \<Rightarrow> pg_next p | None \<Rightarrow> 1);
          prev_index = next_i - 1;
          prev_term = (case term_at prev_index (nd_log n) of Some t \<Rightarrow> t | None \<Rightarrow> 0)
      in AppendEntries trm (nd_id n) (nd_repl_addr n) (members n) prev_index prev_term
           (entries_after prev_index (nd_log n)) leader_commit compact_index)"

text \<open>
  The first half of \<open>replicate_round\<close>: the log is synced, and every peer that is not still
  answering is sent what it lacks.
\<close>

definition launch_round ::
  "'db machine \<Rightarrow> io_outcome \<Rightarrow> Replication \<Rightarrow> 'db Node \<Rightarrow> ('db Node \<times> Replication \<times> (nat \<times> Msg) list) option" where
  "launch_round m io repl n =
     (if ns_role (nd_state n) \<noteq> Leader then None
      else
        let trm = ns_term (nd_state n);
            (log, disk) = raft_sync (mc_ser m) io (nd_log n) (nd_disk n);
            n1 = n\<lparr>nd_log := log, nd_disk := disk\<rparr>;
            compact_index = compact_point n1;
            rnd = rp_round repl + 1;
            free = filter (\<lambda>p. map_of (rp_inflight repl) (pe_id p) = None) (nd_peers n1);
            msgs = map (\<lambda>p. (pe_id p, append_message trm (rl_commit_index log) compact_index p n1)) free
        in Some (n1, repl\<lparr>rp_round := rnd, rp_inflight := foldl (\<lambda>f p. AList.update (pe_id p) rnd f) (rp_inflight repl) free\<rparr>, msgs))"

definition take_reply ::
  "io_outcome \<Rightarrow> nat \<Rightarrow> PeerReply \<Rightarrow> Replication \<Rightarrow> 'db Node \<Rightarrow> Replication \<times> 'db Node \<times> ReplyOutcome" where
  "take_reply io trm reply repl n =
     (let repl1 = (if map_of (rp_inflight repl) (pr_peer reply) = Some (pr_round reply)
                   then repl\<lparr>rp_inflight := AList.delete (pr_peer reply) (rp_inflight repl)\<rparr> else repl)
      in if pr_term reply \<noteq> trm then (repl1, n, Ignored)
         else case pr_reply reply of
           Some (AppendAck t success match_index) \<Rightarrow>
             if t > trm then
               (let s = nd_state n in
                (repl1,
                 if t > ns_term s
                 then drain_pending ''stepped down during replication''
                   (persist_state io (n\<lparr>nd_state := s\<lparr>ns_term := t, ns_role := Follower, ns_voted_for := None\<rparr>\<rparr>))
                 else n,
                 SteppedDown))
             else
               (let p = (case map_of (nd_progress n) (pr_peer reply) of Some p \<Rightarrow> p | None \<Rightarrow> \<lparr>pg_next = 1, pg_match = 0\<rparr>);
                    p' = (if success then \<lparr>pg_next = match_index + 1, pg_match = match_index\<rparr>
                          else if pg_next p > 1 then p\<lparr>pg_next := pg_next p - 1\<rparr> else p)
                in (repl1, n\<lparr>nd_progress := AList.update (pr_peer reply) p' (nd_progress n)\<rparr>,
                    if success then Acked else Refused))
         | _ \<Rightarrow> (repl1, n, Refused))"

definition step_down :: "nat \<Rightarrow> string \<Rightarrow> 'db Node \<Rightarrow> 'db Node" where
  "step_down deadline reason n =
     (let s = nd_state n in
      if ns_role s \<noteq> Leader then n
      else (drain_pending reason
             (n\<lparr>nd_state := s\<lparr>ns_role := Follower, ns_leader := None, ns_deadline := deadline\<rparr>\<rparr>))\<lparr>nd_leader := None\<rparr>)"

fun answer_pending :: "(nat \<times> (Error + unit)) list \<Rightarrow> 'db Node \<Rightarrow> 'db Node" where
  "answer_pending [] n = n"
| "answer_pending ((index, result) # rest) n =
     answer_pending rest
       (case map_of (nd_pending n) index of
          Some c \<Rightarrow> n\<lparr>nd_pending := AList.delete index (nd_pending n), nd_answers := nd_answers n @ [(c, result)]\<rparr>
        | None \<Rightarrow> n)"

definition advance_commit_and_apply :: "'db machine \<Rightarrow> nat \<Rightarrow> 'db Node \<Rightarrow> 'db Node" where
  "advance_commit_and_apply m trm n =
     (let match_indexes = last_index (nd_log n) # map (\<lambda>e. pg_match (snd e)) (nd_progress n);
          (log, to_apply) = take_applicable (maybe_commit match_indexes trm (nd_log n));
          (db, results) = apply_entries m to_apply (nd_db n)
      in answer_pending results (n\<lparr>nd_log := log, nd_db := db\<rparr>))"

text \<open>The end of \<open>replicate_round\<close>: commit what a majority has, then compact.\<close>

definition finish_round :: "'db machine \<Rightarrow> io_outcome \<Rightarrow> nat \<Rightarrow> nat \<Rightarrow> 'db Node \<Rightarrow> 'db Node" where
  "finish_round m io trm compact_index n =
     (let n1 = advance_commit_and_apply m trm n;
          (log, disk) = compact (mc_ser m) io io compact_index (nd_log n1) (nd_disk n1)
      in n1\<lparr>nd_log := log, nd_disk := disk\<rparr>)"

text \<open>
  \<open>replicate_round\<close> as one step, given the replies in the order they arrive: those that come
  before the deadline, and those found waiting afterwards. The flag is false when a reply made
  the node step down.
\<close>

fun collect_replies ::
  "io_outcome \<Rightarrow> nat \<Rightarrow> nat \<Rightarrow> nat \<Rightarrow> PeerReply list \<Rightarrow> nat \<Rightarrow> nat \<Rightarrow> Replication \<Rightarrow> 'db Node
     \<Rightarrow> PeerReply list \<times> Replication \<times> 'db Node \<times> bool" where
  "collect_replies io trm rnd launched [] acks answered repl n = ([], repl, n, True)"
| "collect_replies io trm rnd launched (r # rs) acks answered repl n =
     (if acks < majority n \<and> answered < launched then
        let (repl1, n1, out) = take_reply io trm r repl n;
            this_round = (pr_round r = rnd)
        in if out = SteppedDown then (rs, repl1, n1, False)
           else collect_replies io trm rnd launched rs
                  (if out = Acked \<and> this_round then acks + 1 else acks)
                  (if this_round then answered + 1 else answered) repl1 n1
      else (r # rs, repl, n, True))"

fun drain_replies :: "io_outcome \<Rightarrow> nat \<Rightarrow> PeerReply list \<Rightarrow> Replication \<Rightarrow> 'db Node \<Rightarrow> Replication \<times> 'db Node \<times> bool" where
  "drain_replies io trm [] repl n = (repl, n, True)"
| "drain_replies io trm (r # rs) repl n =
     (let (repl1, n1, out) = take_reply io trm r repl n
      in if out = SteppedDown then (repl1, n1, False) else drain_replies io trm rs repl1 n1)"

definition replicate_round ::
  "'db machine \<Rightarrow> io_outcome \<Rightarrow> PeerReply list \<Rightarrow> PeerReply list \<Rightarrow> Replication \<Rightarrow> 'db Node \<Rightarrow> Replication \<times> 'db Node" where
  "replicate_round m io early late repl n =
     (case launch_round m io repl n of
        None \<Rightarrow> (repl, n)
      | Some (n1, repl1, msgs) \<Rightarrow>
          (let trm = ns_term (nd_state n);
               (left, repl2, n2, on) = collect_replies io trm (rp_round repl1) (length msgs) early 1 0 repl1 n1
           in if \<not> on then (repl2, n2)
              else
                let (repl3, n3, on) = drain_replies io trm (left @ late) repl2 n2
                in if \<not> on then (repl3, n3)
                   else (repl3, finish_round m io trm (compact_point n1) n3)))"

text \<open>
  \<open>Node::new\<close> over the files of a node that stopped: the peers are those of its configuration,
  and a log without a path starts empty. The state file is always configured.
\<close>

definition node_restart :: "bincode_de \<Rightarrow> nat \<Rightarrow> 'db Node \<Rightarrow> 'db Node" where
  "node_restart de deadline n =
     (let (trm, voted_for) = load_state (nd_state_file n)
      in n\<lparr>nd_state := \<lparr>ns_term = trm, ns_voted_for = voted_for, ns_role = Follower, ns_leader = None, ns_deadline = deadline\<rparr>,
           nd_peers := nd_cfg_peers n,
           nd_log := (if rl_path (nd_log n) then raft_open de (nd_disk n) else raft_log_new), nd_pending := [], nd_progress := [], nd_leader := None\<rparr>)"

end
