(* ===== verification/Raft_Cluster.thy ===== *)
theory Raft_Cluster
  imports Raft_Node Raft_Log_Laws
begin

section \<open>The cluster: elections\<close>

text \<open>
  All nodes together, with a network that loses, delays and duplicates messages and nodes that
  crash and restart from their files. The members are fixed and files are written when a
  handler writes them. The property is election safety: one leader per term.
\<close>

subsection \<open>Quorums\<close>

locale quorum_system =
  fixes quorum :: "'v set \<Rightarrow> bool"
  assumes quorums_meet: "quorum p \<Longrightarrow> quorum q \<Longrightarrow> \<exists>v. v \<in> p \<and> v \<in> q"
begin

lemma winner_unique:
  assumes "\<And>v c d. votes v c \<Longrightarrow> votes v d \<Longrightarrow> c = d"
    and "quorum p" and "\<And>v. v \<in> p \<Longrightarrow> votes v c" and "quorum q" and "\<And>v. v \<in> q \<Longrightarrow> votes v d"
  shows "c = d"
  using assms quorums_meet by metis

end

definition majority_of :: "nat set \<Rightarrow> nat set \<Rightarrow> bool" where
  "majority_of ms q \<longleftrightarrow> finite ms \<and> q \<subseteq> ms \<and> card ms div 2 + 1 \<le> card q"

interpretation maj: quorum_system "majority_of ms" for ms
proof
  fix p q
  assume "majority_of ms p" "majority_of ms q"
  then have ms: "finite ms" "p \<subseteq> ms" "q \<subseteq> ms" and card: "card ms div 2 + 1 \<le> card p" "card ms div 2 + 1 \<le> card q"
    by (auto simp: majority_of_def)
  have "p \<inter> q \<noteq> {}"
  proof
    assume "p \<inter> q = {}"
    then have "card (p \<union> q) = card p + card q" using ms by (intro card_Un_disjoint) (auto intro: finite_subset)
    moreover have "card (p \<union> q) \<le> card ms" using ms by (intro card_mono) auto
    ultimately show False using card by linarith
  qed
  then show "\<exists>v. v \<in> p \<and> v \<in> q" by blast
qed

subsection \<open>The election state file\<close>

lemma load_persist:
  "t < 2 ^ 64 \<Longrightarrow> (\<forall>v. vf = Some v \<longrightarrow> v < 2 ^ 64) \<Longrightarrow> load_state (Some (persist_text t vf)) = (t, vf)"
  by (cases vf) (simp_all add: load_state_def persist_text_def Let_def parse_u64_show)

subsection \<open>The system\<close>

record Election =
  el_term :: nat
  el_waiting :: "nat list"
  el_votes :: nat

record 'db Cluster =
  cl_node :: "nat \<Rightarrow> 'db Node"
  cl_election :: "nat \<Rightarrow> Election option"
  cl_requests :: "(nat \<times> Msg) set"
  cl_replies :: "(nat \<times> nat \<times> nat \<times> Msg) set"
  cl_grants :: "(nat \<times> nat \<times> nat) set"
  cl_elected :: "(nat \<times> nat) set"

text \<open>
  \<open>cl_requests\<close> are the vote requests sent, with the peer they go to; \<open>cl_replies\<close> the replies,
  with the voter, the candidate and the term asked for. \<open>cl_grants\<close> records every vote given,
  \<open>cl_elected\<close> every leader of every term.
\<close>

definition grant :: "nat \<Rightarrow> nat \<Rightarrow> nat \<Rightarrow> Msg \<Rightarrow> (nat \<times> nat \<times> nat) set" where
  "grant voter trm candidate reply = (case reply of Vote t True \<Rightarrow> {(voter, trm, candidate)} | _ \<Rightarrow> {})"

inductive cluster_step :: "'db machine \<Rightarrow> bincode_de \<Rightarrow> nat set \<Rightarrow> 'db Cluster \<Rightarrow> 'db Cluster \<Rightarrow> bool"
  for m de ms where
  cs_start: "i \<in> ms \<Longrightarrow> ns_role (nd_state (cl_node c i)) \<noteq> Leader \<Longrightarrow> cl_election c i = None
    \<Longrightarrow> ns_term (nd_state (cl_node c i)) + 1 < 2 ^ 64
    \<Longrightarrow> start_election Io_ok deadline (cl_node c i) = (n, msg)
    \<Longrightarrow> cluster_step m de ms c (c\<lparr>cl_node := (cl_node c)(i := n),
        cl_grants := insert (i, ns_term (nd_state n), i) (cl_grants c),
        cl_requests := cl_requests c \<union> {(pe_id p, msg) |p. p \<in> set (nd_peers n)},
        cl_election := (cl_election c)(i := Some \<lparr>el_term = ns_term (nd_state n), el_waiting = map pe_id (nd_peers n), el_votes = 1\<rparr>)\<rparr>)"
| cs_vote: "j \<in> ms \<Longrightarrow> (j, RequestVote trm i li lt) \<in> cl_requests c
    \<Longrightarrow> on_request_vote Io_ok deadline trm i li lt (cl_node c j) = (n, reply)
    \<Longrightarrow> cluster_step m de ms c (c\<lparr>cl_node := (cl_node c)(j := n),
        cl_grants := cl_grants c \<union> grant j trm i reply,
        cl_replies := insert (j, i, trm, reply) (cl_replies c)\<rparr>)"
| cs_count: "i \<in> ms \<Longrightarrow> cl_election c i = Some el \<Longrightarrow> j \<in> set (el_waiting el)
    \<Longrightarrow> reply = None \<or> (\<exists>r. reply = Some r \<and> (j, i, el_term el, r) \<in> cl_replies c)
    \<Longrightarrow> count_vote Io_ok (el_term el) reply (el_votes el) (cl_node c i) = (n, votes)
    \<Longrightarrow> cluster_step m de ms c (c\<lparr>cl_node := (cl_node c)(i := n),
        cl_election := (cl_election c)(i := map_option (\<lambda>v. el\<lparr>el_waiting := remove1 j (el_waiting el), el_votes := v\<rparr>) votes)\<rparr>)"
| cs_finish: "i \<in> ms \<Longrightarrow> cl_election c i = Some el \<Longrightarrow> el_waiting el = []
    \<Longrightarrow> finish_election m (el_term el) (el_votes el) (cl_node c i) = (n, won)
    \<Longrightarrow> cluster_step m de ms c (c\<lparr>cl_node := (cl_node c)(i := n), cl_election := (cl_election c)(i := None),
        cl_elected := cl_elected c \<union> (if won then {(el_term el, i)} else {})\<rparr>)"
| cs_append: "i \<in> ms \<Longrightarrow> trm < 2 ^ 64 \<Longrightarrow> distinct (map fst mb) \<Longrightarrow> fst ` set mb = ms
    \<Longrightarrow> on_append_entries m Io_ok deadline trm leader addr mb prev pt es lc ci (cl_node c i) = (n, reply)
    \<Longrightarrow> cluster_step m de ms c (c\<lparr>cl_node := (cl_node c)(i := n)\<rparr>)"
| cs_reply: "i \<in> ms \<Longrightarrow> (\<forall>t s x. pr_reply r = Some (AppendAck t s x) \<longrightarrow> t < 2 ^ 64)
    \<Longrightarrow> take_reply Io_ok trm r repl (cl_node c i) = (repl', n, out)
    \<Longrightarrow> cluster_step m de ms c (c\<lparr>cl_node := (cl_node c)(i := n)\<rparr>)"
| cs_step_down: "i \<in> ms \<Longrightarrow> cluster_step m de ms c (c\<lparr>cl_node := (cl_node c)(i := step_down deadline reason (cl_node c i))\<rparr>)"
| cs_propose: "i \<in> ms \<Longrightarrow> cluster_step m de ms c (c\<lparr>cl_node := (cl_node c)(i := propose_append trm data client (cl_node c i))\<rparr>)"
| cs_launch: "i \<in> ms \<Longrightarrow> launch_round m Io_ok repl (cl_node c i) = Some (n, repl', msgs)
    \<Longrightarrow> cluster_step m de ms c (c\<lparr>cl_node := (cl_node c)(i := n)\<rparr>)"
| cs_round: "i \<in> ms \<Longrightarrow> cluster_step m de ms c (c\<lparr>cl_node := (cl_node c)(i := finish_round m Io_ok trm ci (cl_node c i))\<rparr>)"
| cs_restart: "i \<in> ms \<Longrightarrow> cluster_step m de ms c (c\<lparr>cl_node := (cl_node c)(i := node_restart de deadline (cl_node c i)),
        cl_election := (cl_election c)(i := None)\<rparr>)"

text \<open>A fresh cluster: every member knows all the others and has no state.\<close>

definition peers_ok :: "nat set \<Rightarrow> nat \<Rightarrow> Peer list \<Rightarrow> bool" where
  "peers_ok ms i ps \<longleftrightarrow> distinct (map pe_id ps) \<and> pe_id ` set ps = ms - {i}"

definition fresh_node :: "nat set \<Rightarrow> nat \<Rightarrow> 'db Node \<Rightarrow> bool" where
  "fresh_node ms i n \<longleftrightarrow> nd_id n = i \<and> peers_ok ms i (nd_peers n) \<and> peers_ok ms i (nd_cfg_peers n)
     \<and> ns_term (nd_state n) = 0 \<and> ns_voted_for (nd_state n) = None \<and> ns_role (nd_state n) = Follower \<and> nd_state_file n = None"

definition fresh_cluster :: "nat set \<Rightarrow> 'db Cluster \<Rightarrow> bool" where
  "fresh_cluster ms c \<longleftrightarrow> finite ms \<and> (\<forall>i \<in> ms. i < 2 ^ 64 \<and> fresh_node ms i (cl_node c i) \<and> cl_election c i = None)
     \<and> cl_requests c = {} \<and> cl_replies c = {} \<and> cl_grants c = {} \<and> cl_elected c = {}"

subsection \<open>The invariant\<close>

definition node_ok :: "nat set \<Rightarrow> nat \<Rightarrow> 'db Node \<Rightarrow> bool" where
  "node_ok ms i n \<longleftrightarrow> nd_id n = i \<and> peers_ok ms i (nd_peers n) \<and> peers_ok ms i (nd_cfg_peers n)
     \<and> ns_term (nd_state n) < 2 ^ 64 \<and> (\<forall>v. ns_voted_for (nd_state n) = Some v \<longrightarrow> v < 2 ^ 64)
     \<and> load_state (nd_state_file n) = (ns_term (nd_state n), ns_voted_for (nd_state n))"

text \<open>A step that gives no vote: the term moves on, or the vote stays; nobody becomes leader.\<close>

definition no_vote :: "'db Node \<Rightarrow> 'db Node \<Rightarrow> bool" where
  "no_vote n n' \<longleftrightarrow>
     (ns_term (nd_state n) < ns_term (nd_state n')
        \<or> ns_term (nd_state n') = ns_term (nd_state n) \<and> ns_voted_for (nd_state n') = ns_voted_for (nd_state n))
     \<and> (ns_role (nd_state n') = Leader \<longrightarrow> ns_role (nd_state n) = Leader \<and> ns_term (nd_state n') = ns_term (nd_state n))"

definition voted_ok :: "'db Node \<Rightarrow> nat \<Rightarrow> nat \<Rightarrow> bool" where
  "voted_ok n t d \<longleftrightarrow> t \<le> ns_term (nd_state n) \<and> (t = ns_term (nd_state n) \<longrightarrow> ns_voted_for (nd_state n) = Some d)"

definition votes_ok :: "nat set \<Rightarrow> 'db Cluster \<Rightarrow> bool" where
  "votes_ok ms c \<longleftrightarrow> (\<forall>v t d. (v, t, d) \<in> cl_grants c \<longrightarrow> v \<in> ms \<and> voted_ok (cl_node c v) t d)"

definition messages_ok :: "nat set \<Rightarrow> 'db Cluster \<Rightarrow> bool" where
  "messages_ok ms c \<longleftrightarrow>
     (\<forall>j r. (j, r) \<in> cl_requests c \<longrightarrow> (\<exists>t i li lt. r = RequestVote t i li lt \<and> i \<in> ms \<and> t < 2 ^ 64))
     \<and> (\<forall>j i t r. (j, i, t, r) \<in> cl_replies c \<longrightarrow> (\<exists>rt g. r = Vote rt g \<and> rt < 2 ^ 64 \<and> (g \<longrightarrow> (j, t, i) \<in> cl_grants c)))"

definition election_ok :: "nat set \<Rightarrow> (nat \<times> nat \<times> nat) set \<Rightarrow> nat \<Rightarrow> Election \<Rightarrow> bool" where
  "election_ok ms g i el \<longleftrightarrow> distinct (el_waiting el) \<and> set (el_waiting el) \<subseteq> ms - {i}
     \<and> (\<exists>V \<subseteq> ms. V \<inter> set (el_waiting el) = {} \<and> (\<forall>v \<in> V. (v, el_term el, i) \<in> g) \<and> el_votes el \<le> card V)"

definition cluster_inv :: "nat set \<Rightarrow> 'db Cluster \<Rightarrow> bool" where
  "cluster_inv ms c \<longleftrightarrow> finite ms \<and> (\<forall>i \<in> ms. i < 2 ^ 64 \<and> node_ok ms i (cl_node c i))
     \<and> votes_ok ms c \<and> (\<forall>v t d e. (v, t, d) \<in> cl_grants c \<longrightarrow> (v, t, e) \<in> cl_grants c \<longrightarrow> d = e)
     \<and> messages_ok ms c
     \<and> (\<forall>i \<in> ms. \<forall>el. cl_election c i = Some el \<longrightarrow> election_ok ms (cl_grants c) i el)
     \<and> (\<forall>i \<in> ms. ns_role (nd_state (cl_node c i)) = Leader \<longrightarrow> (ns_term (nd_state (cl_node c i)), i) \<in> cl_elected c)
     \<and> (\<forall>t i. (t, i) \<in> cl_elected c \<longrightarrow> (\<exists>V. majority_of ms V \<and> (\<forall>v \<in> V. (v, t, i) \<in> cl_grants c)))"

lemma election_ok_mono: "election_ok ms g i el \<Longrightarrow> g \<subseteq> g' \<Longrightarrow> election_ok ms g' i el"
  unfolding election_ok_def by blast

lemma no_vote_voted: "no_vote n n' \<Longrightarrow> voted_ok n t d \<Longrightarrow> voted_ok n' t d"
  by (auto simp: no_vote_def voted_ok_def)

lemma no_vote_inv:
  assumes "cluster_inv ms c" and "i \<in> ms" and "node_ok ms i n" and "no_vote (cl_node c i) n"
  shows "cluster_inv ms (c\<lparr>cl_node := (cl_node c)(i := n)\<rparr>)"
proof -
  let ?c = "c\<lparr>cl_node := (cl_node c)(i := n)\<rparr>"
  have "votes_ok ms ?c"
    using assms(1) no_vote_voted [OF assms(4)] by (simp add: cluster_inv_def votes_ok_def)
  moreover have "messages_ok ms ?c" using assms(1) by (simp add: cluster_inv_def messages_ok_def)
  moreover have "(ns_term (nd_state (cl_node ?c j)), j) \<in> cl_elected ?c"
    if "j \<in> ms" "ns_role (nd_state (cl_node ?c j)) = Leader" for j
    using assms(1,4) that by (cases "j = i") (simp_all add: cluster_inv_def no_vote_def)
  moreover have "node_ok ms j (cl_node ?c j)" if "j \<in> ms" for j
    using assms(1,3) that by (cases "j = i") (simp_all add: cluster_inv_def)
  ultimately show ?thesis using assms(1) unfolding cluster_inv_def by simp
qed

subsection \<open>The handlers\<close>

lemma persist_fields [simp]:
  "nd_state (persist_state io n) = nd_state n" "nd_id (persist_state io n) = nd_id n"
  "nd_peers (persist_state io n) = nd_peers n" "nd_cfg_peers (persist_state io n) = nd_cfg_peers n" "nd_log (persist_state io n) = nd_log n"
  "nd_state_file (persist_state Io_ok n) = Some (persist_text (ns_term (nd_state n)) (ns_voted_for (nd_state n)))"
  by (simp_all add: persist_state_def)

lemma drain_fields [simp]:
  "nd_state (drain_pending e n) = nd_state n" "nd_id (drain_pending e n) = nd_id n"
  "nd_peers (drain_pending e n) = nd_peers n" "nd_cfg_peers (drain_pending e n) = nd_cfg_peers n" "nd_state_file (drain_pending e n) = nd_state_file n"
  by (simp_all add: drain_pending_def)

lemma node_ok_persisted:
  assumes "nd_id n = i" and "peers_ok ms i (nd_peers n)" and "peers_ok ms i (nd_cfg_peers n)"
    and "ns_term (nd_state n) < 2 ^ 64" and "\<forall>v. ns_voted_for (nd_state n) = Some v \<longrightarrow> v < 2 ^ 64"
    and "nd_state_file n = Some (persist_text (ns_term (nd_state n)) (ns_voted_for (nd_state n)))"
  shows "node_ok ms i n"
  using assms load_persist [OF assms(4,5)] by (simp add: node_ok_def)

lemma node_ok_same:
  assumes "node_ok ms i n" and "nd_id n' = nd_id n" and "nd_peers n' = nd_peers n" and "nd_cfg_peers n' = nd_cfg_peers n" and "nd_state_file n' = nd_state_file n"
    and "ns_term (nd_state n') = ns_term (nd_state n)" and "ns_voted_for (nd_state n') = ns_voted_for (nd_state n)"
  shows "node_ok ms i n'"
  using assms by (simp add: node_ok_def)

lemma adopt_members_fields [simp]:
  "nd_state (adopt_members mb n) = nd_state n" "nd_id (adopt_members mb n) = nd_id n"
  "nd_state_file (adopt_members mb n) = nd_state_file n" "nd_cfg_peers (adopt_members mb n) = nd_cfg_peers n"
  "map pe_id (nd_peers (adopt_members mb n)) = filter (\<lambda>i. i \<noteq> nd_id n) (map fst mb)"
  by (induction mb) (auto simp: adopt_members_def)

lemma store_entries_fields:
  assumes "store_entries m io prev pt es lc ci n = (n', ok, mi)"
  shows "nd_state n' = nd_state n \<and> nd_id n' = nd_id n \<and> nd_peers n' = nd_peers n \<and> nd_cfg_peers n' = nd_cfg_peers n \<and> nd_state_file n' = nd_state_file n"
  using assms by (auto simp: store_entries_def Let_def split: prod.splits if_splits)

lemma accept_leader_state:
  "ns_term (nd_state (accept_leader io deadline trm leader addr mb n)) = max trm (ns_term (nd_state n))"
  "ns_voted_for (nd_state (accept_leader io deadline trm leader addr mb n))
    = (if ns_term (nd_state n) < trm then None else ns_voted_for (nd_state n))"
  "ns_role (nd_state (accept_leader io deadline trm leader addr mb n)) = Follower"
  by (auto simp: accept_leader_def Let_def)

lemma accept_leader_fields:
  "nd_id (accept_leader io deadline trm leader addr mb n) = nd_id n"
  "nd_cfg_peers (accept_leader io deadline trm leader addr mb n) = nd_cfg_peers n"
  "map pe_id (nd_peers (accept_leader io deadline trm leader addr mb n)) = filter (\<lambda>i. i \<noteq> nd_id n) (map fst mb)"
  "nd_state_file (accept_leader Io_ok deadline trm leader addr mb n) = Some (persist_text
     (ns_term (nd_state (accept_leader Io_ok deadline trm leader addr mb n)))
     (ns_voted_for (nd_state (accept_leader Io_ok deadline trm leader addr mb n))))"
  by (auto simp: accept_leader_def Let_def)

lemma on_append_entries_node:
  assumes "on_append_entries m Io_ok deadline trm leader addr mb prev pt es lc ci n = (n', reply)"
    and "\<not> trm < ns_term (nd_state n)"
  shows "let a = accept_leader Io_ok deadline trm leader addr mb n
    in nd_state n' = nd_state a \<and> nd_id n' = nd_id a \<and> nd_peers n' = nd_peers a \<and> nd_cfg_peers n' = nd_cfg_peers a \<and> nd_state_file n' = nd_state_file a"
proof -
  obtain n1 ok mi where "store_entries m Io_ok prev pt es lc ci (accept_leader Io_ok deadline trm leader addr mb n) = (n1, ok, mi)"
    by (metis prod.collapse)
  with store_entries_fields [OF this] assms show ?thesis by (simp add: on_append_entries_def Let_def)
qed

lemma on_append_entries_quiet:
  assumes "on_append_entries m Io_ok deadline trm leader addr mb prev pt es lc ci n = (n', reply)"
    and "node_ok ms i n" and "trm < 2 ^ 64" and "distinct (map fst mb)" and "fst ` set mb = ms"
  shows "node_ok ms i n' \<and> no_vote n n'"
proof (cases "trm < ns_term (nd_state n)")
  case True
  with assms(1,2) show ?thesis by (simp add: on_append_entries_def Let_def no_vote_def)
next
  case False
  let ?a = "accept_leader Io_ok deadline trm leader addr mb n"
  have "map pe_id (nd_peers ?a) = filter (\<lambda>j. j \<noteq> i) (map fst mb)"
    using assms(2) by (simp add: accept_leader_fields node_ok_def)
  then have "distinct (map pe_id (nd_peers ?a))" and "set (map pe_id (nd_peers ?a)) = ms - {i}"
    using assms(4,5) by auto
  then have peers: "peers_ok ms i (nd_peers ?a)" unfolding set_map peers_ok_def by blast
  have state: "ns_term (nd_state ?a) < 2 ^ 64" "\<forall>v. ns_voted_for (nd_state ?a) = Some v \<longrightarrow> v < 2 ^ 64" "nd_id ?a = i"
    "peers_ok ms i (nd_cfg_peers ?a)"
    using assms(2,3) by (simp_all add: accept_leader_state accept_leader_fields(1,2) node_ok_def)
  have "node_ok ms i ?a" by (rule node_ok_persisted [OF state(3) peers state(4,1,2) accept_leader_fields(4)])
  moreover have "no_vote n ?a" using False by (auto simp: no_vote_def accept_leader_state)
  ultimately show ?thesis
    using on_append_entries_node [OF assms(1) False] by (simp add: Let_def node_ok_def no_vote_def)
qed

lemma newer_term_quiet:
  assumes "node_ok ms i n" and "t < 2 ^ 64" and "ns_term (nd_state n) < t"
    and "n' = persist_state Io_ok (n\<lparr>nd_state := (nd_state n)\<lparr>ns_term := t, ns_role := Follower, ns_voted_for := None\<rparr>\<rparr>)"
  shows "node_ok ms i n' \<and> no_vote n n'"
proof -
  have "node_ok ms i n'" using assms(1,2) by (intro node_ok_persisted) (simp_all add: assms(4) node_ok_def)
  with assms(3) show ?thesis by (simp add: assms(4) no_vote_def)
qed

lemma quiet_same:
  assumes "node_ok ms i n" and "nd_id n' = nd_id n" and "nd_peers n' = nd_peers n" and "nd_cfg_peers n' = nd_cfg_peers n"
    and "nd_state_file n' = nd_state_file n" and "nd_state n' = nd_state n"
  shows "node_ok ms i n' \<and> no_vote n n'"
  using assms by (simp add: node_ok_def no_vote_def)

lemma take_reply_cases:
  assumes "take_reply io trm r repl n = (repl', n', out)"
  shows "n' = n \<or> (\<exists>p. n' = n\<lparr>nd_progress := p\<rparr>)
    \<or> (\<exists>t s x. pr_reply r = Some (AppendAck t s x) \<and> ns_term (nd_state n) < t
        \<and> n' = drain_pending ''stepped down during replication'' (persist_state io
            (n\<lparr>nd_state := (nd_state n)\<lparr>ns_term := t, ns_role := Follower, ns_voted_for := None\<rparr>\<rparr>)))"
proof (cases "pr_term r = trm")
  case True
  show ?thesis
  proof (cases "pr_reply r")
    case (Some msg)
    show ?thesis
    proof (cases msg)
      case (AppendAck t s x)
      then show ?thesis
        using assms True Some unfolding take_reply_def Let_def by (auto split: if_splits)
    qed (use assms True Some in \<open>simp_all add: take_reply_def Let_def\<close>)
  qed (use assms True in \<open>simp add: take_reply_def Let_def\<close>)
qed (use assms in \<open>simp add: take_reply_def Let_def\<close>)

lemma take_reply_quiet:
  assumes "take_reply Io_ok trm r repl n = (repl', n', out)" and "node_ok ms i n"
    and "\<forall>t s x. pr_reply r = Some (AppendAck t s x) \<longrightarrow> t < 2 ^ 64"
  shows "node_ok ms i n' \<and> no_vote n n'"
proof -
  from take_reply_cases [OF assms(1)] assms(3) consider "n' = n" | p where "n' = n\<lparr>nd_progress := p\<rparr>"
    | t n1 where "t < 2 ^ 64" "ns_term (nd_state n) < t" "n' = drain_pending ''stepped down during replication'' n1"
      "n1 = persist_state Io_ok (n\<lparr>nd_state := (nd_state n)\<lparr>ns_term := t, ns_role := Follower, ns_voted_for := None\<rparr>\<rparr>)"
    by metis
  then show ?thesis
  proof cases
    case (3 t n1)
    have "node_ok ms i n1 \<and> no_vote n n1" by (rule newer_term_quiet [OF assms(2) 3(1,2,4)])
    then show ?thesis by (simp add: 3(3) node_ok_def no_vote_def)
  qed (use assms(2) in \<open>simp_all add: quiet_same\<close>)
qed

lemma count_vote_quiet:
  assumes "count_vote Io_ok trm reply votes n = (n', out)" and "node_ok ms i n"
    and "\<forall>t g. reply = Some (Vote t g) \<longrightarrow> t < 2 ^ 64"
  shows "node_ok ms i n' \<and> no_vote n n'"
proof (cases "\<exists>t g. reply = Some (Vote t g) \<and> ns_term (nd_state n) < t")
  case True
  then obtain t g where reply: "reply = Some (Vote t g)" "ns_term (nd_state n) < t" by blast
  with assms(1) have n': "n' = persist_state Io_ok
      (n\<lparr>nd_state := (nd_state n)\<lparr>ns_term := t, ns_role := Follower, ns_voted_for := None\<rparr>\<rparr>)"
    by (simp add: count_vote_def Let_def)
  have "t < 2 ^ 64" using assms(3) reply(1) by blast
  then show ?thesis by (rule newer_term_quiet [OF assms(2) _ reply(2) n'])
next
  case False
  then have "n' = n" using assms(1) by (auto simp: count_vote_def Let_def split: option.splits Msg.splits)
  then show ?thesis using assms(2) by (simp add: quiet_same)
qed

lemma answer_pending_fields [simp]:
  "nd_state (answer_pending rs n) = nd_state n" "nd_id (answer_pending rs n) = nd_id n"
  "nd_peers (answer_pending rs n) = nd_peers n" "nd_cfg_peers (answer_pending rs n) = nd_cfg_peers n" "nd_state_file (answer_pending rs n) = nd_state_file n"
  by (induction rs n rule: answer_pending.induct) (auto split: option.splits)

lemma local_steps_quiet:
  assumes "node_ok ms i n"
  shows "node_ok ms i (propose_append trm data client n) \<and> no_vote n (propose_append trm data client n)"
    and "node_ok ms i (finish_round m io trm ci n) \<and> no_vote n (finish_round m io trm ci n)"
    and "launch_round m io repl n = Some (n', repl', msgs) \<Longrightarrow> node_ok ms i n' \<and> no_vote n n'"
    and "node_ok ms i (step_down deadline reason n) \<and> no_vote n (step_down deadline reason n)"
    and "node_ok ms i (node_restart de deadline n) \<and> no_vote n (node_restart de deadline n)"
proof -
  show "node_ok ms i (propose_append trm data client n) \<and> no_vote n (propose_append trm data client n)"
    by (rule quiet_same [OF assms]) (simp_all add: propose_append_def Let_def split: prod.split)
  show "node_ok ms i (finish_round m io trm ci n) \<and> no_vote n (finish_round m io trm ci n)"
    by (rule quiet_same [OF assms])
      (simp_all add: finish_round_def advance_commit_and_apply_def Let_def split: prod.split)
  show "node_ok ms i n' \<and> no_vote n n'" if "launch_round m io repl n = Some (n', repl', msgs)"
    by (rule quiet_same [OF assms]) (use that in \<open>auto simp: launch_round_def Let_def split: if_splits prod.splits\<close>)
  show "node_ok ms i (step_down deadline reason n) \<and> no_vote n (step_down deadline reason n)"
    using assms by (auto simp: step_down_def Let_def no_vote_def node_ok_def)
  show "node_ok ms i (node_restart de deadline n) \<and> no_vote n (node_restart de deadline n)"
    using assms by (auto simp: node_restart_def Let_def no_vote_def node_ok_def)
qed

subsection \<open>Steps that vote\<close>

lemma grant_step:
  assumes inv: "cluster_inv ms c" and i: "i \<in> ms" and ok: "node_ok ms i n"
    and keep: "\<And>t d. voted_ok (cl_node c i) t d \<Longrightarrow> voted_ok n t d"
    and lead: "ns_role (nd_state n) = Leader \<longrightarrow> ns_role (nd_state (cl_node c i)) = Leader
      \<and> ns_term (nd_state n) = ns_term (nd_state (cl_node c i))"
    and g: "g \<subseteq> {(i, ns_term (nd_state n), d)}" "g \<noteq> {} \<Longrightarrow> ns_voted_for (nd_state n) = Some d"
  shows "cluster_inv ms (c\<lparr>cl_node := (cl_node c)(i := n), cl_grants := cl_grants c \<union> g\<rparr>)"
proof -
  let ?c = "c\<lparr>cl_node := (cl_node c)(i := n), cl_grants := cl_grants c \<union> g\<rparr>"
  have new: "v = i \<and> t = ns_term (nd_state n) \<and> e = d \<and> ns_voted_for (nd_state n) = Some d" if "(v, t, e) \<in> g" for v t e
    using g that by blast
  have old: "v \<in> ms \<and> voted_ok (cl_node ?c v) t e" if "(v, t, e) \<in> cl_grants c" for v t e
    using inv keep that by (auto simp: cluster_inv_def votes_ok_def)
  have votes: "votes_ok ms ?c"
    unfolding votes_ok_def using old new i by (auto simp: voted_ok_def)
  have unique: "e = f" if "(v, t, e) \<in> cl_grants ?c" "(v, t, f) \<in> cl_grants ?c" for v t e f
  proof (cases "(v, t, e) \<in> g \<or> (v, t, f) \<in> g")
    case True
    then have "v = i" "t = ns_term (nd_state n)" using new by blast+
    then have "cl_node ?c v = n" by simp
    with votes that have "voted_ok n t e" "voted_ok n t f" unfolding votes_ok_def by metis+
    with \<open>t = _\<close> show ?thesis by (simp add: voted_ok_def)
  next
    case False
    with that inv show ?thesis by (auto simp: cluster_inv_def)
  qed
  have msgs: "messages_ok ms ?c" using inv by (fastforce simp: cluster_inv_def messages_ok_def)
  have elect: "election_ok ms (cl_grants ?c) j el" if "j \<in> ms" "cl_election ?c j = Some el" for j el
    using inv that election_ok_mono [of ms "cl_grants c" j el "cl_grants ?c"] by (simp add: cluster_inv_def)
  have leaders: "(ns_term (nd_state (cl_node ?c j)), j) \<in> cl_elected ?c"
    if "j \<in> ms" "ns_role (nd_state (cl_node ?c j)) = Leader" for j
    using inv lead that by (cases "j = i") (simp_all add: cluster_inv_def)
  have nodes: "j < 2 ^ 64 \<and> node_ok ms j (cl_node ?c j)" if "j \<in> ms" for j
    using inv ok that by (cases "j = i") (simp_all add: cluster_inv_def)
  have elected: "\<exists>V. majority_of ms V \<and> (\<forall>v \<in> V. (v, t, j) \<in> cl_grants ?c)" if "(t, j) \<in> cl_elected ?c" for t j
    using inv that by (force simp: cluster_inv_def)
  have "finite ms" using inv by (simp add: cluster_inv_def)
  then show ?thesis
    unfolding cluster_inv_def using votes unique msgs elect leaders nodes elected by blast
qed

lemma requests_inv:
  assumes "cluster_inv ms c" and "\<And>j r. (j, r) \<in> q \<Longrightarrow> \<exists>t i li lt. r = RequestVote t i li lt \<and> i \<in> ms \<and> t < 2 ^ 64"
  shows "cluster_inv ms (c\<lparr>cl_requests := cl_requests c \<union> q\<rparr>)"
proof -
  have "messages_ok ms (c\<lparr>cl_requests := cl_requests c \<union> q\<rparr>)"
    using assms unfolding cluster_inv_def messages_ok_def by auto
  then show ?thesis using assms(1) by (simp add: cluster_inv_def votes_ok_def)
qed

lemma replies_inv:
  assumes "cluster_inv ms c" and "r = Vote rt g" and "rt < 2 ^ 64" and "g \<Longrightarrow> (j, t, i) \<in> cl_grants c"
  shows "cluster_inv ms (c\<lparr>cl_replies := insert (j, i, t, r) (cl_replies c)\<rparr>)"
proof -
  have "messages_ok ms (c\<lparr>cl_replies := insert (j, i, t, r) (cl_replies c)\<rparr>)"
    using assms unfolding cluster_inv_def messages_ok_def by auto
  then show ?thesis using assms(1) by (simp add: cluster_inv_def votes_ok_def)
qed

lemma election_inv:
  assumes "cluster_inv ms c" and "\<And>el. e = Some el \<Longrightarrow> election_ok ms (cl_grants c) i el"
  shows "cluster_inv ms (c\<lparr>cl_election := (cl_election c)(i := e)\<rparr>)"
  using assms by (simp add: cluster_inv_def votes_ok_def messages_ok_def)

lemma start_election_inv:
  assumes inv: "cluster_inv ms c" and i: "i \<in> ms" and small: "ns_term (nd_state (cl_node c i)) + 1 < 2 ^ 64"
    and run: "start_election Io_ok deadline (cl_node c i) = (n, msg)"
  shows "cluster_inv ms (c\<lparr>cl_node := (cl_node c)(i := n),
        cl_grants := insert (i, ns_term (nd_state n), i) (cl_grants c),
        cl_requests := cl_requests c \<union> {(pe_id p, msg) |p. p \<in> set (nd_peers n)},
        cl_election := (cl_election c)(i := Some \<lparr>el_term = ns_term (nd_state n), el_waiting = map pe_id (nd_peers n), el_votes = 1\<rparr>)\<rparr>)"
proof -
  let ?g = "{(i, ns_term (nd_state n), i)}"
  let ?c1 = "c\<lparr>cl_node := (cl_node c)(i := n), cl_grants := cl_grants c \<union> ?g\<rparr>"
  let ?q = "{(pe_id p, msg) |p. p \<in> set (nd_peers n)}"
  let ?el = "\<lparr>el_term = ns_term (nd_state n), el_waiting = map pe_id (nd_peers n), el_votes = 1\<rparr>"
  have old: "node_ok ms i (cl_node c i)" "i < 2 ^ 64" using inv i by (simp_all add: cluster_inv_def)
  have n: "nd_id n = i" "nd_peers n = nd_peers (cl_node c i)" "ns_voted_for (nd_state n) = Some i"
    "ns_term (nd_state n) = ns_term (nd_state (cl_node c i)) + 1" "ns_role (nd_state n) = Candidate"
    "nd_state_file n = Some (persist_text (ns_term (nd_state n)) (ns_voted_for (nd_state n)))"
    "nd_cfg_peers n = nd_cfg_peers (cl_node c i)"
    and msg: "\<exists>li lt. msg = RequestVote (ns_term (nd_state n)) i li lt"
    using run old(1) by (auto simp: start_election_def Let_def node_ok_def)
  have ok: "node_ok ms i n"
    using old small n by (intro node_ok_persisted) (simp_all add: node_ok_def)
  have "cluster_inv ms ?c1"
    by (rule grant_step [OF inv i ok, where d = i]) (simp_all add: n voted_ok_def)
  then have "cluster_inv ms (?c1\<lparr>cl_requests := cl_requests ?c1 \<union> ?q\<rparr>)"
    by (rule requests_inv) (use msg i small n(4) in auto)
  moreover have "election_ok ms (cl_grants ?c1) i ?el"
    unfolding election_ok_def using ok i by (intro conjI exI [of _ "{i}"]) (simp_all add: node_ok_def peers_ok_def)
  ultimately show ?thesis
    using election_inv [of ms "?c1\<lparr>cl_requests := cl_requests ?c1 \<union> ?q\<rparr>" "Some ?el" i] by simp
qed

lemma on_request_vote_old:
  assumes "\<not> ns_term (nd_state n) < trm"
  shows "on_request_vote io deadline trm i li lt n =
    (if trm = ns_term (nd_state n) \<and> (ns_voted_for (nd_state n) = None \<or> ns_voted_for (nd_state n) = Some i) \<and> is_up_to_date lt li (nd_log n)
     then (persist_state io (n\<lparr>nd_state := (nd_state n)\<lparr>ns_voted_for := Some i, ns_deadline := deadline\<rparr>\<rparr>), Vote (ns_term (nd_state n)) True)
     else (n, Vote (ns_term (nd_state n)) False))"
  using assms by (cases "ns_voted_for (nd_state n) = None"; cases "ns_voted_for (nd_state n) = Some i") (auto simp: on_request_vote_def Let_def)

lemma on_request_vote_spec:
  assumes "on_request_vote Io_ok deadline trm i li lt old = (n, reply)"
  shows "\<exists>gr. reply = Vote (ns_term (nd_state n)) gr \<and> nd_id n = nd_id old \<and> nd_peers n = nd_peers old
    \<and> nd_cfg_peers n = nd_cfg_peers old
    \<and> ns_term (nd_state n) = max trm (ns_term (nd_state old)) \<and> (gr \<longrightarrow> ns_term (nd_state n) = trm)
    \<and> ns_voted_for (nd_state n) = (if gr then Some i else if ns_term (nd_state old) < trm then None else ns_voted_for (nd_state old))
    \<and> (gr \<longrightarrow> ns_term (nd_state old) < trm \<or> ns_voted_for (nd_state old) \<in> {None, Some i})
    \<and> ns_role (nd_state n) = (if ns_term (nd_state old) < trm then Follower else ns_role (nd_state old))
    \<and> nd_state_file n = (if ns_term (nd_state old) < trm \<or> gr
         then Some (persist_text (ns_term (nd_state n)) (ns_voted_for (nd_state n))) else nd_state_file old)"
proof (cases "ns_term (nd_state old) < trm")
  case True
  have run: "n = fst (on_request_vote Io_ok deadline trm i li lt old)" "reply = snd (on_request_vote Io_ok deadline trm i li lt old)"
    using assms by simp_all
  show ?thesis
    by (rule exI [of _ "is_up_to_date lt li (nd_log old)"])
      (cases "is_up_to_date lt li (nd_log old)"; simp add: run on_request_vote_def Let_def True)
next
  case False
  let ?gr = "trm = ns_term (nd_state old)
    \<and> (ns_voted_for (nd_state old) = None \<or> ns_voted_for (nd_state old) = Some i) \<and> is_up_to_date lt li (nd_log old)"
  have trm: "max trm (ns_term (nd_state old)) = ns_term (nd_state old)" using False by simp
  show ?thesis
  proof (cases ?gr)
    case True
    then have "n = persist_state Io_ok (old\<lparr>nd_state := (nd_state old)\<lparr>ns_voted_for := Some i, ns_deadline := deadline\<rparr>\<rparr>)"
      "reply = Vote (ns_term (nd_state old)) True"
      using assms on_request_vote_old [OF False] by auto
    then show ?thesis using True trm by (intro exI [of _ True]) auto
  next
    case no: False
    then have "n = old \<and> reply = Vote (ns_term (nd_state old)) False"
      using assms on_request_vote_old [OF False] by (metis prod.inject)
    then show ?thesis using trm False by (intro exI [of _ False]) simp
  qed
qed

lemma request_vote_inv:
  assumes inv: "cluster_inv ms c" and j: "j \<in> ms" and req: "(j, RequestVote trm i li lt) \<in> cl_requests c"
    and run: "on_request_vote Io_ok deadline trm i li lt (cl_node c j) = (n, reply)"
  shows "cluster_inv ms (c\<lparr>cl_node := (cl_node c)(j := n),
        cl_grants := cl_grants c \<union> grant j trm i reply, cl_replies := insert (j, i, trm, reply) (cl_replies c)\<rparr>)"
proof -
  let ?old = "cl_node c j" and ?g = "grant j trm i reply"
  have old: "node_ok ms j ?old" using inv j by (simp add: cluster_inv_def)
  have "i \<in> ms" "trm < 2 ^ 64" using inv req unfolding cluster_inv_def messages_ok_def by blast+
  then have i: "i < 2 ^ 64" "trm < 2 ^ 64" using inv by (simp_all add: cluster_inv_def)
  from on_request_vote_spec [OF run] obtain gr where reply: "reply = Vote (ns_term (nd_state n)) gr"
    and cfg: "nd_cfg_peers n = nd_cfg_peers ?old"
    and n: "nd_id n = nd_id ?old" "nd_peers n = nd_peers ?old" "ns_term (nd_state n) = max trm (ns_term (nd_state ?old))"
    "gr \<longrightarrow> ns_term (nd_state n) = trm"
    "ns_voted_for (nd_state n) = (if gr then Some i else if ns_term (nd_state ?old) < trm then None else ns_voted_for (nd_state ?old))"
    "gr \<longrightarrow> ns_term (nd_state ?old) < trm \<or> ns_voted_for (nd_state ?old) \<in> {None, Some i}"
    "ns_role (nd_state n) = (if ns_term (nd_state ?old) < trm then Follower else ns_role (nd_state ?old))"
    "nd_state_file n = (if ns_term (nd_state ?old) < trm \<or> gr
       then Some (persist_text (ns_term (nd_state n)) (ns_voted_for (nd_state n))) else nd_state_file ?old)"
    by blast
  have ok: "node_ok ms j n"
  proof (cases "ns_term (nd_state ?old) < trm \<or> gr")
    case True
    then show ?thesis using old i cfg n by (intro node_ok_persisted) (auto simp: node_ok_def max_def split: if_splits)
  next
    case False
    then show ?thesis using old cfg n by (intro node_ok_same [OF old]) simp_all
  qed
  have keep: "voted_ok n t d" if "voted_ok ?old t d" for t d
    using that n(3-6) by (cases gr) (auto simp: voted_ok_def split: if_splits)
  have inv1: "cluster_inv ms (c\<lparr>cl_node := (cl_node c)(j := n), cl_grants := cl_grants c \<union> ?g\<rparr>)"
    by (rule grant_step [OF inv j ok keep, where d = i])
      (use n(3,4,5,7) in \<open>auto simp: grant_def reply split: bool.splits if_splits\<close>)
  have "ns_term (nd_state n) < 2 ^ 64" using ok by (simp add: node_ok_def)
  from replies_inv [OF inv1 reply this, of j trm i] show ?thesis by (simp add: grant_def reply split: bool.splits)
qed

lemma count_vote_result:
  assumes "count_vote io trm reply votes n = (n', Some v)"
  shows "v = votes \<or> v = votes + 1 \<and> (\<exists>rt. reply = Some (Vote rt True))"
proof (cases "\<exists>rt gr. reply = Some (Vote rt gr)")
  case True
  then obtain rt gr where "reply = Some (Vote rt gr)" by blast
  then show ?thesis using assms by (cases gr) (auto simp: count_vote_def Let_def split: if_splits)
next
  case False
  then show ?thesis using assms by (auto simp: count_vote_def split: option.splits Msg.splits)
qed

lemma count_vote_inv:
  assumes inv: "cluster_inv ms c" and i: "i \<in> ms" and el: "cl_election c i = Some el" and j: "j \<in> set (el_waiting el)"
    and reply: "reply = None \<or> (\<exists>r. reply = Some r \<and> (j, i, el_term el, r) \<in> cl_replies c)"
    and run: "count_vote Io_ok (el_term el) reply (el_votes el) (cl_node c i) = (n, votes)"
  shows "cluster_inv ms (c\<lparr>cl_node := (cl_node c)(i := n),
        cl_election := (cl_election c)(i := map_option (\<lambda>v. el\<lparr>el_waiting := remove1 j (el_waiting el), el_votes := v\<rparr>) votes)\<rparr>)"
proof -
  let ?c1 = "c\<lparr>cl_node := (cl_node c)(i := n)\<rparr>"
  have elok: "election_ok ms (cl_grants c) i el" and fin: "finite ms" and old: "node_ok ms i (cl_node c i)"
    using inv i el by (auto simp: cluster_inv_def)
  have vote: "rt < 2 ^ 64 \<and> (gr \<longrightarrow> (j, el_term el, i) \<in> cl_grants c)" if "reply = Some (Vote rt gr)" for rt gr
  proof -
    have "(j, i, el_term el, Vote rt gr) \<in> cl_replies c" using reply that by auto
    moreover have "messages_ok ms c" using inv by (simp add: cluster_inv_def)
    ultimately show ?thesis unfolding messages_ok_def by (metis Msg.inject(2))
  qed
  have "node_ok ms i n \<and> no_vote (cl_node c i) n" by (rule count_vote_quiet [OF run old]) (use vote in blast)
  then have inv1: "cluster_inv ms ?c1" using no_vote_inv [OF inv i] by blast
  from elok obtain V where V: "distinct (el_waiting el)" "set (el_waiting el) \<subseteq> ms - {i}" "V \<subseteq> ms"
    "V \<inter> set (el_waiting el) = {}" "\<forall>v \<in> V. (v, el_term el, i) \<in> cl_grants c" "el_votes el \<le> card V"
    by (auto simp: election_ok_def)
  have "election_ok ms (cl_grants c) i (el\<lparr>el_waiting := remove1 j (el_waiting el), el_votes := v\<rparr>)" if "votes = Some v" for v
  proof (cases "v = el_votes el")
    case True
    with V show ?thesis by (auto simp: election_ok_def intro!: exI [of _ V])
  next
    case False
    with count_vote_result [of Io_ok _ reply _ _ n v] run that
    have "v = el_votes el + 1" "\<exists>rt. reply = Some (Vote rt True)" by blast+
    then have "v = el_votes el + 1" "(j, el_term el, i) \<in> cl_grants c" using vote by blast+
    moreover have "card (insert j V) = card V + 1" using V(4) j finite_subset [OF V(3) fin] by (subst card_insert_disjoint) auto
    ultimately show ?thesis using V j by (auto simp: election_ok_def intro!: exI [of _ "insert j V"])
  qed
  then have "cluster_inv ms (?c1\<lparr>cl_election := (cl_election ?c1)(i := map_option (\<lambda>v. el\<lparr>el_waiting := remove1 j (el_waiting el), el_votes := v\<rparr>) votes)\<rparr>)"
    by (intro election_inv [OF inv1]) auto
  then show ?thesis by simp
qed

lemma finish_election_inv:
  assumes inv: "cluster_inv ms c" and i: "i \<in> ms" and el: "cl_election c i = Some el"
    and run: "finish_election m (el_term el) (el_votes el) (cl_node c i) = (n, won)"
  shows "cluster_inv ms (c\<lparr>cl_node := (cl_node c)(i := n), cl_election := (cl_election c)(i := None),
        cl_elected := cl_elected c \<union> (if won then {(el_term el, i)} else {})\<rparr>)"
proof (cases won)
  case False
  then have "n = cl_node c i" using run by (auto simp: finish_election_def Let_def split: if_splits prod.splits)
  with False election_inv [OF inv, of None i] show ?thesis by simp
next
  case True
  let ?c1 = "c\<lparr>cl_node := (cl_node c)(i := n), cl_election := (cl_election c)(i := None),
        cl_elected := cl_elected c \<union> {(el_term el, i)}\<rparr>"
  have old: "node_ok ms i (cl_node c i)" and fin: "finite ms" and elok: "election_ok ms (cl_grants c) i el"
    using inv i el by (auto simp: cluster_inv_def)
  have n: "nd_id n = nd_id (cl_node c i)" "nd_peers n = nd_peers (cl_node c i)" "nd_cfg_peers n = nd_cfg_peers (cl_node c i)" "nd_state_file n = nd_state_file (cl_node c i)"
    "ns_term (nd_state n) = ns_term (nd_state (cl_node c i))" "ns_voted_for (nd_state n) = ns_voted_for (nd_state (cl_node c i))"
    "ns_term (nd_state n) = el_term el" "majority (cl_node c i) \<le> el_votes el"
    using run True by (auto simp: finish_election_def Let_def split: if_splits prod.splits)
  have ok: "node_ok ms i n" by (rule node_ok_same [OF old n(1-6)])
  have "length (nd_peers (cl_node c i)) = card (ms - {i})"
    using old by (metis node_ok_def peers_ok_def distinct_card length_map set_map)
  then have maj: "majority (cl_node c i) = card ms div 2 + 1"
    using i fin by (simp add: majority_def card_Diff_singleton)
  obtain V where "V \<subseteq> ms" "\<forall>v \<in> V. (v, el_term el, i) \<in> cl_grants c" "el_votes el \<le> card V"
    using elok by (auto simp: election_ok_def)
  then have won: "\<exists>V. majority_of ms V \<and> (\<forall>v \<in> V. (v, el_term el, i) \<in> cl_grants c)"
    using fin n(8) maj by (intro exI [of _ V]) (simp add: majority_of_def)
  have "votes_ok ms ?c1" using inv n(5,6) by (auto simp: cluster_inv_def votes_ok_def voted_ok_def)
  moreover have "messages_ok ms ?c1" using inv by (simp add: cluster_inv_def messages_ok_def)
  moreover have "(ns_term (nd_state (cl_node ?c1 j)), j) \<in> cl_elected ?c1"
    if "j \<in> ms" "ns_role (nd_state (cl_node ?c1 j)) = Leader" for j
    using inv n(7) that by (cases "j = i") (simp_all add: cluster_inv_def)
  moreover have "node_ok ms j (cl_node ?c1 j)" if "j \<in> ms" for j
    using inv ok that by (cases "j = i") (simp_all add: cluster_inv_def)
  moreover have "election_ok ms (cl_grants ?c1) j e" if "j \<in> ms" "cl_election ?c1 j = Some e" for j e
    using inv that by (cases "j = i") (simp_all add: cluster_inv_def)
  ultimately have "cluster_inv ms ?c1" using inv won unfolding cluster_inv_def by auto
  with True show ?thesis by simp
qed

subsection \<open>Election safety\<close>

lemma fresh_inv: "fresh_cluster ms c \<Longrightarrow> cluster_inv ms c"
  by (auto simp: fresh_cluster_def fresh_node_def cluster_inv_def node_ok_def votes_ok_def messages_ok_def load_state_def)

lemma cluster_step_inv:
  assumes "cluster_step m de ms c c'" and inv: "cluster_inv ms c"
  shows "cluster_inv ms c'"
proof -
  have ok: "node_ok ms i (cl_node c i)" if "i \<in> ms" for i using inv that by (simp add: cluster_inv_def)
  from assms(1) show ?thesis
  proof cases
    case (cs_restart i deadline)
    have "cluster_inv ms (c\<lparr>cl_node := (cl_node c)(i := node_restart de deadline (cl_node c i))\<rparr>)"
      using no_vote_inv [OF inv cs_restart(2)] local_steps_quiet(5) [OF ok [OF cs_restart(2)]] by blast
    from election_inv [OF this, of None i] show ?thesis using cs_restart(1) by simp
  next
    case (cs_append i trm mb deadline leader addr prev pt es lc ci n reply)
    from on_append_entries_quiet [OF cs_append(6) ok [OF cs_append(2)] cs_append(3,4,5)] cs_append(1,2)
    show ?thesis using no_vote_inv [OF inv] by blast
  next
    case (cs_reply i r trm repl repl' n out)
    from take_reply_quiet [OF cs_reply(4) ok [OF cs_reply(2)] cs_reply(3)] cs_reply(1,2)
    show ?thesis using no_vote_inv [OF inv] by blast
  next
    case (cs_start i deadline n msg)
    show ?thesis unfolding cs_start(1) by (rule start_election_inv [OF inv cs_start(2,5,6)])
  next
    case (cs_vote j trm i li lt deadline n reply)
    show ?thesis unfolding cs_vote(1) by (rule request_vote_inv [OF inv cs_vote(2-4)])
  next
    case (cs_count i el j reply n votes)
    show ?thesis unfolding cs_count(1) by (rule count_vote_inv [OF inv cs_count(2-6)])
  next
    case (cs_finish i el n won)
    show ?thesis unfolding cs_finish(1) by (rule finish_election_inv [OF inv cs_finish(2,3,5)])
  next
    case (cs_step_down i deadline reason)
    show ?thesis unfolding cs_step_down(1)
      using no_vote_inv [OF inv cs_step_down(2)] local_steps_quiet(4) [OF ok [OF cs_step_down(2)]] by blast
  next
    case (cs_propose i trm data client)
    show ?thesis unfolding cs_propose(1)
      using no_vote_inv [OF inv cs_propose(2)] local_steps_quiet(1) [OF ok [OF cs_propose(2)]] by blast
  next
    case (cs_launch i repl n repl' msgs)
    show ?thesis unfolding cs_launch(1)
      using no_vote_inv [OF inv cs_launch(2)] local_steps_quiet(3) [OF ok [OF cs_launch(2)] cs_launch(3)] by blast
  next
    case (cs_round i trm ci)
    show ?thesis unfolding cs_round(1)
      using no_vote_inv [OF inv cs_round(2)] local_steps_quiet(2) [OF ok [OF cs_round(2)]] by blast
  qed
qed

lemma cluster_run_inv:
  assumes "(cluster_step m de ms)\<^sup>*\<^sup>* c c'" and "cluster_inv ms c"
  shows "cluster_inv ms c'"
  using assms by (induction rule: rtranclp_induct) (auto intro: cluster_step_inv)

lemma elected_unique:
  assumes "cluster_inv ms c" and "(t, i) \<in> cl_elected c" and "(t, j) \<in> cl_elected c"
  shows "i = j"
proof -
  from assms obtain V W where V: "majority_of ms V" "\<forall>v \<in> V. (v, t, i) \<in> cl_grants c"
    and W: "majority_of ms W" "\<forall>v \<in> W. (v, t, j) \<in> cl_grants c"
    unfolding cluster_inv_def by meson
  have one: "d = e" if "(v, t, d) \<in> cl_grants c" "(v, t, e) \<in> cl_grants c" for v d e
    using assms(1) that unfolding cluster_inv_def by blast
  show ?thesis
    by (rule maj.winner_unique [of "\<lambda>v d. (v, t, d) \<in> cl_grants c" ms V i W j]) (use V W one in blast)+
qed

subsection \<open>Runs\<close>

text \<open>A machine that keeps the data of the entries it applies, and three nodes with nothing on them.\<close>

definition tape_machine :: "bytes list machine" where
  "tape_machine = \<lparr>mc_ser = (\<lambda>e. Some (le_data e)), mc_app = (\<lambda>d db. (db @ [d], Inr ())), mc_noop = [0]\<rparr>"

definition tape_node :: "nat list \<Rightarrow> nat \<Rightarrow> bytes list Node" where
  "tape_node ms i = \<lparr>nd_id = i, nd_listen = [], nd_repl_addr = [],
     nd_cfg_peers = map (\<lambda>j. \<lparr>pe_id = j, pe_addr = []\<rparr>) (filter (\<lambda>j. j \<noteq> i) ms),
     nd_peers = map (\<lambda>j. \<lparr>pe_id = j, pe_addr = []\<rparr>) (filter (\<lambda>j. j \<noteq> i) ms),
     nd_state = \<lparr>ns_term = 0, ns_voted_for = None, ns_role = Follower, ns_leader = None, ns_deadline = 0\<rparr>,
     nd_log = raft_log_new, nd_disk = \<lparr>rd_log = None, rd_snap = None\<rparr>, nd_state_file = None, nd_db = [],
     nd_pending = [], nd_progress = [], nd_leader = None, nd_answers = []\<rparr>"

definition tape_cluster :: "nat list \<Rightarrow> bytes list Cluster" where
  "tape_cluster ms = \<lparr>cl_node = tape_node ms, cl_election = (\<lambda>_. None), cl_requests = {}, cl_replies = {},
     cl_grants = {}, cl_elected = {}\<rparr>"






subsection \<open>Properties\<close>

text \<open>
  C24. Election safety. In every run of a fresh cluster with a fixed membership, whatever the
  network loses, delays or repeats and however often nodes restart from their state files, no
  two nodes ever win the same term, and two nodes that are leader at the same time with the
  same term are the same node.
\<close>

theorem election_safety:
  assumes "fresh_cluster ms c0" and "(cluster_step m de ms)\<^sup>*\<^sup>* c0 c"
  shows "(\<forall>t a b. (t, a) \<in> cl_elected c \<longrightarrow> (t, b) \<in> cl_elected c \<longrightarrow> a = b)
    \<and> (\<forall>i \<in> ms. \<forall>j \<in> ms. ns_role (nd_state (cl_node c i)) = Leader \<longrightarrow> ns_role (nd_state (cl_node c j)) = Leader
        \<longrightarrow> ns_term (nd_state (cl_node c i)) = ns_term (nd_state (cl_node c j)) \<longrightarrow> i = j)"
proof -
  have inv: "cluster_inv ms c" by (rule cluster_run_inv [OF assms(2) fresh_inv [OF assms(1)]])
  then have "(ns_term (nd_state (cl_node c i)), i) \<in> cl_elected c"
    if "i \<in> ms" "ns_role (nd_state (cl_node c i)) = Leader" for i
    using that by (simp add: cluster_inv_def)
  with elected_unique [OF inv] show ?thesis by metis
qed

lemma tape_cluster_fresh: "fresh_cluster {1, 2, 3} (tape_cluster [1, 2, 3])"
  by (auto simp: fresh_cluster_def fresh_node_def peers_ok_def tape_cluster_def tape_node_def)

lemma five_steps: "r a b \<Longrightarrow> r b c \<Longrightarrow> r c d \<Longrightarrow> r d e \<Longrightarrow> r e f \<Longrightarrow> r\<^sup>*\<^sup>* a f"
  by (meson rtranclp.rtrancl_refl rtranclp.rtrancl_into_rtrancl)

theorem election_safety_witness:
  "\<exists>c. (cluster_step tape_machine (\<lambda>_. None) {1, 2, 3})\<^sup>*\<^sup>* (tape_cluster [1, 2, 3]) c
    \<and> ns_role (nd_state (cl_node c 1)) = Leader \<and> ns_term (nd_state (cl_node c 1)) = 1
    \<and> (1, 1) \<in> cl_elected c \<and> (1, 2) \<notin> cl_elected c"
proof -
  let ?step = "cluster_step tape_machine (\<lambda>_. None) {1, 2, 3}" and ?c = "tape_cluster [1, 2, 3]"
  obtain n1 req where start: "start_election Io_ok 0 (cl_node ?c 1) = (n1, req)" by (metis prod.collapse)
  obtain n2 reply where vote: "on_request_vote Io_ok 0 1 1 0 0 (cl_node ?c 2) = (n2, reply)" by (metis prod.collapse)
  obtain n1' won where fin: "finish_election tape_machine 1 2 n1 = (n1', won)" by (metis prod.collapse)
  have n1: "n1 = fst (start_election Io_ok 0 (cl_node ?c 1))" "req = snd (start_election Io_ok 0 (cl_node ?c 1))"
    using start by simp_all
  have "ns_term (nd_state n1) = 1 \<and> map pe_id (nd_peers n1) = [2, 3] \<and> req = RequestVote 1 1 0 0"
    "nd_peers n1 = [\<lparr>pe_id = 2, pe_addr = []\<rparr>, \<lparr>pe_id = 3, pe_addr = []\<rparr>]"
    unfolding n1 by code_simp+
  then have n1s: "ns_term (nd_state n1) = 1" "map pe_id (nd_peers n1) = [2, 3]" "req = RequestVote 1 1 0 0"
    "nd_peers n1 = [\<lparr>pe_id = 2, pe_addr = []\<rparr>, \<lparr>pe_id = 3, pe_addr = []\<rparr>]" by blast+
  have "snd (on_request_vote Io_ok 0 1 1 0 0 (cl_node ?c 2)) = Vote 1 True" by code_simp
  then have reply: "reply = Vote 1 True" using vote by simp
  have cnt: "count_vote Io_ok 1 (Some (Vote 1 True)) 1 n1 = (n1, Some 2)" "count_vote Io_ok 1 None 2 n1 = (n1, Some 2)"
    unfolding n1 by (simp_all add: count_vote_def start_election_def Let_def tape_cluster_def tape_node_def)
  have "snd (finish_election tape_machine 1 2 n1) = True"
    "ns_role (nd_state (fst (finish_election tape_machine 1 2 n1))) = Leader"
    "ns_term (nd_state (fst (finish_election tape_machine 1 2 n1))) = 1" unfolding n1 by code_simp+
  then have won: "won" "ns_role (nd_state n1') = Leader" "ns_term (nd_state n1') = 1" using fin by simp_all
  define c1 where "c1 = ?c\<lparr>cl_node := (cl_node ?c)(1 := n1), cl_grants := insert (1, ns_term (nd_state n1), 1) (cl_grants ?c),
      cl_requests := cl_requests ?c \<union> {(pe_id p, req) |p. p \<in> set (nd_peers n1)},
      cl_election := (cl_election ?c)(1 := Some \<lparr>el_term = ns_term (nd_state n1), el_waiting = map pe_id (nd_peers n1), el_votes = 1\<rparr>)\<rparr>"
  have s1: "?step ?c c1"
    unfolding c1_def by (rule cs_start [OF _ _ _ _ start]) (simp_all add: tape_cluster_def tape_node_def)
  have "(2, RequestVote 1 1 0 0) \<in> {(pe_id p, req) |p. p \<in> set (nd_peers n1)}"
    unfolding n1s(3,4) by (intro CollectI exI [of _ "\<lparr>pe_id = 2, pe_addr = []\<rparr>"]) simp
  then have c1: "(2, RequestVote 1 1 0 0) \<in> cl_requests c1" "cl_node c1 2 = cl_node ?c 2" "cl_node c1 1 = n1" "cl_elected c1 = {}"
    "cl_election c1 1 = Some \<lparr>el_term = 1, el_waiting = [2, 3], el_votes = 1\<rparr>"
    by (simp_all add: c1_def n1s(1,2) tape_cluster_def)
  define c2 where "c2 = c1\<lparr>cl_node := (cl_node c1)(2 := n2), cl_grants := cl_grants c1 \<union> grant 2 1 1 reply,
      cl_replies := insert (2, 1, 1, reply) (cl_replies c1)\<rparr>"
  have mem: "(2 :: nat) \<in> {1, 2, 3}" by simp
  have s2: "?step c1 c2" unfolding c2_def by (rule cs_vote [OF mem c1(1) vote [folded c1(2)]])
  define c3 where "c3 = c2\<lparr>cl_node := (cl_node c2)(1 := n1), cl_election := (cl_election c2)(1 := Some \<lparr>el_term = 1, el_waiting = [3], el_votes = 2\<rparr>)\<rparr>"
  have s3: "?step c2 c3"
    using cs_count [of 1 "{1, 2, 3}" c2 "\<lparr>el_term = 1, el_waiting = [2, 3], el_votes = 1\<rparr>" 2 "Some (Vote 1 True)" n1 "Some 2"] cnt(1) c1(3,5)
    by (simp add: c3_def c2_def reply)
  define c4 where "c4 = c3\<lparr>cl_node := (cl_node c3)(1 := n1), cl_election := (cl_election c3)(1 := Some \<lparr>el_term = 1, el_waiting = [], el_votes = 2\<rparr>)\<rparr>"
  have s4: "?step c3 c4"
    using cs_count [of 1 "{1, 2, 3}" c3 "\<lparr>el_term = 1, el_waiting = [3], el_votes = 2\<rparr>" 3 None n1 "Some 2"] cnt(2)
    by (simp add: c4_def c3_def)
  define c5 where "c5 = c4\<lparr>cl_node := (cl_node c4)(1 := n1'), cl_election := (cl_election c4)(1 := None), cl_elected := cl_elected c4 \<union> {(1, 1)}\<rparr>"
  have s5: "?step c4 c5"
    using cs_finish [of 1 "{1, 2, 3}" c4 "\<lparr>el_term = 1, el_waiting = [], el_votes = 2\<rparr>" tape_machine n1' True] fin won(1)
    by (simp add: c5_def c4_def)
  have run: "?step\<^sup>*\<^sup>* ?c c5" by (rule five_steps [of ?step, OF s1 s2 s3 s4 s5])
  have el: "(1, 1) \<in> cl_elected c5" by (simp add: c5_def)
  have "(1, 2) \<in> cl_elected c5 \<Longrightarrow> (1 :: nat) = 2"
    using conjunct1 [OF election_safety [OF tape_cluster_fresh run], rule_format, OF el] .
  then have "(1, 2) \<notin> cl_elected c5" by linarith
  moreover have "cl_node c5 1 = n1'" by (simp add: c5_def)
  ultimately show ?thesis using run won el by (intro exI [of _ c5]) metis
qed


end
