(* ===== verification/Packet_Framing.thy ===== *)
theory Packet_Framing
  imports Elyra_Prelude
begin

section \<open>Packets of the client protocol\<close>

text \<open>
  \<open>crates/elyra-wire/src/packet_writer.rs\<close> and \<open>packet_reader.rs\<close>: a message is cut into
  frames of at most \<open>U24_MAX\<close> payload bytes, each with a three-byte length and a sequence
  number; the reader buffers what arrives and parses the next message from the buffer. The
  connection is a byte string together with how much of it each \<open>read\<close> delivers, or each
  \<open>write_vectored\<close> takes. A message is as the protocol defines it: frames that are full are
  followed by more, so the last frame is a short one and may be empty.
\<close>

subsection \<open>Writing\<close>

definition U24_MAX :: nat where
  "U24_MAX = 16777215"

record PacketBuilder =
  pb_buffer :: bytes
  pb_seq :: u8

record PacketWriter =
  pw_builder :: PacketBuilder
  pw_out :: bytes

definition packet_writer_new :: PacketWriter where
  "packet_writer_new = \<lparr>pw_builder = \<lparr>pb_buffer = [], pb_seq = 0\<rparr>, pw_out = []\<rparr>"

definition set_seq :: "u8 \<Rightarrow> PacketWriter \<Rightarrow> PacketWriter" where
  "set_seq s w = w\<lparr>pw_builder := (pw_builder w)\<lparr>pb_seq := s\<rparr>\<rparr>"

definition write_buf :: "bytes \<Rightarrow> PacketWriter \<Rightarrow> PacketWriter" where
  "write_buf buf w = w\<lparr>pw_builder := (pw_builder w)\<lparr>pb_buffer := pb_buffer (pw_builder w) @ buf\<rparr>\<rparr>"

function chunks :: "nat \<Rightarrow> 'a list \<Rightarrow> 'a list list" where
  "chunks n xs = (if n = 0 \<or> xs = [] then [] else take n xs # chunks n (drop n xs))"
  by pat_completeness auto
termination by (relation "measure (\<lambda>(n, xs). length xs)") auto

declare chunks.simps [simp del]

definition packet_frame :: "u8 \<Rightarrow> bytes \<Rightarrow> bytes" where
  "packet_frame seq chunk = nat_le 3 (length chunk) @ seq # chunk"

text \<open>A short write is completed with \<open>write_all\<close>.\<close>

definition send_frame :: "nat \<Rightarrow> bytes \<Rightarrow> bytes \<Rightarrow> bytes" where
  "send_frame accepted fr out =
     (let written = min accepted (length fr);
          out1 = out @ take written fr
      in if written \<noteq> length fr then out1 @ drop written fr else out1)"

fun send_chunks :: "nat list \<Rightarrow> bytes list \<Rightarrow> u8 \<Rightarrow> bytes \<Rightarrow> u8 \<times> bytes" where
  "send_chunks ws [] seq out = (seq, out)"
| "send_chunks ws (c # cs) seq out =
     send_chunks (drop 1 ws) cs (seq + 1) (send_frame (case ws of [] \<Rightarrow> 0 | w # _ \<Rightarrow> w) (packet_frame seq c) out)"

definition end_packet :: "nat list \<Rightarrow> PacketWriter \<Rightarrow> PacketWriter" where
  "end_packet ws w =
     (let b = pw_builder w in
      if pb_buffer b \<noteq> [] then
        let (seq, out) = send_chunks ws (chunks U24_MAX (pb_buffer b)) (pb_seq b) (pw_out w)
        in w\<lparr>pw_builder := \<lparr>pb_buffer = [], pb_seq = seq\<rparr>, pw_out := out\<rparr>
      else w)"

subsection \<open>Parsing\<close>

text \<open>\<open>NErr\<close> and \<open>NFail\<close> are nom's recoverable and unrecoverable errors.\<close>

datatype 'a IResult = Done bytes 'a | NErr | NFail | NPanic

fun nom_bind :: "'a IResult \<Rightarrow> (bytes \<Rightarrow> 'a \<Rightarrow> 'b IResult) \<Rightarrow> 'b IResult" where
  "nom_bind (Done i x) f = f i x"
| "nom_bind NErr f = NErr"
| "nom_bind NFail f = NFail"
| "nom_bind NPanic f = NPanic"

definition nom_take :: "nat \<Rightarrow> bytes \<Rightarrow> bytes IResult" where
  "nom_take n i = (if length i < n then NErr else Done (drop n i) (take n i))"

definition full_tag :: bytes where
  "full_tag = [0xFF, 0xFF, 0xFF]"

definition nom_tag :: "bytes \<Rightarrow> bytes \<Rightarrow> bytes IResult" where
  "nom_tag t i = (if starts_with i t then Done (drop (length t) i) t else NErr)"

definition fullpacket :: "bytes \<Rightarrow> (u8 \<times> bytes) IResult" where
  "fullpacket i =
     nom_bind (nom_tag full_tag i) (\<lambda>i _. nom_bind (nom_take 1 i) (\<lambda>i seq. nom_bind (nom_take U24_MAX i) (\<lambda>i b. Done i (hd seq, b))))"

definition onepacket :: "bytes \<Rightarrow> (u8 \<times> bytes) IResult" where
  "onepacket i =
     nom_bind (nom_take 3 i) (\<lambda>i l. nom_bind (nom_take 1 i) (\<lambda>i seq. nom_bind (nom_take (le_nat l) i) (\<lambda>i b. Done i (hd seq, b))))"

text \<open>A packet borrows one frame or owns several; \<open>extend\<close> asserts that it does not do both.\<close>

type_synonym Packet = "bytes \<times> bytes"

definition packet_extend :: "bytes \<Rightarrow> Packet \<Rightarrow> Packet option" where
  "packet_extend b p =
     (if fst p = [] then (if snd p = [] then Some (b, []) else Some (fst p, snd p @ b))
      else if snd p \<noteq> [] then None
      else Some ([], fst p @ b))"

definition packet_as_ref :: "Packet \<Rightarrow> bytes" where
  "packet_as_ref p = (if snd p = [] then fst p else snd p)"

definition out_of_order :: "u8 option \<Rightarrow> u8 \<Rightarrow> bool" where
  "out_of_order previous seq = (case previous of None \<Rightarrow> False | Some p \<Rightarrow> seq \<noteq> p + 1)"

definition assemble :: "Packet option \<Rightarrow> bytes \<Rightarrow> Packet option" where
  "assemble asm payload = (case asm of None \<Rightarrow> Some (payload, []) | Some p \<Rightarrow> packet_extend payload p)"

lemma fullpacket_shorter: "fullpacket i = Done rest x \<Longrightarrow> length rest < length i"
  by (auto simp: fullpacket_def nom_tag_def nom_take_def full_tag_def starts_with_def split: if_splits)

function packet_from :: "u8 option \<Rightarrow> Packet option \<Rightarrow> bytes \<Rightarrow> (u8 \<times> Packet) IResult" where
  "packet_from previous asm remaining =
     (if starts_with remaining full_tag then
        (case fullpacket remaining of
           Done rest (seq, payload) \<Rightarrow>
             (if out_of_order previous seq then NFail
              else case assemble asm payload of
                     Some p \<Rightarrow> packet_from (Some seq) (Some p) rest
                   | None \<Rightarrow> NPanic)
         | NErr \<Rightarrow> NErr | NFail \<Rightarrow> NFail | NPanic \<Rightarrow> NPanic)
      else
        nom_bind (onepacket remaining) (\<lambda>rest (seq, payload).
          if out_of_order previous seq then NFail
          else case assemble asm payload of Some p \<Rightarrow> Done rest (seq, p) | None \<Rightarrow> NPanic))"
  by pat_completeness auto
termination
  by (relation "measure (\<lambda>(_, _, i). length i)") (auto dest: fullpacket_shorter)

declare packet_from.simps [simp del]

definition packet :: "bytes \<Rightarrow> (u8 \<times> Packet) IResult" where
  "packet i = packet_from None None i"

subsection \<open>Reading\<close>

record PacketReader =
  rd_bytes :: bytes
  rd_start :: nat
  rd_remaining :: nat
  rd_src :: bytes

datatype read_error = ReaderPanic | InvalidPacket | PacketTooLarge | UnhandledBytes nat

definition PACKET_BUFFER_SIZE :: nat where "PACKET_BUFFER_SIZE = 4096"
definition PACKET_LARGE_BUFFER_SIZE :: nat where "PACKET_LARGE_BUFFER_SIZE = 1048576"

definition packet_reader_new :: "bytes \<Rightarrow> PacketReader" where
  "packet_reader_new src = \<lparr>rd_bytes = [], rd_start = 0, rd_remaining = 0, rd_src = src\<rparr>"

definition resize :: "nat \<Rightarrow> bytes \<Rightarrow> bytes" where
  "resize n bs = take n bs @ replicate (n - length bs) 0"

text \<open>One \<open>read\<close> into a buffer: something, unless the stream is at its end.\<close>

definition read_some :: "nat \<Rightarrow> nat \<Rightarrow> bytes \<Rightarrow> bytes" where
  "read_some k buf_len src = take (min (max 1 k) buf_len) src"

text \<open>
  Making room and reading: the consumed bytes are dropped, the buffer is grown up to the limit
  and cut back to what was read.
\<close>

definition fill :: "nat \<Rightarrow> nat \<Rightarrow> nat \<Rightarrow> PacketReader \<Rightarrow> PacketReader \<times> nat" where
  "fill limit buffer_size k r =
     (let bytes = drop (rd_start r) (rd_bytes r);
          fin = rd_remaining r;
          buf = (if length bytes - fin < buffer_size then resize (min (max buffer_size (2 * fin)) limit) bytes else bytes);
          got = read_some k (length buf - fin) (rd_src r);
          n = length got
      in (\<lparr>rd_bytes = take (fin + n) (take fin buf @ got @ drop (fin + n) buf), rd_start = 0,
           rd_remaining = fin + n, rd_src = drop n (rd_src r)\<rparr>, n))"

lemma read_some_le: "length (read_some k b src) \<le> length src"
  by (simp add: read_some_def)

lemma fill_src:
  "rd_src (fst (fill limit bs k r)) = drop (snd (fill limit bs k r)) (rd_src r)"
  "snd (fill limit bs k r) \<le> length (rd_src r)"
  by (simp_all only: fill_def Let_def fst_conv snd_conv PacketReader.select_convs read_some_le)

lemma fill_shorter: "fill limit bs k r = (r', n) \<Longrightarrow> n \<noteq> 0 \<Longrightarrow> length (rd_src r') < length (rd_src r)"
  using fill_src [of limit bs k r] by simp

definition parse_buffered :: "PacketReader \<Rightarrow> (u8 \<times> Packet) IResult" where
  "parse_buffered r =
     (if rd_remaining r \<noteq> 0 then packet (take (rd_remaining r) (drop (rd_start r) (rd_bytes r))) else NErr)"

function next_loop ::
  "nat \<Rightarrow> nat \<Rightarrow> nat list \<Rightarrow> PacketReader \<Rightarrow> PacketReader \<times> (read_error + (u8 \<times> Packet) option)" where
  "next_loop limit buffer_size ks r =
     (case parse_buffered r of
        Done rest p \<Rightarrow> (r\<lparr>rd_remaining := length rest\<rparr>, Inr (Some p))
      | NFail \<Rightarrow> (r\<lparr>rd_bytes := take (rd_remaining r) (rd_bytes r)\<rparr>, Inl InvalidPacket)
      | NPanic \<Rightarrow> (r, Inl ReaderPanic)
      | NErr \<Rightarrow>
          (if rd_remaining r \<ge> limit
           then (r\<lparr>rd_bytes := [], rd_start := 0, rd_remaining := 0\<rparr>, Inl PacketTooLarge)
           else
             let (r', n) = fill limit buffer_size (case ks of [] \<Rightarrow> 0 | k # _ \<Rightarrow> k) r
             in if n = 0
                then (r', if rd_bytes r' = [] then Inr None else Inl (UnhandledBytes (length (rd_bytes r'))))
                else next_loop limit PACKET_LARGE_BUFFER_SIZE (drop 1 ks) r'))"
  by pat_completeness auto
termination
  by (relation "measure (\<lambda>(_, _, _, r). length (rd_src r))") (auto dest: fill_shorter [OF sym])

declare next_loop.simps [simp del]

definition next_async :: "nat \<Rightarrow> nat list \<Rightarrow> PacketReader \<Rightarrow> PacketReader \<times> (read_error + (u8 \<times> Packet) option)" where
  "next_async limit ks r =
     next_loop limit PACKET_BUFFER_SIZE ks (r\<lparr>rd_start := length (rd_bytes r) - rd_remaining r\<rparr>)"

subsection \<open>Frames\<close>

lemma U24_pos [simp]: "0 < U24_MAX" "U24_MAX \<noteq> 0"
  by (simp_all add: U24_MAX_def)

lemma frame_parts:
  "length (packet_frame seq c) = 4 + length c" "take 3 (packet_frame seq c @ x) = nat_le 3 (length c)"
  "drop 3 (packet_frame seq c @ x) = seq # c @ x"
  by (simp_all add: packet_frame_def)

lemma le_nat_header: "length c \<le> U24_MAX \<Longrightarrow> le_nat (nat_le 3 (length c)) = length c"
  by (simp add: le_nat_nat_le U24_MAX_def)

lemma full_header: "n \<le> U24_MAX \<Longrightarrow> nat_le 3 n = full_tag \<longleftrightarrow> n = U24_MAX"
proof
  assume n: "n \<le> U24_MAX" and eq: "nat_le 3 n = full_tag"
  have "le_nat (nat_le 3 n) = n" using n by (simp add: le_nat_nat_le U24_MAX_def)
  with eq show "n = U24_MAX" by (simp add: full_tag_def U24_MAX_def)
next
  assume "n = U24_MAX"
  then show "nat_le 3 n = full_tag" by (simp add: U24_MAX_def full_tag_def numeral_3_eq_3)
qed

lemma length_full_tag [simp]: "length full_tag = 3"
  by (simp add: full_tag_def)

lemma starts_full: "length c \<le> U24_MAX \<Longrightarrow> starts_with (packet_frame seq c @ x) full_tag \<longleftrightarrow> length c = U24_MAX"
  unfolding starts_with_def length_full_tag frame_parts(2) by (rule full_header)

lemma fullpacket_frame:
  assumes "length c = U24_MAX"
  shows "fullpacket (packet_frame seq c @ rest) = Done rest (seq, c)"
proof -
  have tag: "nom_tag full_tag (packet_frame seq c @ rest) = Done (seq # c @ rest) full_tag"
    using starts_full [of c seq rest] assms unfolding nom_tag_def length_full_tag frame_parts(3) by simp
  show ?thesis using assms by (simp add: fullpacket_def tag nom_take_def)
qed

lemma onepacket_frame:
  assumes "length c \<le> U24_MAX"
  shows "onepacket (packet_frame seq c @ rest) = Done rest (seq, c)"
proof -
  have "nom_take 3 (packet_frame seq c @ rest) = Done (seq # c @ rest) (nat_le 3 (length c))"
    using frame_parts [of seq c] by (simp add: nom_take_def)
  with le_nat_header [OF assms] show ?thesis by (simp add: onepacket_def nom_take_def)
qed

text \<open>A frame that has not arrived in full is not parsed.\<close>

lemma frame_cut:
  assumes "packet_frame seq c = q @ x" and "x \<noteq> []" and "length c \<le> U24_MAX"
  shows "onepacket q = NErr" and "starts_with q full_tag \<Longrightarrow> length c = U24_MAX \<and> fullpacket q = NErr"
proof -
  have len: "length q < 4 + length c"
    using arg_cong [OF assms(1), of length] assms(2) by (simp add: frame_parts)
  have take3: "take 3 q = nat_le 3 (length c)" if "3 \<le> length q"
    using that arg_cong [OF assms(1), of "take 3"] frame_parts(2) [of seq c "[]"] by simp
  show "onepacket q = NErr"
  proof (cases "length q < 4")
    case True
    then show ?thesis by (simp add: onepacket_def nom_take_def)
  next
    case False
    with len take3 le_nat_header [OF assms(3)] show ?thesis by (simp add: onepacket_def nom_take_def)
  qed
  assume tag: "starts_with q full_tag"
  then obtain r where "q = full_tag @ r" by (auto simp: starts_with_iff)
  then have three: "take 3 q = full_tag" "3 \<le> length q" by simp_all
  with take3 full_header [OF assms(3)] have "length c = U24_MAX" by simp
  moreover have "fullpacket q = NErr"
  proof (cases "length q < 4")
    case True
    with three show ?thesis by (simp add: fullpacket_def nom_tag_def tag nom_take_def)
  next
    case False
    with len \<open>length c = U24_MAX\<close> show ?thesis by (simp add: fullpacket_def nom_tag_def tag nom_take_def)
  qed
  ultimately show "length c = U24_MAX \<and> fullpacket q = NErr" ..
qed

subsection \<open>Messages\<close>

function message_frames :: "u8 \<Rightarrow> bytes \<Rightarrow> bytes" where
  "message_frames seq msg =
     (if length msg < U24_MAX then packet_frame seq msg
      else packet_frame seq (take U24_MAX msg) @ message_frames (seq + 1) (drop U24_MAX msg))"
  by pat_completeness auto
termination
proof (relation "measure (\<lambda>(_, m). length m)")
  fix seq :: u8 and msg :: bytes
  assume "\<not> length msg < U24_MAX"
  then have "U24_MAX \<le> length msg" by simp
  with U24_pos(1) have "length msg - U24_MAX < length msg" by linarith
  then show "((seq + 1, drop U24_MAX msg), seq, msg) \<in> measure (\<lambda>(_, m). length m)" by simp
qed simp

declare message_frames.simps [simp del]

definition message_seq :: "u8 \<Rightarrow> bytes \<Rightarrow> u8" where
  "message_seq seq msg = seq + of_nat (length msg div U24_MAX)"

lemma message_seq_step:
  "U24_MAX \<le> length msg \<Longrightarrow> message_seq (seq + 1) (drop U24_MAX msg) = message_seq seq msg"
  by (simp add: message_seq_def le_div_geq)

definition packet_ok :: "Packet option \<Rightarrow> bool" where
  "packet_ok asm = (case asm of None \<Rightarrow> True | Some p \<Rightarrow> fst p = [] \<or> snd p = [])"

definition assembled :: "Packet option \<Rightarrow> bytes" where
  "assembled asm = (case asm of None \<Rightarrow> [] | Some p \<Rightarrow> packet_as_ref p)"

lemma assemble_ok:
  "packet_ok asm \<Longrightarrow> \<exists>p. assemble asm b = Some p \<and> packet_ok (Some p) \<and> packet_as_ref p = assembled asm @ b"
  by (cases asm) (auto simp: packet_ok_def assemble_def packet_extend_def packet_as_ref_def assembled_def)

lemma packet_from_message:
  assumes "packet_ok asm" and "\<not> out_of_order previous seq"
  shows "\<exists>p. packet_from previous asm (message_frames seq msg @ rest) = Done rest (message_seq seq msg, p)
    \<and> packet_as_ref p = assembled asm @ msg"
  using assms
proof (induction seq msg arbitrary: previous asm rule: message_frames.induct)
  case (1 seq msg)
  show ?case
  proof (cases "length msg < U24_MAX")
    case True
    then have eq: "message_frames seq msg = packet_frame seq msg" "message_seq seq msg = seq"
      by (simp_all add: message_frames.simps message_seq_def)
    have full: "\<not> starts_with (packet_frame seq msg @ rest) full_tag" using True starts_full by simp
    obtain p where p: "assemble asm msg = Some p" "packet_as_ref p = assembled asm @ msg"
      using assemble_ok [OF 1(2)] by blast
    have "packet_from previous asm (packet_frame seq msg @ rest) = Done rest (seq, p)"
      using True full p 1(3) by (subst packet_from.simps) (simp add: onepacket_frame)
    with p eq show ?thesis by simp
  next
    case False
    let ?c = "take U24_MAX msg" and ?m = "drop U24_MAX msg"
    have c: "length ?c = U24_MAX" using False by simp
    have eq: "message_frames seq msg @ rest = packet_frame seq ?c @ message_frames (seq + 1) ?m @ rest"
      using False by (simp add: message_frames.simps [of seq msg])
    have full: "starts_with (packet_frame seq ?c @ message_frames (seq + 1) ?m @ rest) full_tag"
      using c starts_full [of ?c seq] by simp
    obtain p where p: "assemble asm ?c = Some p" "packet_ok (Some p)" "packet_as_ref p = assembled asm @ ?c"
      using assemble_ok [OF 1(2)] by blast
    have "packet_from previous asm (message_frames seq msg @ rest) = packet_from (Some seq) (Some p) (message_frames (seq + 1) ?m @ rest)"
      unfolding eq using full p 1(3) by (subst packet_from.simps) (simp add: fullpacket_frame [OF c])
    moreover obtain p' where "packet_from (Some seq) (Some p) (message_frames (seq + 1) ?m @ rest)
        = Done rest (message_seq (seq + 1) ?m, p')" "packet_as_ref p' = assembled (Some p) @ ?m"
      using 1(1) [OF False p(2), of "Some seq"] by (auto simp: out_of_order_def)
    ultimately show ?thesis using p(3) message_seq_step [of msg seq] False by (simp add: assembled_def)
  qed
qed

lemma append_cut:
  assumes "a @ b = q @ x"
  obtains y where "a = q @ y" "y \<noteq> []" | q' where "q = a @ q'" "b = q' @ x"
proof -
  from assms obtain us where "a = q @ us \<and> x = us @ b \<or> q = a @ us \<and> b = us @ x"
    by (auto simp: append_eq_append_conv2)
  with that show ?thesis by (cases "us = []") auto
qed

lemma packet_from_cut:
  assumes "message_frames seq msg = q @ x" and "x \<noteq> []" and "packet_ok asm" and "\<not> out_of_order previous seq"
  shows "packet_from previous asm q = NErr"
  using assms
proof (induction seq msg arbitrary: previous asm q rule: message_frames.induct)
  case (1 seq msg)
  show ?case
  proof (cases "length msg < U24_MAX")
    case True
    then have eq: "packet_frame seq msg = q @ x" using 1(2) by (simp add: message_frames.simps)
    note cut = frame_cut [OF eq 1(3) less_imp_le [OF True]]
    from cut(2) True have "\<not> starts_with q full_tag" by (metis less_irrefl)
    with cut(1) show ?thesis by (subst packet_from.simps) simp
  next
    case False
    let ?c = "take U24_MAX msg" and ?m = "drop U24_MAX msg"
    have c: "length ?c = U24_MAX" using False by simp
    have eq: "packet_frame seq ?c @ message_frames (seq + 1) ?m = q @ x"
      using 1(2) False by (simp add: message_frames.simps [of seq msg])
    then consider y where "packet_frame seq ?c = q @ y" "y \<noteq> []" | q' where "q = packet_frame seq ?c @ q'" "message_frames (seq + 1) ?m = q' @ x"
      by (rule append_cut)
    then show ?thesis
    proof cases
      case (1 y)
      note cut = frame_cut [OF 1 eq_imp_le [OF c]]
      show ?thesis using cut(1) conjunct2 [OF cut(2)]
        by (cases "starts_with q full_tag") (subst packet_from.simps, simp)+
    next
      case (2 q')
      obtain p where p: "assemble asm ?c = Some p" "packet_ok (Some p)"
        using assemble_ok [OF 1(4)] by blast
      have "packet_from previous asm q = packet_from (Some seq) (Some p) q'"
        unfolding 2(1) using starts_full [of ?c seq q'] c p 1(5) by (subst packet_from.simps) (simp add: fullpacket_frame [OF c])
      also have "\<dots> = NErr" by (rule 1(1) [OF False 2(2) 1(3) p(2)]) (simp add: out_of_order_def)
      finally show ?thesis .
    qed
  qed
qed

lemma packet_message: "\<exists>p. packet (message_frames seq msg @ rest) = Done rest (message_seq seq msg, p) \<and> packet_as_ref p = msg"
  using packet_from_message [of None None seq msg rest] by (simp add: packet_def packet_ok_def out_of_order_def assembled_def)

lemma packet_cut: "message_frames seq msg = q @ x \<Longrightarrow> x \<noteq> [] \<Longrightarrow> packet q = NErr"
  using packet_from_cut [of seq msg q x None None] by (simp add: packet_def packet_ok_def out_of_order_def)

subsection \<open>The writer\<close>

lemma send_frame_all: "send_frame k fr out = out @ fr"
  by (simp add: send_frame_def Let_def min_def)

lemma send_chunks_message:
  assumes "length msg mod U24_MAX \<noteq> 0"
  shows "send_chunks ws (chunks U24_MAX msg) seq out = (message_seq seq msg + 1, out @ message_frames seq msg)"
  using assms
proof (induction seq msg arbitrary: ws out rule: message_frames.induct)
  case (1 seq msg)
  then have ne: "msg \<noteq> []" by auto
  show ?case
  proof (cases "length msg < U24_MAX")
    case True
    then have "chunks U24_MAX msg = [msg]" using ne U24_pos by (simp add: chunks.simps)
    with True show ?thesis by (simp add: message_frames.simps message_seq_def send_frame_all)
  next
    case False
    let ?m = "drop U24_MAX msg"
    have "chunks U24_MAX msg = take U24_MAX msg # chunks U24_MAX ?m" using ne U24_pos by (simp add: chunks.simps [of _ msg])
    moreover have "length ?m mod U24_MAX \<noteq> 0" using 1(2) False by (simp add: le_mod_geq)
    ultimately show ?thesis
      using 1(1) [OF False] False message_seq_step [of msg seq] by (simp add: send_frame_all message_frames.simps [of seq msg])
  qed
qed

text \<open>At a multiple of \<open>U24_MAX\<close> the closing empty frame is missing.\<close>

lemma send_chunks_full:
  assumes "length msg = n * U24_MAX"
  shows "\<exists>s q. send_chunks ws (chunks U24_MAX msg) seq out = (s, out @ q) \<and> message_frames seq msg = q @ packet_frame s []"
  using assms
proof (induction n arbitrary: msg ws seq out)
  case 0
  then have "msg = []" by simp
  then show ?case using U24_pos by (auto simp: chunks.simps message_frames.simps)
next
  case (Suc n)
  let ?m = "drop U24_MAX msg"
  have ne: "msg \<noteq> []" "\<not> length msg < U24_MAX" using Suc.prems U24_pos by auto
  then have ch: "chunks U24_MAX msg = take U24_MAX msg # chunks U24_MAX ?m" using U24_pos by (simp add: chunks.simps [of _ msg])
  have "length ?m = n * U24_MAX" using Suc.prems by simp
  from Suc.IH [OF this, of "drop 1 ws" "seq + 1" "out @ packet_frame seq (take U24_MAX msg)"] obtain s q where
    "send_chunks (drop 1 ws) (chunks U24_MAX ?m) (seq + 1) (out @ packet_frame seq (take U24_MAX msg))
      = (s, (out @ packet_frame seq (take U24_MAX msg)) @ q)" "message_frames (seq + 1) ?m = q @ packet_frame s []" by blast
  with ne ch show ?case
    by (intro exI [of _ s] exI [of _ "packet_frame seq (take U24_MAX msg) @ q"]) (simp add: send_frame_all message_frames.simps [of seq msg])
qed

subsection \<open>The reader\<close>

text \<open>Between calls the buffer ends with the bytes not yet consumed.\<close>

definition buffered :: "PacketReader \<Rightarrow> bytes" where
  "buffered r = drop (rd_start r) (rd_bytes r)"

definition reader_at :: "PacketReader \<Rightarrow> bool" where
  "reader_at r \<longleftrightarrow> rd_start r + rd_remaining r = length (rd_bytes r)"

lemma buffered_length: "reader_at r \<Longrightarrow> length (buffered r) = rd_remaining r"
  by (auto simp: reader_at_def buffered_def)

lemma parse_buffered_packet:
  "reader_at r \<Longrightarrow> parse_buffered r = (if buffered r = [] then NErr else packet (buffered r))"
  using buffered_length [of r] by (auto simp: parse_buffered_def buffered_def)

lemma take_length_take: "take m xs = take (length (take m xs)) xs"
  by (cases "m \<le> length xs") simp_all

lemma fill_effect:
  assumes "reader_at r" and "rd_remaining r < limit" and "0 < bs"
  shows "\<exists>got. fill limit bs k r = (\<lparr>rd_bytes = buffered r @ got, rd_start = 0, rd_remaining = length (buffered r @ got),
      rd_src = drop (length got) (rd_src r)\<rparr>, length got)
    \<and> got = take (length got) (rd_src r) \<and> (got = [] \<longleftrightarrow> rd_src r = []) \<and> length (buffered r @ got) \<le> limit"
proof -
  let ?b = "buffered r" and ?n = "min (max bs (2 * rd_remaining r)) limit"
  have len: "length ?b = rd_remaining r" by (rule buffered_length [OF assms(1)])
  have n: "rd_remaining r < ?n" using assms(2,3) by auto
  define got where "got = read_some k (length (resize ?n ?b) - rd_remaining r) (rd_src r)"
  have res: "length (resize ?n ?b) = ?n" "take (rd_remaining r) (resize ?n ?b) = ?b"
    using len n by (simp_all add: resize_def)
  have got: "got = take (length got) (rd_src r)" "got = [] \<longleftrightarrow> rd_src r = []" "length got \<le> ?n - rd_remaining r"
    using n take_length_take by (auto simp: got_def read_some_def res)
  have "fill limit bs k r = (\<lparr>rd_bytes = take (rd_remaining r + length got) (?b @ got @ drop (rd_remaining r + length got) (resize ?n ?b)),
      rd_start = 0, rd_remaining = rd_remaining r + length got, rd_src = drop (length got) (rd_src r)\<rparr>, length got)"
    using assms(3) len res n by (simp add: fill_def Let_def got_def flip: buffered_def)
  moreover have "take (rd_remaining r + length got) (?b @ got @ drop (rd_remaining r + length got) (resize ?n ?b)) = ?b @ got"
    using len by simp
  moreover have "length (?b @ got) \<le> limit" using got(3) n len assms(2) by simp
  ultimately show ?thesis using got(1,2) len by (intro exI [of _ got]) simp
qed

definition unread :: "PacketReader \<Rightarrow> bytes" where
  "unread r = drop (length (rd_bytes r) - rd_remaining r) (rd_bytes r) @ rd_src r"

lemma suffix_drop: "b = a @ x \<Longrightarrow> drop (length b - length x) b = x \<and> length x \<le> length b"
  by simp

lemma next_loop_message:
  assumes "reader_at r" and "buffered r @ rd_src r = message_frames seq msg @ later"
    and "length (message_frames seq msg) \<le> limit" and "0 < bs"
  shows "\<exists>r' p. next_loop limit bs ks r = (r', Inr (Some (message_seq seq msg, p))) \<and> packet_as_ref p = msg
    \<and> unread r' = later \<and> rd_remaining r' \<le> length (rd_bytes r')"
  using assms
proof (induction "length (rd_src r)" arbitrary: r bs ks rule: less_induct)
  case less
  let ?m = "message_frames seq msg"
  from less(3) consider y where "?m = buffered r @ y" "y \<noteq> []" | x where "buffered r = ?m @ x" "later = x @ rd_src r"
    by (metis append_cut [of ?m later "buffered r" "rd_src r"])
  then show ?case
  proof cases
    case (2 x)
    have "?m \<noteq> []" by (subst message_frames.simps) (simp add: packet_frame_def)
    moreover obtain p where p: "packet (?m @ x) = Done x (message_seq seq msg, p)" "packet_as_ref p = msg"
      using packet_message by blast
    ultimately have "parse_buffered r = Done x (message_seq seq msg, p)"
      by (simp add: parse_buffered_packet [OF less(2)] 2(1))
    then have "next_loop limit bs ks r = (r\<lparr>rd_remaining := length x\<rparr>, Inr (Some (message_seq seq msg, p)))"
      by (simp add: next_loop.simps)
    moreover have "take (rd_start r) (rd_bytes r) @ buffered r = rd_bytes r" by (simp add: buffered_def)
    then have "rd_bytes r = (take (rd_start r) (rd_bytes r) @ ?m) @ x" using 2(1) by simp
    note suffix_drop [OF this]
    ultimately show ?thesis using p(2) 2(2) by (simp add: unread_def)
  next
    case (1 y)
    then have "packet (buffered r) = NErr" by (rule packet_cut)
    then have parse: "parse_buffered r = NErr" by (simp add: parse_buffered_packet [OF less(2)])
    have "length y \<noteq> 0" using 1(2) by simp
    then have "rd_remaining r < limit"
      using less(4) buffered_length [OF less(2)] unfolding 1(1) length_append by linarith
    from fill_effect [OF less(2) this less(5), of "case ks of [] \<Rightarrow> 0 | k # _ \<Rightarrow> k"] obtain got where
      fill: "fill limit bs (case ks of [] \<Rightarrow> 0 | k # _ \<Rightarrow> k) r = (\<lparr>rd_bytes = buffered r @ got, rd_start = 0,
        rd_remaining = length (buffered r @ got), rd_src = drop (length got) (rd_src r)\<rparr>, length got)"
      and got: "got = take (length got) (rd_src r)" "got = [] \<longleftrightarrow> rd_src r = []" by blast
    let ?r = "\<lparr>rd_bytes = buffered r @ got, rd_start = 0, rd_remaining = length (buffered r @ got), rd_src = drop (length got) (rd_src r)\<rparr>"
    have "rd_src r \<noteq> []" using 1 less(3) by auto
    then have "got \<noteq> []" "length (rd_src ?r) < length (rd_src r)" using got(2) by auto
    moreover have "buffered ?r @ rd_src ?r = ?m @ later"
      using less(3) got(1) by (simp add: buffered_def) (metis append_take_drop_id)
    ultimately obtain r' p where "next_loop limit PACKET_LARGE_BUFFER_SIZE (drop 1 ks) ?r = (r', Inr (Some (message_seq seq msg, p)))"
      "packet_as_ref p = msg" "unread r' = later" "rd_remaining r' \<le> length (rd_bytes r')"
      using less(1) [of ?r PACKET_LARGE_BUFFER_SIZE "drop 1 ks"] less(4) by (auto simp: reader_at_def PACKET_LARGE_BUFFER_SIZE_def)
    moreover have "next_loop limit bs ks r = next_loop limit PACKET_LARGE_BUFFER_SIZE (drop 1 ks) ?r"
      using \<open>rd_remaining r < limit\<close> \<open>got \<noteq> []\<close> by (subst next_loop.simps) (simp add: parse fill)
    ultimately show ?thesis by simp
  qed
qed

lemma next_async_message:
  assumes "rd_remaining r \<le> length (rd_bytes r)" and "unread r = message_frames seq msg @ later"
    and "length (message_frames seq msg) \<le> limit"
  shows "\<exists>r' p. next_async limit ks r = (r', Inr (Some (message_seq seq msg, p))) \<and> packet_as_ref p = msg
    \<and> unread r' = later \<and> rd_remaining r' \<le> length (rd_bytes r')"
proof -
  let ?r = "r\<lparr>rd_start := length (rd_bytes r) - rd_remaining r\<rparr>"
  have "reader_at ?r" "buffered ?r @ rd_src ?r = message_frames seq msg @ later"
    using assms(1,2) by (simp_all add: reader_at_def buffered_def unread_def)
  then show ?thesis
    using next_loop_message [of ?r seq msg later limit PACKET_BUFFER_SIZE ks] assms(3)
    by (simp add: next_async_def PACKET_BUFFER_SIZE_def)
qed

lemma next_async_end:
  assumes "rd_remaining r \<le> length (rd_bytes r)" and "unread r = []" and "0 < limit"
  shows "snd (next_async limit ks r) = Inr None"
proof -
  let ?r = "r\<lparr>rd_start := length (rd_bytes r) - rd_remaining r\<rparr>"
  have r: "reader_at ?r" "buffered ?r = []" "rd_src ?r = []" "rd_remaining ?r = 0"
    using assms(1,2) by (auto simp: reader_at_def buffered_def unread_def)
  from fill_effect [OF r(1), of limit PACKET_BUFFER_SIZE "case ks of [] \<Rightarrow> 0 | k # _ \<Rightarrow> k"] r assms(3)
  have "fill limit PACKET_BUFFER_SIZE (case ks of [] \<Rightarrow> 0 | k # _ \<Rightarrow> k) ?r
      = (\<lparr>rd_bytes = [], rd_start = 0, rd_remaining = 0, rd_src = []\<rparr>, 0)"
    by (auto simp: PACKET_BUFFER_SIZE_def)
  moreover have "parse_buffered ?r = NErr" using r by (simp add: parse_buffered_packet)
  ultimately show ?thesis using assms(3) r(4) by (simp add: next_async_def next_loop.simps)
qed

text \<open>No input makes the parser trip over its assertion.\<close>

lemma packet_from_no_panic: "packet_ok asm \<Longrightarrow> packet_from previous asm i \<noteq> NPanic"
proof (induction previous asm i rule: packet_from.induct)
  case (1 previous asm i)
  have full: "fullpacket i \<noteq> NPanic" "onepacket i \<noteq> NPanic"
    by (auto simp: fullpacket_def onepacket_def nom_tag_def nom_take_def)
  show ?case
  proof (cases "starts_with i full_tag")
    case True
    show ?thesis
    proof (cases "fullpacket i")
      case (Done rest x)
      obtain seq payload where x: "x = (seq, payload)" by (cases x)
      obtain p where "assemble asm payload = Some p" "packet_ok (Some p)" using assemble_ok [OF 1(2)] by blast
      with 1(1) [OF True Done x [symmetric]] True Done x show ?thesis by (subst packet_from.simps) simp
    qed (use True full in \<open>(subst packet_from.simps, simp)+\<close>)
  next
    case False
    show ?thesis
    proof (cases "onepacket i")
      case (Done rest x)
      obtain seq payload where x: "x = (seq, payload)" by (cases x)
      obtain p where "assemble asm payload = Some p" using assemble_ok [OF 1(2)] by blast
      with False Done x show ?thesis by (subst packet_from.simps) simp
    qed (use False full in \<open>(subst packet_from.simps, simp)+\<close>)
  qed
qed

lemma packet_from_rest: "packet_from previous asm i = Done rest x \<Longrightarrow> length rest \<le> length i"
proof (induction previous asm i rule: packet_from.induct)
  case (1 previous asm i)
  show ?case
  proof (cases "starts_with i full_tag")
    case True
    with 1(2) obtain rest' seq payload p where step: "fullpacket i = Done rest' (seq, payload)" "\<not> out_of_order previous seq"
      "assemble asm payload = Some p" "packet_from (Some seq) (Some p) rest' = Done rest x"
      by (subst (asm) packet_from.simps) (auto split: IResult.splits if_splits option.splits)
    from 1(1) [OF True step(1) refl step(2,3,4)] fullpacket_shorter [OF step(1)] show ?thesis by simp
  next
    case False
    with 1(2) show ?thesis
      by (subst (asm) packet_from.simps) (auto simp: onepacket_def nom_take_def split: if_splits option.splits)
  qed
qed

lemma next_loop_bounded:
  assumes "reader_at r" and "length (rd_bytes r) \<le> limit" and "0 < bs" and "next_loop limit bs ks r = (r', res)"
  shows "length (rd_bytes r') \<le> limit \<and> rd_remaining r' \<le> length (rd_bytes r') \<and> res \<noteq> Inl ReaderPanic"
  using assms
proof (induction "length (rd_src r)" arbitrary: r bs ks rule: less_induct)
  case less
  show ?case
  proof (cases "parse_buffered r")
    case (Done rest p)
    then have "length rest \<le> length (buffered r)"
      using packet_from_rest [of None None "buffered r" rest p]
      by (auto simp: parse_buffered_packet [OF less(2)] packet_def split: if_splits)
    then have "length rest \<le> length (rd_bytes r)" by (simp add: buffered_def)
    with Done less(3,5) show ?thesis by (auto simp: next_loop.simps)
  next
    case NFail
    with less(2,3,5) show ?thesis by (auto simp: next_loop.simps reader_at_def)
  next
    case NPanic
    then show ?thesis
      using packet_from_no_panic [of None None "buffered r"]
      by (auto simp: parse_buffered_packet [OF less(2)] packet_def packet_ok_def split: if_splits)
  next
    case NErr
    show ?thesis
    proof (cases "limit \<le> rd_remaining r")
      case True
      with NErr less(5) show ?thesis by (auto simp: next_loop.simps)
    next
      case False
      then have "rd_remaining r < limit" by simp
      from fill_effect [OF less(2) this less(4), of "case ks of [] \<Rightarrow> 0 | k # _ \<Rightarrow> k"] obtain got where
        fill: "fill limit bs (case ks of [] \<Rightarrow> 0 | k # _ \<Rightarrow> k) r = (\<lparr>rd_bytes = buffered r @ got, rd_start = 0,
          rd_remaining = length (buffered r @ got), rd_src = drop (length got) (rd_src r)\<rparr>, length got)"
        and got: "got = [] \<longleftrightarrow> rd_src r = []" "length (buffered r @ got) \<le> limit" by blast
      let ?r = "\<lparr>rd_bytes = buffered r @ got, rd_start = 0, rd_remaining = length (buffered r @ got), rd_src = drop (length got) (rd_src r)\<rparr>"
      show ?thesis
      proof (cases "got = []")
        case True
        with less(5) NErr False fill got(2) show ?thesis by (subst (asm) next_loop.simps) (auto split: if_splits)
      next
        case got_ne: False
        have "next_loop limit PACKET_LARGE_BUFFER_SIZE (drop 1 ks) ?r = (r', res)"
          using less(5) NErr False fill got_ne by (subst (asm) next_loop.simps) simp
        moreover have "length (rd_src ?r) < length (rd_src r)" using got(1) got_ne by auto
        ultimately show ?thesis
          using less(1) [of ?r PACKET_LARGE_BUFFER_SIZE "drop 1 ks"] got(2)
          by (simp add: reader_at_def PACKET_LARGE_BUFFER_SIZE_def)
      qed
    qed
  qed
qed

fun reader_run :: "nat \<Rightarrow> nat list list \<Rightarrow> PacketReader \<Rightarrow> PacketReader \<times> (read_error + (u8 \<times> Packet) option) list" where
  "reader_run limit [] r = (r, [])"
| "reader_run limit (ks # kss) r =
     (let (r1, x) = next_async limit ks r; (r2, xs) = reader_run limit kss r1 in (r2, x # xs))"

definition message_of :: "(u8 \<times> Packet) option \<Rightarrow> (u8 \<times> bytes) option" where
  "message_of = map_option (\<lambda>(seq, p). (seq, packet_as_ref p))"

lemma reader_run_messages:
  assumes "rd_remaining r \<le> length (rd_bytes r)" and "unread r = concat (map (\<lambda>(s, m). message_frames s m) msgs)"
    and "\<forall>(s, m) \<in> set msgs. length (message_frames s m) \<le> limit" and "0 < limit" and "length kss = length msgs + 1"
  shows "map (map_sum id message_of) (snd (reader_run limit kss r))
    = map (\<lambda>(s, m). Inr (Some (message_seq s m, m))) msgs @ [Inr None]"
  using assms
proof (induction msgs arbitrary: r kss)
  case Nil
  then obtain ks where "kss = [ks]" by (auto simp: length_Suc_conv)
  with next_async_end [of r limit ks] Nil show ?case by (simp add: case_prod_beta message_of_def)
next
  case (Cons sm msgs)
  obtain s m where sm: "sm = (s, m)" by (cases sm)
  from Cons.prems(5) obtain ks kss' where kss: "kss = ks # kss'" "length kss' = length msgs + 1" by (cases kss) auto
  from next_async_message [OF Cons.prems(1), of s m "concat (map (\<lambda>(s, m). message_frames s m) msgs)" limit ks] Cons.prems(2,3)
  obtain r' p where step: "next_async limit ks r = (r', Inr (Some (message_seq s m, p)))" "packet_as_ref p = m"
    "unread r' = concat (map (\<lambda>(s, m). message_frames s m) msgs)" "rd_remaining r' \<le> length (rd_bytes r')"
    by (auto simp: sm)
  obtain r2 xs where run: "reader_run limit kss' r' = (r2, xs)" by (cases "reader_run limit kss' r'")
  have "\<forall>(s, m) \<in> set msgs. length (message_frames s m) \<le> limit" using Cons.prems(3) by simp
  from Cons.IH [OF step(4,3) this Cons.prems(4) kss(2)] step(1,2) kss(1) run show ?case by (simp add: sm message_of_def)
qed

lemma reader_run_bounded:
  assumes "rd_remaining r \<le> length (rd_bytes r)" and "length (rd_bytes r) \<le> limit"
  shows "length (rd_bytes (fst (reader_run limit kss r))) \<le> limit \<and> Inl ReaderPanic \<notin> set (snd (reader_run limit kss r))"
  using assms
proof (induction limit kss r rule: reader_run.induct)
  case (2 limit ks kss r)
  let ?r = "r\<lparr>rd_start := length (rd_bytes r) - rd_remaining r\<rparr>"
  obtain r1 x where run: "next_async limit ks r = (r1, x)" by (cases "next_async limit ks r")
  have "reader_at ?r" using 2(2) by (simp add: reader_at_def)
  from next_loop_bounded [OF this, of limit PACKET_BUFFER_SIZE ks r1 x] run 2(3)
  have "length (rd_bytes r1) \<le> limit" "rd_remaining r1 \<le> length (rd_bytes r1)" "x \<noteq> Inl ReaderPanic"
    by (simp_all add: next_async_def PACKET_BUFFER_SIZE_def)
  with 2(1) [OF run [symmetric] refl] run show ?case by (auto simp: case_prod_beta)
qed simp

subsection \<open>Properties\<close>

text \<open>
  C26. Pipelined messages arrive intact. When the client sends any messages, each cut into
  frames as the protocol says and none larger than the limit, then however the network splits
  the stream into reads, each call returns the next message with the sequence number of its
  last frame, and the call after the last one reports the end of the stream.
\<close>

theorem pipelined_messages_intact:
  assumes "\<forall>(s, m) \<in> set msgs. length (message_frames s m) \<le> limit" and "0 < limit" and "length kss = length msgs + 1"
  shows "map (map_sum id message_of)
      (snd (reader_run limit kss (packet_reader_new (concat (map (\<lambda>(s, m). message_frames s m) msgs)))))
    = map (\<lambda>(s, m). Inr (Some (message_seq s m, m))) msgs @ [Inr None]"
  using reader_run_messages [OF _ _ assms] by (simp add: packet_reader_new_def unread_def)

theorem pipelined_messages_intact_witness:
  "map (map_sum id message_of) (snd (reader_run 1024 [[2, 1, 3], [4], []]
      (packet_reader_new [3, 0, 0, 5, 22, 1, 2, 1, 0, 0, 0, 14])))
    = [Inr (Some (5, [22, 1, 2])), Inr (Some (0, [14])), Inr None]"
proof -
  let ?msgs = "[(5, [22, 1, 2]), (0, [14])]"
  have small: "length [22, 1, 2 :: u8] < U24_MAX" "length [14 :: u8] < U24_MAX" by (simp_all add: U24_MAX_def)
  have frames: "message_frames 5 [22, 1, 2] = [3, 0, 0, 5, 22, 1, 2]" "message_frames 0 [14] = [1, 0, 0, 0, 14]"
    by (subst message_frames.simps, subst if_P, rule small, code_simp)+
  have seq: "message_seq 5 [22, 1, 2] = 5" "message_seq 0 [14] = 0" using small by (simp_all add: message_seq_def)
  have "\<forall>(s, m) \<in> set ?msgs. length (message_frames s m) \<le> 1024" by (simp add: frames)
  from pipelined_messages_intact [OF this, of "[[2, 1, 3], [4], []]"]
  show ?thesis by (simp add: frames seq del: reader_run.simps)
qed

text \<open>
  C27. The reader is bounded and total on any input. Whatever bytes a client sends and in
  whatever pieces, after any number of calls the buffer is within \<open>max_allowed_packet\<close>, and no
  call trips over the assertion in \<open>Packet::extend\<close>.
\<close>

theorem reader_bounded:
  "length (rd_bytes (fst (reader_run limit kss (packet_reader_new src)))) \<le> limit
    \<and> Inl ReaderPanic \<notin> set (snd (reader_run limit kss (packet_reader_new src)))"
  using reader_run_bounded [of "packet_reader_new src" limit kss] by (simp add: packet_reader_new_def)

text \<open>
  C28. What \<open>end_packet\<close> writes. Whatever the stream accepts at a time, a message whose length
  is not a multiple of \<open>U24_MAX\<close> is written as the frames of the protocol, and parsing them
  gives the message back. At a multiple the closing empty frame is missing: the parser does
  not accept what was written as a complete message.
\<close>

theorem end_packet_readback:
  assumes "pb_buffer (pw_builder w) = msg" and "msg \<noteq> []" and "pw_out w = []"
  shows "if length msg mod U24_MAX = 0 then packet (pw_out (end_packet ws w)) = NErr
    else \<exists>p. packet (pw_out (end_packet ws w) @ rest) = Done rest (message_seq (pb_seq (pw_builder w)) msg, p)
      \<and> packet_as_ref p = msg"
proof -
  let ?s = "pb_seq (pw_builder w)"
  have out: "pw_out (end_packet ws w) = snd (send_chunks ws (chunks U24_MAX msg) ?s [])"
    using assms by (simp add: end_packet_def Let_def case_prod_beta)
  show ?thesis
  proof (cases "length msg mod U24_MAX = 0")
    case True
    then obtain n where "length msg = n * U24_MAX" by (metis dvd_div_mult_self mod_0_imp_dvd)
    from send_chunks_full [OF this, of ws ?s "[]"] obtain s q where "send_chunks ws (chunks U24_MAX msg) ?s [] = (s, q)"
      "message_frames ?s msg = q @ packet_frame s []" by auto
    moreover have "packet_frame s [] \<noteq> []" by (simp add: packet_frame_def)
    ultimately show ?thesis using True packet_cut by (simp add: out)
  next
    case False
    with send_chunks_message [OF False, of ws ?s "[]"] packet_message [of ?s msg rest] show ?thesis by (simp add: out)
  qed
qed

theorem end_packet_readback_witness:
  "(\<exists>p. packet (pw_out (end_packet [2] (write_buf [7, 8] (set_seq 3 packet_writer_new))) @ [1]) = Done [1] (3, p)
      \<and> packet_as_ref p = [7, 8])
    \<and> packet (pw_out (end_packet [] (write_buf (replicate U24_MAX 0) packet_writer_new))) = NErr"
proof -
  let ?w = "write_buf [7, 8] (set_seq 3 packet_writer_new)" and ?v = "write_buf (replicate U24_MAX 0) packet_writer_new"
  have w: "pb_buffer (pw_builder ?w) = [7, 8]" "pw_out ?w = []" "pb_seq (pw_builder ?w) = 3" "length [7, 8 :: u8] mod U24_MAX \<noteq> 0"
    "message_seq 3 [7, 8] = 3"
    by (simp_all add: write_buf_def set_seq_def packet_writer_new_def U24_MAX_def message_seq_def)
  have v: "pb_buffer (pw_builder ?v) = replicate U24_MAX 0" "pw_out ?v = []"
    by (simp_all add: write_buf_def packet_writer_new_def)
  show ?thesis
    using end_packet_readback [OF w(1) _ w(2), of "[2]" "[1]"] w(4) end_packet_readback [OF v(1) _ v(2), of "[]"]
    by (simp add: w(3,5))
qed

end
