(* ===== verification/Civil_Time.thy ===== *)
theory Civil_Time
  imports Rust_Text "HOL-Library.Signed_Division"
begin

section \<open>Dates and times\<close>

text \<open>
  \<open>crates/elyra-core/src/datetime.rs\<close>: the day number of a Gregorian date and back, and the
  text forms of dates and times. \<open>i64\<close> and \<open>i32\<close> values are integers, with the range check where
  the code checks it; Rust's division and remainder round towards zero (\<open>sdiv\<close>, \<open>smod\<close>). Text
  is ASCII. The calendar itself is the specification: the length of each month, the leap
  years, and the date after a date.
\<close>

subsection \<open>Day numbers\<close>

definition days_from_civil :: "int \<Rightarrow> int \<Rightarrow> int \<Rightarrow> int" where
  "days_from_civil y m d =
     (let y = (if m \<le> 2 then y - 1 else y);
          era = (if y \<ge> 0 then y else y - 399) sdiv 400;
          yoe = y - era * 400;
          doy = (153 * (if m > 2 then m - 3 else m + 9) + 2) sdiv 5 + d - 1;
          doe = yoe * 365 + yoe sdiv 4 - yoe sdiv 100 + doy
      in era * 146097 + doe - 719468)"

definition civil_from_days :: "int \<Rightarrow> int \<times> int \<times> int" where
  "civil_from_days z =
     (let z = z + 719468;
          era = (if z \<ge> 0 then z else z - 146096) sdiv 146097;
          doe = z - era * 146097;
          yoe = (doe - doe sdiv 1460 + doe sdiv 36524 - doe sdiv 146096) sdiv 365;
          y = yoe + era * 400;
          doy = doe - (365 * yoe + yoe sdiv 4 - yoe sdiv 100);
          mp = (5 * doy + 2) sdiv 153;
          d = doy - (153 * mp + 2) sdiv 5 + 1;
          m = (if mp < 10 then mp + 3 else mp - 9)
      in (if m \<le> 2 then y + 1 else y, m, d))"

subsection \<open>Text\<close>

definition in_i64 :: "int \<Rightarrow> bool" where
  "in_i64 i \<longleftrightarrow> - (2 ^ 63) \<le> i \<and> i < 2 ^ 63"

definition checked :: "int \<Rightarrow> int option" where
  "checked i = (if in_i64 i then Some i else None)"

definition checked_mul :: "int \<Rightarrow> int \<Rightarrow> int option" where
  "checked_mul a b = checked (a * b)"

definition checked_add :: "int \<Rightarrow> int \<Rightarrow> int option" where
  "checked_add a b = checked (a + b)"

text \<open>\<open>parse::<i64>\<close> and \<open>parse::<u32>\<close>.\<close>

definition parse_i64 :: "string \<Rightarrow> int option" where
  "parse_i64 s =
     (case s of
        c # cs \<Rightarrow>
          (if c = CHR ''-'' then (case parse_digits cs of Some n \<Rightarrow> checked (- int n) | None \<Rightarrow> None)
           else case parse_digits (if c = CHR ''+'' then cs else s) of Some n \<Rightarrow> checked (int n) | None \<Rightarrow> None)
      | [] \<Rightarrow> None)"

definition parse_u32 :: "string \<Rightarrow> int option" where
  "parse_u32 s =
     (case parse_digits (case s of c # cs \<Rightarrow> if c = CHR ''+'' then cs else s | [] \<Rightarrow> s) of
        Some n \<Rightarrow> if n < 2 ^ 32 then Some (int n) else None
      | None \<Rightarrow> None)"

text \<open>\<open>split_once\<close>, and \<open>splitn\<close> as the list of its pieces.\<close>

fun split_once :: "(char \<Rightarrow> bool) \<Rightarrow> string \<Rightarrow> (string \<times> string) option" where
  "split_once p [] = None"
| "split_once p (c # cs) = (if p c then Some ([], cs) else map_option (\<lambda>(a, b). (c # a, b)) (split_once p cs))"

fun splitn :: "nat \<Rightarrow> char \<Rightarrow> string \<Rightarrow> string list" where
  "splitn 0 c s = []"
| "splitn (Suc n) c s =
     (if n = 0 then [s] else case split_once (\<lambda>x. x = c) s of Some (a, b) \<Rightarrow> a # splitn n c b | None \<Rightarrow> [s])"

text \<open>\<open>{x:02}\<close> and the like: zeros after the sign.\<close>

definition pad_digits :: "nat \<Rightarrow> nat \<Rightarrow> string" where
  "pad_digits w n = replicate (w - length (show_nat n)) (CHR ''0'') @ show_nat n"

definition fmt_pad :: "nat \<Rightarrow> int \<Rightarrow> string" where
  "fmt_pad w i = (if i < 0 then CHR ''-'' # pad_digits (w - 1) (nat (- i)) else pad_digits w (nat i))"

definition is_leap :: "int \<Rightarrow> bool" where
  "is_leap y \<longleftrightarrow> (y mod 4 = 0 \<and> y mod 100 \<noteq> 0) \<or> y mod 400 = 0"

definition days_in_month :: "int \<Rightarrow> int \<Rightarrow> int" where
  "days_in_month y m = [31, if is_leap y then 29 else 28, 31, 30, 31, 30, 31, 31, 30, 31, 30, 31] ! nat (m - 1)"

definition parse_date :: "string \<Rightarrow> int option" where
  "parse_date s =
     (case splitn 3 (CHR ''-'') (str_trim s) of
        [a, b, c] \<Rightarrow>
          (case (parse_i64 a, parse_u32 b, parse_u32 c) of
             (Some y, Some m, Some d) \<Rightarrow>
               (if \<not> (0 \<le> y \<and> y \<le> 9999) \<or> \<not> (1 \<le> m \<and> m \<le> 12) \<or> d < 1 then None
                else if d > days_in_month y m then None
                else let n = days_from_civil y m d
                     in if - (2 ^ 31) \<le> n \<and> n < 2 ^ 31 then Some n else None)
           | _ \<Rightarrow> None)
      | _ \<Rightarrow> None)"

text \<open>\<open>format!("{:0<6}", &f[..f.len().min(6)])\<close> read as a number.\<close>

definition parse_fraction :: "string \<Rightarrow> int option" where
  "parse_fraction f = (let g = take 6 f in parse_i64 (g @ replicate (6 - length g) (CHR ''0'')))"

definition field_or_zero :: "string list \<Rightarrow> nat \<Rightarrow> string" where
  "field_or_zero fs i = (if i < length fs then fs ! i else ''0'')"

definition parse_datetime :: "string \<Rightarrow> int option" where
  "parse_datetime s =
     (let s = str_trim s;
          (date_part, time_part) = (case split_once (\<lambda>c. c = CHR '' '' \<or> c = CHR ''T'') s of
             Some (d, t) \<Rightarrow> (d, Some t) | None \<Rightarrow> (s, None))
      in Option.bind (parse_date date_part) (\<lambda>days.
         Option.bind (checked_mul days 86400) (\<lambda>x. Option.bind (checked_mul x 1000000) (\<lambda>micros.
           case time_part of
             None \<Rightarrow> Some micros
           | Some t \<Rightarrow>
               (let (hms, frac) = (case split_once (\<lambda>c. c = CHR ''.'') t of Some (a, b) \<Rightarrow> (a, Some b) | None \<Rightarrow> (t, None));
                    fs = splitn 3 (CHR '':'') hms
                in Option.bind (parse_i64 (fs ! 0)) (\<lambda>h.
                   Option.bind (parse_i64 (field_or_zero fs 1)) (\<lambda>mi.
                   Option.bind (parse_i64 (field_or_zero fs 2)) (\<lambda>se.
                     if \<not> (0 \<le> h \<and> h \<le> 23) \<or> \<not> (0 \<le> mi \<and> mi \<le> 59) \<or> \<not> (0 \<le> se \<and> se \<le> 59) then None
                     else
                       Option.bind (checked_mul h 3600) (\<lambda>hs. Option.bind (checked_mul mi 60) (\<lambda>ms.
                       Option.bind (checked_add hs ms) (\<lambda>x. Option.bind (checked_add x se) (\<lambda>seconds.
                       Option.bind (checked_mul seconds 1000000) (\<lambda>x. Option.bind (checked_add micros x) (\<lambda>micros.
                         case frac of None \<Rightarrow> Some micros | Some f \<Rightarrow> Option.bind (parse_fraction f) (checked_add micros)))))))))))))))"

definition parse_time :: "string \<Rightarrow> int option" where
  "parse_time s =
     (let s = str_trim s;
          (hms, frac) = (case split_once (\<lambda>c. c = CHR ''.'') s of Some (a, b) \<Rightarrow> (a, Some b) | None \<Rightarrow> (s, None));
          fs = splitn 3 (CHR '':'') hms
      in Option.bind (parse_i64 (fs ! 0)) (\<lambda>h.
         if length fs < 2 then None
         else
           Option.bind (parse_i64 (fs ! 1)) (\<lambda>mi. Option.bind (parse_i64 (field_or_zero fs 2)) (\<lambda>se.
             if \<not> (- 838 \<le> h \<and> h \<le> 838) \<or> \<not> (0 \<le> mi \<and> mi \<le> 59) \<or> \<not> (0 \<le> se \<and> se \<le> 59) then None
             else
               Option.bind (checked_mul h 3600) (\<lambda>hs.
               Option.bind (if h < 0 then checked_mul mi (- 60) else checked_mul mi 60) (\<lambda>ms.
               Option.bind (checked_add hs ms) (\<lambda>x. Option.bind (checked_add x (if h < 0 then - se else se)) (\<lambda>seconds.
               Option.bind (checked_mul seconds 1000000) (\<lambda>micros.
                 case frac of
                   None \<Rightarrow> Some micros
                 | Some f \<Rightarrow> Option.bind (parse_fraction f) (\<lambda>fraction.
                     checked_add micros (if h < 0 then - fraction else fraction)))))))))))"

definition format_hms :: "int \<Rightarrow> int \<Rightarrow> string" where
  "format_hms secs frac =
     (let h = secs sdiv 3600; mi = (secs smod 3600) sdiv 60; s = secs smod 60
      in fmt_pad 2 h @ '':'' @ fmt_pad 2 mi @ '':'' @ fmt_pad 2 s @ (if frac = 0 then [] else ''.'' @ fmt_pad 6 frac))"

definition format_time :: "int \<Rightarrow> string" where
  "format_time micros = format_hms (micros div 1000000) (micros mod 1000000)"

definition format_ymd :: "int \<Rightarrow> string" where
  "format_ymd days = (let (y, m, d) = civil_from_days days in fmt_pad 4 y @ ''-'' @ fmt_pad 2 m @ ''-'' @ fmt_pad 2 d)"

definition format_date :: "int \<Rightarrow> string" where
  "format_date days = format_ymd days"

definition format_datetime :: "int \<Rightarrow> string" where
  "format_datetime micros =
     (let secs = micros div 1000000;
          frac = micros mod 1000000;
          days = secs div 86400;
          tod = secs mod 86400
      in format_ymd days @ '' '' @ format_hms tod frac)"

subsection \<open>The calendar\<close>

definition civil :: "int \<times> int \<times> int \<Rightarrow> bool" where
  "civil = (\<lambda>(y, m, d). 1 \<le> m \<and> m \<le> 12 \<and> 1 \<le> d \<and> d \<le> days_in_month y m)"

definition next_day :: "int \<times> int \<times> int \<Rightarrow> int \<times> int \<times> int" where
  "next_day = (\<lambda>(y, m, d).
     if d < days_in_month y m then (y, m, d + 1) else if m < 12 then (y, m + 1, 1) else (y + 1, 1, 1))"

subsection \<open>Day numbers in closed form\<close>

lemma sdiv_nonneg: "0 \<le> a \<Longrightarrow> 0 < b \<Longrightarrow> a sdiv b = a div (b :: int)"
  by (cases "a = 0") (simp_all add: signed_divide_int_def)

lemma sdiv_floor: "0 < b \<Longrightarrow> (if a \<ge> 0 then a else a - (b - 1)) sdiv b = a div (b :: int)"
proof (cases "a \<ge> 0")
  case False
  assume b: "0 < b"
  have "(b - 1 - a) div b = - (a div b)"
  proof (rule int_div_pos_eq)
    show "b - 1 - a = b * - (a div b) + (b - 1 - a mod b)" using mult_div_mod_eq [of b a] unfolding mult_minus_right by linarith
    show "0 \<le> b - 1 - a mod b" using pos_mod_bound [OF b, of a] by simp
    show "b - 1 - a mod b < b" using pos_mod_sign [OF b, of a] by linarith
  qed
  with False b show ?thesis by (simp add: signed_divide_int_def algebra_simps)
qed (simp add: sdiv_nonneg)

lemma sdiv_eras:
  "(if 0 \<le> a then a else a - 399) sdiv 400 = a div (400 :: int)"
  "(if 0 \<le> a then a else a - 146096) sdiv 146097 = a div (146097 :: int)"
  using sdiv_floor [of 400 a] sdiv_floor [of 146097 a] by (cases "0 \<le> a"; simp)+

definition march_year :: "int \<Rightarrow> int \<Rightarrow> int" where
  "march_year y m = (if m \<le> 2 then y - 1 else y)"

definition march_month :: "int \<Rightarrow> int" where
  "march_month m = (if m > 2 then m - 3 else m + 9)"

definition month_start :: "int \<Rightarrow> int" where
  "month_start mp = (153 * mp + 2) div 5"

definition year_start :: "int \<Rightarrow> int" where
  "year_start Y = 365 * Y + Y div 4 - Y div 100 + Y div 400"

lemma era_sum: "Y = x + 400 * e \<Longrightarrow> p = a + 100 * e \<Longrightarrow> q = b + 4 * e \<Longrightarrow>
    e * 146097 + x * 365 + a - b = 365 * Y + p - q + e" for Y :: int
  by simp

lemma div_shift: "(x + k * n) div k = x div k + n" if "k \<noteq> 0" for x k n :: int
  using that by simp

lemma year_in_era: "Y div 400 * 146097 + (Y mod 400) * 365 + Y mod 400 div 4 - Y mod 400 div 100 = year_start Y"
  unfolding year_start_def
proof (rule era_sum)
  show Y: "Y = Y mod 400 + 400 * (Y div 400)" by simp
  show "Y div 4 = Y mod 400 div 4 + 100 * (Y div 400)"
    using div_shift [of 4 "Y mod 400" "100 * (Y div 400)"] by simp
  show "Y div 100 = Y mod 400 div 100 + 4 * (Y div 400)"
    using div_shift [of 100 "Y mod 400" "4 * (Y div 400)"] by simp
qed

lemma days_closed:
  assumes "1 \<le> m"
  shows "days_from_civil y m d = year_start (march_year y m) + month_start (march_month m) + d - 1 - 719468"
proof -
  define Y where "Y = march_year y m"
  have era: "(if 0 \<le> Y then Y else Y - 399) sdiv 400 = Y div 400" by (rule sdiv_eras)
  have mod: "Y - Y div 400 * 400 = Y mod 400" by (simp add: minus_div_mult_eq_mod)
  have start: "(153 * march_month m + 2) sdiv 5 = month_start (march_month m)"
    using assms by (simp add: month_start_def march_month_def sdiv_nonneg)
  have "days_from_civil y m d = (let era = (if 0 \<le> Y then Y else Y - 399) sdiv 400; yoe = Y - era * 400
      in era * 146097 + (yoe * 365 + yoe sdiv 4 - yoe sdiv 100 + (month_start (march_month m) + d - 1)) - 719468)"
    by (simp add: days_from_civil_def Let_def Y_def flip: march_year_def march_month_def start)
  also have "\<dots> = Y div 400 * 146097 + ((Y mod 400) * 365 + Y mod 400 div 4 - Y mod 400 div 100 + (month_start (march_month m) + d - 1)) - 719468"
    unfolding Let_def era mod by (simp add: sdiv_nonneg)
  finally show ?thesis using year_in_era [of Y] by (simp add: Y_def)
qed

lemma div_succ: "0 < n \<Longrightarrow> (Y + 1) div n = Y div n + (if n dvd Y + 1 then 1 else 0)" for n :: int
proof (cases "n dvd Y + 1")
  case True
  assume n: "0 < n"
  from True obtain k where "Y + 1 = n * k" by blast
  then have "Y = n * (k - 1) + (n - 1)" by (simp add: algebra_simps)
  then have "Y div n = k - 1" using n by (intro int_div_pos_eq [where r = "n - 1"]) simp_all
  with True \<open>Y + 1 = n * k\<close> n show ?thesis by simp
next
  case False
  assume n: "0 < n"
  define r where "r = (Y + 1) mod n"
  have "r \<noteq> 0" "0 \<le> r" "r < n" using False n by (auto simp: r_def dvd_eq_mod_eq_0)
  moreover have "Y = n * ((Y + 1) div n) + (r - 1)" using mult_div_mod_eq [of n "Y + 1"] unfolding r_def by linarith
  ultimately have "Y div n = (Y + 1) div n" by (intro int_div_pos_eq [where r = "r - 1"]) simp_all
  with False show ?thesis by simp
qed

lemma year_start_step: "year_start (Y + 1) = year_start Y + 365 + (if is_leap (Y + 1) then 1 else 0)"
proof -
  have "400 dvd Y + 1 \<Longrightarrow> 100 dvd Y + 1" "100 dvd Y + 1 \<Longrightarrow> 4 dvd Y + 1"
    by (rule dvd_trans [of _ 400], simp_all) (rule dvd_trans [of _ 100], simp_all)
  then show ?thesis
    by (auto simp: year_start_def div_succ is_leap_def simp flip: dvd_eq_mod_eq_0)
qed

subsection \<open>Months\<close>

lemma month_cases:
  assumes "1 \<le> m" "m \<le> (12 :: int)"
  shows "m \<in> {1, 2, 3, 4, 5, 6, 7, 8, 9, 10, 11, 12}"
  using assms by simp presburger

lemma month_table:
  "month_start 0 = 0" "month_start 1 = 31" "month_start 2 = 61" "month_start 3 = 92" "month_start 4 = 122"
  "month_start 5 = 153" "month_start 6 = 184" "month_start 7 = 214" "month_start 8 = 245" "month_start 9 = 275"
  "month_start 10 = 306" "month_start 11 = 337"
  by (simp_all add: month_start_def)

lemma days_in_month_table:
  "days_in_month y 1 = 31" "days_in_month y 2 = (if is_leap y then 29 else 28)" "days_in_month y 3 = 31"
  "days_in_month y 4 = 30" "days_in_month y 5 = 31" "days_in_month y 6 = 30" "days_in_month y 7 = 31"
  "days_in_month y 8 = 31" "days_in_month y 9 = 30" "days_in_month y 10 = 31" "days_in_month y 11 = 30"
  "days_in_month y 12 = 31"
  by (simp_all add: days_in_month_def)

lemmas month_simps = month_table days_in_month_table march_year_def march_month_def

lemma next_day_number:
  assumes "civil (y, m, d)"
  shows "(case next_day (y, m, d) of (y', m', d') \<Rightarrow> days_from_civil y' m' d') = days_from_civil y m d + 1"
proof -
  have m: "1 \<le> m" "m \<le> 12" and d: "d \<le> days_in_month y m" using assms by (simp_all add: civil_def)
  show ?thesis
  proof (cases "d < days_in_month y m")
    case True
    with m show ?thesis by (simp add: next_day_def days_closed)
  next
    case False
    with d have d: "d = days_in_month y m" by simp
    show ?thesis
      using month_cases [OF m] year_start_step [of "y - 1"]
      by (auto simp: d next_day_def days_closed month_simps)
  qed
qed

lemma month_of_day:
  assumes "1 \<le> m" "m \<le> 12" "1 \<le> d" "d \<le> days_in_month y m" and t: "t = month_start (march_month m) + d - 1"
  shows "(5 * t + 2) div 153 = march_month m" and "0 \<le> t" and "t \<le> 365"
    and "t = 365 \<Longrightarrow> m = 2 \<and> is_leap y"
proof -
  show "(5 * t + 2) div 153 = march_month m"
  proof (rule int_div_pos_eq)
    show "5 * t + 2 = 153 * march_month m + (5 * t + 2 - 153 * march_month m)" by simp
    show "0 \<le> 5 * t + 2 - 153 * march_month m" "5 * t + 2 - 153 * march_month m < 153"
      using month_cases [OF assms(1,2)] assms(3,4) by (auto simp: t month_simps split: if_splits)
  qed
  show "0 \<le> t" "t \<le> 365" "t = 365 \<Longrightarrow> m = 2 \<and> is_leap y"
    using month_cases [OF assms(1,2)] assms(3,4) by (auto simp: t month_simps split: if_splits)
qed

lemma day_of_year:
  assumes "0 \<le> t" "t \<le> 365"
  shows "\<exists>m d. 1 \<le> m \<and> m \<le> 12 \<and> 1 \<le> d \<and> t = month_start (march_month m) + d - 1
    \<and> (\<forall>y. (t = 365 \<longrightarrow> is_leap y) \<longrightarrow> d \<le> days_in_month y m)"
proof -
  consider "t < 31" | "31 \<le> t" "t < 61" | "61 \<le> t" "t < 92" | "92 \<le> t" "t < 122" | "122 \<le> t" "t < 153"
    | "153 \<le> t" "t < 184" | "184 \<le> t" "t < 214" | "214 \<le> t" "t < 245" | "245 \<le> t" "t < 275"
    | "275 \<le> t" "t < 306" | "306 \<le> t" "t < 337" | "337 \<le> t" by linarith
  then show ?thesis
  proof cases
    case 1 then show ?thesis using assms by (intro exI [of _ 3] exI [of _ "t + 1"]) (simp add: month_simps)
  next
    case 2 then show ?thesis by (intro exI [of _ 4] exI [of _ "t - 30"]) (simp add: month_simps)
  next
    case 3 then show ?thesis by (intro exI [of _ 5] exI [of _ "t - 60"]) (simp add: month_simps)
  next
    case 4 then show ?thesis by (intro exI [of _ 6] exI [of _ "t - 91"]) (simp add: month_simps)
  next
    case 5 then show ?thesis by (intro exI [of _ 7] exI [of _ "t - 121"]) (simp add: month_simps)
  next
    case 6 then show ?thesis by (intro exI [of _ 8] exI [of _ "t - 152"]) (simp add: month_simps)
  next
    case 7 then show ?thesis by (intro exI [of _ 9] exI [of _ "t - 183"]) (simp add: month_simps)
  next
    case 8 then show ?thesis by (intro exI [of _ 10] exI [of _ "t - 213"]) (simp add: month_simps)
  next
    case 9 then show ?thesis by (intro exI [of _ 11] exI [of _ "t - 244"]) (simp add: month_simps)
  next
    case 10 then show ?thesis by (intro exI [of _ 12] exI [of _ "t - 274"]) (simp add: month_simps)
  next
    case 11 then show ?thesis by (intro exI [of _ 1] exI [of _ "t - 305"]) (simp add: month_simps)
  next
    case 12 then show ?thesis using assms by (intro exI [of _ 2] exI [of _ "t - 336"]) (auto simp: month_simps)
  qed
qed

subsection \<open>Years\<close>

text \<open>
  A March-based year as era, century, cycle of four years and year of the cycle, with the day
  of the year; the last day is there in a leap year only.
\<close>

definition year_parts :: "int \<Rightarrow> int \<Rightarrow> int \<Rightarrow> int \<Rightarrow> bool" where
  "year_parts c q r t \<longleftrightarrow> 0 \<le> c \<and> c \<le> 3 \<and> 0 \<le> q \<and> q \<le> 24 \<and> 0 \<le> r \<and> r \<le> 3 \<and> 0 \<le> t \<and> t \<le> 365
     \<and> (t = 365 \<longrightarrow> r = 3 \<and> (q = 24 \<longrightarrow> c = 3))"

lemma year_start_parts:
  assumes "0 \<le> c" "c \<le> 3" "0 \<le> q" "q \<le> 24" "0 \<le> r" "r \<le> 3" and Y: "Y = 400 * e + 100 * c + 4 * q + r"
  shows "year_start Y = 146097 * e + 36524 * c + 1461 * q + 365 * r"
proof -
  have "Y div 4 = 100 * e + 25 * c + q" by (rule int_div_pos_eq [where r = r]) (use assms in simp_all)
  moreover have "Y div 100 = 4 * e + c" by (rule int_div_pos_eq [where r = "4 * q + r"]) (use assms in simp_all)
  moreover have "Y div 400 = e" by (rule int_div_pos_eq [where r = "100 * c + 4 * q + r"]) (use assms in simp_all)
  ultimately show ?thesis unfolding year_start_def by (simp add: Y)
qed

lemma mod_top: "0 < x \<Longrightarrow> x \<le> k \<Longrightarrow> x mod k = 0 \<longleftrightarrow> x = k" for x k :: int
  using mod_pos_pos_trivial [of x k] by (cases "x = k") simp_all

lemma leap_parts:
  assumes "0 \<le> c" "c \<le> 3" "0 \<le> q" "q \<le> 24" "0 \<le> r" "r \<le> 3" and Y: "Y = 400 * e + 100 * c + 4 * q + r"
  shows "is_leap (Y + 1) \<longleftrightarrow> r = 3 \<and> (q = 24 \<longrightarrow> c = 3)"
proof -
  have m: "(x + k * n) mod k = x mod k" for x k n :: int by (rule mod_mult_self2)
  have "(Y + 1) mod 4 = (r + 1) mod 4" using m [of "r + 1" 4 "100 * e + 25 * c + q"] by (simp add: Y algebra_simps)
  moreover have "(r + 1) mod 4 = 0 \<longleftrightarrow> r + 1 = 4" by (rule mod_top) (use assms in simp_all)
  moreover have "(Y + 1) mod 100 = (4 * q + r + 1) mod 100" using m [of "4 * q + r + 1" 100 "4 * e + c"] by (simp add: Y algebra_simps)
  moreover have "(4 * q + r + 1) mod 100 = 0 \<longleftrightarrow> 4 * q + r + 1 = 100" by (rule mod_top) (use assms in simp_all)
  moreover have "4 * q + r + 1 = 100 \<longleftrightarrow> q = 24 \<and> r = 3"
    using assms(3-6) by (intro iffI conjI) linarith+
  moreover have "(Y + 1) mod 400 = (100 * c + 4 * q + r + 1) mod 400"
    using m [of "100 * c + 4 * q + r + 1" 400 e] by (simp add: Y algebra_simps)
  moreover have "(100 * c + 4 * q + r + 1) mod 400 = 0 \<longleftrightarrow> 100 * c + 4 * q + r + 1 = 400" by (rule mod_top) (use assms in simp_all)
  moreover have "100 * c + 4 * q + r + 1 = 400 \<longleftrightarrow> c = 3 \<and> q = 24 \<and> r = 3"
    using assms(1-6) by (intro iffI conjI) linarith+
  ultimately show ?thesis unfolding is_leap_def by auto
qed

lemma year_of_era:
  assumes "year_parts c q r t" and doe: "doe = 36524 * c + 1461 * q + 365 * r + t"
  shows "0 \<le> doe" and "doe \<le> 146096"
    and "(doe - doe div 1460 + doe div 36524 - doe div 146096) div 365 = 100 * c + 4 * q + r"
proof -
  note bounds = assms(1) [unfolded year_parts_def]
  show "0 \<le> doe" "doe \<le> 146096" using bounds by (auto simp: doe)
  let ?e = "if 1460 \<le> 24 * c + q + 365 * r + t then 1 else 0 :: int"
  have d1: "doe div 1460 = 25 * c + q + ?e"
    by (rule int_div_pos_eq [where r = "24 * c + q + 365 * r + t - 1460 * ?e"]) (use bounds in \<open>auto simp: doe\<close>)
  have d2: "doe div 36524 - doe div 146096 = c"
  proof (cases "doe = 146096")
    case True
    then show ?thesis using bounds by (auto simp: doe)
  next
    case False
    then have "doe div 36524 = c"
      by (intro int_div_pos_eq [where r = "1461 * q + 365 * r + t"]) (use bounds in \<open>auto simp: doe\<close>)
    moreover have "doe div 146096 = 0" using False \<open>0 \<le> doe\<close> \<open>doe \<le> 146096\<close> by simp
    ultimately show ?thesis by simp
  qed
  have "(365 * (100 * c + 4 * q + r) + (t - ?e)) div 365 = 100 * c + 4 * q + r"
    by (rule int_div_pos_eq [where r = "t - ?e"]) (use bounds in auto)
  moreover have "doe - x + y - z = 365 * (100 * c + 4 * q + r) + (t - ?e)" if "x = 25 * c + q + ?e" "y - z = c" for x y z
    using that unfolding doe by (cases "1460 \<le> 24 * c + q + 365 * r + t") simp_all
  from this [OF d1 d2] have "doe - doe div 1460 + doe div 36524 - doe div 146096 = 365 * (100 * c + 4 * q + r) + (t - ?e)" .
  ultimately show "(doe - doe div 1460 + doe div 36524 - doe div 146096) div 365 = 100 * c + 4 * q + r" by simp
qed

lemma era_parts:
  assumes "0 \<le> doe" "doe \<le> 146096"
  shows "\<exists>c q r t. year_parts c q r t \<and> doe = 36524 * c + 1461 * q + 365 * r + t"
proof -
  define c where "c = (if doe < 36524 then 0 else if doe < 73048 then 1 else if doe < 109572 then 2 else 3 :: int)"
  define a where "a = doe - 36524 * c"
  have a: "0 \<le> a" "a \<le> 36524" "a = 36524 \<Longrightarrow> c = 3" "0 \<le> c" "c \<le> 3"
    using assms by (auto simp: a_def c_def split: if_splits)
  define q where "q = a div 1461"
  define b where "b = a mod 1461"
  have qb: "a = 1461 * q + b" "0 \<le> b" "b \<le> 1460" "0 \<le> q" using a(1) by (simp_all add: q_def b_def)
  then have q: "q \<le> 24" using a(2) by linarith
  define r where "r = (if b < 365 then 0 else if b < 730 then 1 else if b < 1095 then 2 else 3 :: int)"
  have "year_parts c q r (b - 365 * r)"
    using a qb q unfolding year_parts_def by (auto simp: r_def split: if_splits)
  moreover have "doe = 36524 * c + 1461 * q + 365 * r + (b - 365 * r)" using qb(1) by (simp add: a_def)
  ultimately show ?thesis by blast
qed

lemma era_year: "\<exists>e c q r. 0 \<le> c \<and> c \<le> 3 \<and> 0 \<le> q \<and> q \<le> 24 \<and> 0 \<le> r \<and> r \<le> 3 \<and> Y = 400 * e + 100 * c + 4 * q + r"
  for Y :: int
proof -
  define x where "x = Y mod 400"
  define w where "w = x mod 100"
  have "0 \<le> x" "x < 400" "0 \<le> w" "w < 100" by (simp_all add: x_def w_def)
  then have "0 \<le> x div 100" "x div 100 \<le> 3" "0 \<le> w div 4" "w div 4 \<le> 24" by linarith+
  moreover have "0 \<le> w mod 4" "w mod 4 \<le> 3" using pos_mod_bound [of 4 w] by simp_all
  moreover have "Y = 400 * (Y div 400) + 100 * (x div 100) + 4 * (w div 4) + w mod 4" by (simp add: x_def w_def)
  ultimately show ?thesis by blast
qed

lemma civil_of_parts:
  assumes parts: "year_parts c q r (month_start (march_month m) + d - 1)" and m: "1 \<le> m" "m \<le> 12" "1 \<le> d" "d \<le> days_in_month y m"
    and z: "z = year_start Y + month_start (march_month m) + d - 1 - 719468" and Y: "Y = 400 * e + 100 * c + 4 * q + r"
  shows "civil_from_days z = (if m \<le> 2 then Y + 1 else Y, m, d)"
proof -
  define t where "t = month_start (march_month m) + d - 1"
  define doe where "doe = 36524 * c + 1461 * q + 365 * r + t"
  have b: "0 \<le> c" "c \<le> 3" "0 \<le> q" "q \<le> 24" "0 \<le> r" "r \<le> 3" "0 \<le> t" using parts by (simp_all add: year_parts_def t_def)
  note doe = year_of_era [OF parts [folded t_def] doe_def]
  have zs: "z + 719468 = 146097 * e + doe"
    using year_start_parts [OF b(1-6) Y] by (simp add: z doe_def t_def)
  have era: "(if 0 \<le> z + 719468 then z + 719468 else z + 719468 - 146096) sdiv 146097 = e"
    unfolding sdiv_eras by (rule int_div_pos_eq [OF zs]) (use doe(1,2) in simp_all)
  define yoe where "yoe = 100 * c + 4 * q + r"
  have yoe: "yoe div 4 = 25 * c + q" "yoe div 100 = c" "0 \<le> yoe"
    using b by (auto simp: yoe_def intro: int_div_pos_eq [where r = r] int_div_pos_eq [where r = "4 * q + r"])
  have pos: "0 \<le> doe - doe div 1460 + doe div 36524 - doe div 146096"
    using doe(3) b pos_imp_zdiv_nonneg_iff [of 365] by (metis yoe(3) yoe_def zero_less_numeral)
  have y: "(doe - doe sdiv 1460 + doe sdiv 36524 - doe sdiv 146096) sdiv 365 = yoe"
    using doe pos by (simp add: sdiv_nonneg yoe_def)
  have doy: "doe - (365 * yoe + yoe sdiv 4 - yoe sdiv 100) = t"
    by (simp add: sdiv_nonneg yoe(3)) (simp add: yoe(1,2), simp add: doe_def yoe_def)
  have mp: "(5 * t + 2) sdiv 153 = march_month m" "(153 * march_month m + 2) sdiv 5 = month_start (march_month m)"
    using month_of_day(1) [OF m t_def] b(7) m by (simp_all add: sdiv_nonneg month_start_def march_month_def)
  have "civil_from_days z = (let mp = march_month m; m' = (if mp < 10 then mp + 3 else mp - 9)
    in (if m' \<le> 2 then yoe + e * 400 + 1 else yoe + e * 400, m', t - month_start mp + 1))"
    unfolding civil_from_days_def Let_def era by (simp add: zs y doy mp)
  moreover have "yoe + e * 400 = Y" by (simp add: Y yoe_def)
  ultimately show ?thesis using m by (simp add: Let_def march_month_def t_def split: if_splits)
qed

lemma civil_days:
  assumes "civil (y, m, d)"
  shows "civil_from_days (days_from_civil y m d) = (y, m, d)"
proof -
  have m: "1 \<le> m" "m \<le> 12" "1 \<le> d" "d \<le> days_in_month y m" using assms by (simp_all add: civil_def)
  obtain e c q r where b: "0 \<le> c" "c \<le> 3" "0 \<le> q" "q \<le> 24" "0 \<le> r" "r \<le> 3"
    and Y: "march_year y m = 400 * e + 100 * c + 4 * q + r" using era_year by blast
  note t = month_of_day [OF m refl]
  have "year_parts c q r (month_start (march_month m) + d - 1)"
    using b t(2-4) leap_parts [OF b Y] by (auto simp: year_parts_def march_year_def)
  from civil_of_parts [OF this m days_closed [OF m(1)] Y] show ?thesis by (simp add: march_year_def)
qed

lemma days_civil:
  "\<exists>y m d. civil_from_days z = (y, m, d) \<and> civil (y, m, d) \<and> days_from_civil y m d = z"
proof -
  define e doe where "e = (z + 719468) div 146097" and "doe = (z + 719468) mod 146097"
  have "0 \<le> doe" "doe \<le> 146096" using pos_mod_bound [of 146097 "z + 719468"] by (simp_all add: doe_def)
  then obtain c q r t where parts: "year_parts c q r t" and doe: "doe = 36524 * c + 1461 * q + 365 * r + t"
    using era_parts by blast
  have b: "0 \<le> c" "c \<le> 3" "0 \<le> q" "q \<le> 24" "0 \<le> r" "r \<le> 3" "0 \<le> t" "t \<le> 365" using parts by (simp_all add: year_parts_def)
  define Y where "Y = 400 * e + 100 * c + 4 * q + r"
  obtain m d where m: "1 \<le> m" "m \<le> 12" "1 \<le> d" and t: "t = month_start (march_month m) + d - 1"
    and dim: "\<forall>y. (t = 365 \<longrightarrow> is_leap y) \<longrightarrow> d \<le> days_in_month y m" using day_of_year [OF b(7,8)] by blast
  define y where "y = (if m \<le> 2 then Y + 1 else Y)"
  have "t = 365 \<Longrightarrow> is_leap (Y + 1)" using leap_parts [OF b(1-6) Y_def] parts by (simp add: year_parts_def)
  moreover have "is_leap 2000" by (simp add: is_leap_def)
  then have "d \<le> days_in_month 2000 m" using dim by blast
  then have "t = 365 \<Longrightarrow> m \<le> 2" using t month_cases [OF m(1,2)] by (auto simp: month_simps)
  ultimately have d: "d \<le> days_in_month y m" using dim by (auto simp: y_def)
  have "z + 719468 = 146097 * e + doe" unfolding e_def doe_def by simp
  then have z: "z = year_start Y + month_start (march_month m) + d - 1 - 719468"
    using year_start_parts [OF b(1-6) Y_def] doe t by simp
  have "civil_from_days z = (y, m, d)"
    using civil_of_parts [OF parts [unfolded t] m d z Y_def] by (simp add: y_def)
  moreover have "days_from_civil y m d = z" using z days_closed [OF m(1)] by (auto simp: y_def march_year_def)
  ultimately show ?thesis using m d by (auto simp: civil_def)
qed

end
