(* ===== verification/Civil_Text.thy ===== *)
theory Civil_Text
  imports Civil_Time
begin

section \<open>Dates and times as text\<close>

text \<open>
  What the formatting functions print and the parsers of \<open>datetime.rs\<close> read: round trips, and
  the sign that a negative time loses.
\<close>

subsection \<open>Printing and reading fields\<close>

lemma parse_digits_pad: "parse_digits (pad_digits w n) = Some n"
proof -
  have zeros: "foldl (\<lambda>a d. a * 10 + d) 0 (replicate k 0) = (0 :: nat)" for k by (induction k) simp_all
  have "\<forall>c \<in> set (pad_digits w n). is_digit c"
    using show_nat_digits by (auto simp: pad_digits_def is_digit_def)
  moreover have "digits_nat (map digit_val (show_nat n)) = n"
    using parse_digits_show [of n] by (simp add: parse_digits_def split: if_splits)
  then have "digits_nat (map digit_val (pad_digits w n)) = n"
    by (simp add: pad_digits_def digits_nat_def digit_val_def zeros)
  ultimately show ?thesis by (simp add: parse_digits_def pad_digits_def)
qed

lemma pad_digits_digit: "c \<in> set (pad_digits w n) \<Longrightarrow> is_digit c"
  using show_nat_digits by (auto simp: pad_digits_def is_digit_def)

lemma pad_digits_nonempty [simp]: "pad_digits w n \<noteq> []"
  by (simp add: pad_digits_def)

lemma pad_digits_Cons: "\<exists>c cs. pad_digits w n = c # cs \<and> is_digit c"
  using pad_digits_digit [of _ w n] by (cases "pad_digits w n") auto

lemma digit_not: "is_digit c \<Longrightarrow> c \<notin> {CHR ''-'', CHR ''+'', CHR '':'', CHR ''.'', CHR '' '', CHR ''T''}"
  by (auto simp: is_digit_def Let_def)

lemma parse_pad:
  "parse_i64 (pad_digits w n) = checked (int n)" "n < 2 ^ 32 \<Longrightarrow> parse_u32 (pad_digits w n) = Some (int n)"
proof -
  obtain c cs where p: "pad_digits w n = c # cs" "is_digit c" using pad_digits_Cons by blast
  then show "parse_i64 (pad_digits w n) = checked (int n)"
    using parse_digits_pad [of w n] digit_not [OF p(2)] by (simp add: parse_i64_def)
  assume "n < 2 ^ 32"
  with p show "parse_u32 (pad_digits w n) = Some (int n)"
    using parse_digits_pad [of w n] digit_not [OF p(2)] by (simp add: parse_u32_def)
qed

lemma checked_small: "\<bar>i\<bar> \<le> 1000000000000000000 \<Longrightarrow> checked i = Some i"
  by (simp add: checked_def in_i64_def abs_le_iff)

lemma dec_digits_length: "n < 10 ^ Suc k \<Longrightarrow> length (dec_digits n) \<le> Suc k"
proof (induction k arbitrary: n)
  case 0
  then show ?case by (subst dec_digits.simps) simp
next
  case (Suc k)
  then have "n div 10 < 10 ^ Suc k" by (simp add: less_mult_imp_div_less)
  with Suc.IH show ?case by (subst dec_digits.simps) simp
qed

lemma pad_digits_length: "n < 10 ^ Suc k \<Longrightarrow> length (pad_digits (Suc k) n) = Suc k"
  using dec_digits_length [of n k] by (simp add: pad_digits_def show_nat_def)

lemma split_once_at: "\<forall>c \<in> set a. \<not> p c \<Longrightarrow> p x \<Longrightarrow> split_once p (a @ x # b) = Some (a, b)"
  by (induction a) auto

lemma split_once_none: "\<forall>c \<in> set a. \<not> p c \<Longrightarrow> split_once p a = None"
  by (induction a) auto

lemma splitn_three:
  assumes "c \<notin> set a" and "c \<notin> set b"
  shows "splitn 3 c (a @ c # b @ c # d) = [a, b, d]"
proof -
  have "split_once (\<lambda>x. x = c) (a @ c # b @ c # d) = Some (a, b @ c # d)" "split_once (\<lambda>x. x = c) (b @ c # d) = Some (b, d)"
    using assms by (auto intro!: split_once_at)
  then show ?thesis by (simp add: numeral_3_eq_3)
qed

lemma trim_ends:
  assumes "s = c # cs" and "\<not> is_space c" and "\<not> is_space (last s)"
  shows "str_trim s = s"
proof -
  have "dropWhile is_space s = s" using assms(1,2) by simp
  moreover obtain ys y where "s = ys @ [y]" using assms(1) by (metis list.discI rev_exhaust)
  then have "dropWhile is_space (rev s) = rev s" using assms(3) by simp
  ultimately show ?thesis by (simp add: str_trim_def)
qed

lemma trim_pad: "str_trim (pad_digits w n @ x @ pad_digits v k) = pad_digits w n @ x @ pad_digits v k"
proof -
  obtain c cs where p: "pad_digits w n = c # cs" "is_digit c" using pad_digits_Cons by blast
  have "last (pad_digits w n @ x @ pad_digits v k) = last (pad_digits v k)" by simp
  moreover have "is_digit (last (pad_digits v k))" using pad_digits_digit last_in_set pad_digits_nonempty by blast
  ultimately show ?thesis using p digit_plain by (intro trim_ends [of _ c "cs @ x @ pad_digits v k"]) auto
qed

lemma pad_avoids: "x \<in> {CHR ''-'', CHR ''+'', CHR '':'', CHR ''.'', CHR '' '', CHR ''T''} \<Longrightarrow> x \<notin> set (pad_digits w n)"
  using pad_digits_digit digit_not by blast

subsection \<open>Dates as text\<close>

lemma year_bounds:
  assumes "civil (y, m, d)" and "0 \<le> y" "y \<le> 9999"
  shows "- 800000 \<le> days_from_civil y m d" and "days_from_civil y m d \<le> 3000000"
proof -
  have m: "1 \<le> m" "m \<le> 12" "1 \<le> d" "d \<le> days_in_month y m" using assms(1) by (simp_all add: civil_def)
  define Y where "Y = march_year y m"
  have Y: "- 1 \<le> Y" "Y \<le> 9999" using assms(2,3) by (auto simp: Y_def march_year_def)
  have "Y div 4 \<le> 9999 div 4" "- 1 div 4 \<le> Y div 4" "Y div 100 \<le> 9999 div 100" "- 1 div 100 \<le> Y div 100"
    "Y div 400 \<le> 9999 div 400" "- 1 div 400 \<le> Y div 400" using Y by (intro zdiv_mono1; simp)+
  moreover note month_of_day(2,3) [OF m refl]
  moreover have "365 * Y \<le> 365 * 9999" "365 * (- 1) \<le> 365 * Y" using Y by simp_all
  ultimately show "- 800000 \<le> days_from_civil y m d" "days_from_civil y m d \<le> 3000000"
    unfolding days_closed [OF m(1)] Y_def [symmetric] year_start_def by simp_all
qed

lemma parse_date_ymd:
  assumes "civil (y, m, d)" and "0 \<le> y" "y \<le> 9999"
  shows "parse_date (fmt_pad 4 y @ ''-'' @ fmt_pad 2 m @ ''-'' @ fmt_pad 2 d) = Some (days_from_civil y m d)"
proof -
  have m: "1 \<le> m" "m \<le> 12" "1 \<le> d" "d \<le> days_in_month y m" using assms(1) by (simp_all add: civil_def)
  have d: "d \<le> 31" using m month_cases [OF m(1,2)] by (auto simp: days_in_month_table split: if_splits)
  let ?a = "pad_digits 4 (nat y)" and ?b = "pad_digits 2 (nat m)" and ?c = "pad_digits 2 (nat d)"
  have shape: "fmt_pad 4 y @ ''-'' @ fmt_pad 2 m @ ''-'' @ fmt_pad 2 d = ?a @ (''-'' @ ?b @ ''-'') @ ?c"
    using assms m by (simp add: fmt_pad_def)
  have split: "splitn 3 (CHR ''-'') (str_trim (?a @ (''-'' @ ?b @ ''-'') @ ?c)) = [?a, ?b, ?c]"
    unfolding trim_pad using splitn_three [of "CHR ''-''" ?a ?b ?c] pad_avoids by simp
  have "parse_i64 ?a = Some y" "parse_u32 ?b = Some m" "parse_u32 ?c = Some d"
    using parse_pad(1) [of 4 "nat y"] parse_pad(2) [of "nat m" 2] parse_pad(2) [of "nat d" 2] checked_small [of y] assms m d by simp_all
  then show ?thesis
    unfolding shape parse_date_def split using assms m year_bounds [OF assms] by (simp add: Let_def)
qed

lemma format_ymd_civil:
  assumes "0 \<le> fst (civil_from_days n)" "fst (civil_from_days n) \<le> 9999"
  shows "parse_date (format_ymd n) = Some n" and "- 800000 \<le> n" and "n \<le> 3000000"
    and "\<exists>a b x. format_ymd n = pad_digits 4 a @ x @ pad_digits 2 b \<and> (\<forall>c \<in> set (format_ymd n). c \<noteq> CHR '' '' \<and> c \<noteq> CHR ''T'')"
proof -
  obtain y m d where c: "civil_from_days n = (y, m, d)" "civil (y, m, d)" "days_from_civil y m d = n"
    using days_civil [of n] by blast
  have y: "0 \<le> y" "y \<le> 9999" using assms c(1) by simp_all
  have m: "1 \<le> m" "1 \<le> d" using c(2) by (simp_all add: civil_def)
  show "parse_date (format_ymd n) = Some n"
    using parse_date_ymd [OF c(2) y] c(1,3) by (simp add: format_ymd_def)
  show "- 800000 \<le> n" "n \<le> 3000000" using year_bounds [OF c(2) y] c(3) by simp_all
  have shape: "format_ymd n = pad_digits 4 (nat y) @ (''-'' @ pad_digits 2 (nat m) @ ''-'') @ pad_digits 2 (nat d)"
    using y m c(1) by (simp add: format_ymd_def fmt_pad_def)
  have "\<forall>c \<in> set (format_ymd n). c \<noteq> CHR '' '' \<and> c \<noteq> CHR ''T''"
    unfolding shape using pad_avoids [of "CHR '' ''"] pad_avoids [of "CHR ''T''"] by auto
  with shape show "\<exists>a b x. format_ymd n = pad_digits 4 a @ x @ pad_digits 2 b \<and> (\<forall>c \<in> set (format_ymd n). c \<noteq> CHR '' '' \<and> c \<noteq> CHR ''T'')"
    by blast
qed

subsection \<open>Times as text\<close>

lemma smod_nonneg: "0 \<le> a \<Longrightarrow> 0 < b \<Longrightarrow> a smod b = a mod (b :: int)"
  by (cases "a = 0") (simp_all add: signed_modulo_int_def)

lemma fmt_pad_nonneg: "0 \<le> i \<Longrightarrow> fmt_pad w i = pad_digits w (nat i)"
  by (simp add: fmt_pad_def)

definition hms_text :: "int \<Rightarrow> string" where
  "hms_text secs = pad_digits 2 (nat (secs div 3600)) @ CHR '':'' # pad_digits 2 (nat (secs mod 3600 div 60)) @ CHR '':''
     # pad_digits 2 (nat (secs mod 60))"

definition frac_text :: "int \<Rightarrow> string" where
  "frac_text frac = (if frac = 0 then [] else CHR ''.'' # pad_digits 6 (nat frac))"

lemma format_hms_text:
  assumes "0 \<le> secs" and "0 \<le> frac"
  shows "format_hms secs frac = hms_text secs @ frac_text frac"
proof -
  have "0 \<le> secs div 3600" "0 \<le> secs mod 3600 div 60" "0 \<le> secs mod 60" "0 \<le> secs mod 3600"
    using assms by (simp_all add: pos_imp_zdiv_nonneg_iff)
  then show ?thesis
    using assms by (simp add: format_hms_def hms_text_def frac_text_def Let_def sdiv_nonneg smod_nonneg fmt_pad_nonneg)
qed

lemma parse_fraction_pad: "0 \<le> f \<Longrightarrow> f < 1000000 \<Longrightarrow> parse_fraction (pad_digits 6 (nat f)) = Some f"
  using pad_digits_length [of "nat f" 5] parse_pad(1) [of 6 "nat f"] checked_small [of f]
  by (simp add: parse_fraction_def Let_def nat_less_iff)

lemma hms_dot: "CHR ''.'' \<notin> set (hms_text secs)"
  using pad_avoids [of "CHR ''.''"] by (simp add: hms_text_def)

lemma split_fraction:
  "(case split_once (\<lambda>c. c = CHR ''.'') (hms_text secs @ frac_text frac) of Some (a, b) \<Rightarrow> (a, Some b)
      | None \<Rightarrow> (hms_text secs @ frac_text frac, None))
    = (hms_text secs, if frac = 0 then None else Some (pad_digits 6 (nat frac)))"
proof (cases "frac = 0")
  case True
  then have "split_once (\<lambda>c. c = CHR ''.'') (hms_text secs @ frac_text frac) = None"
    using hms_dot [of secs] by (intro split_once_none) (auto simp: frac_text_def)
  with True show ?thesis by (simp add: frac_text_def)
next
  case False
  have "split_once (\<lambda>c. c = CHR ''.'') (hms_text secs @ frac_text frac) = Some (hms_text secs, pad_digits 6 (nat frac))"
    unfolding frac_text_def using False hms_dot [of secs] by (simp, intro split_once_at) auto
  with False show ?thesis by simp
qed

lemma hms_bounds:
  assumes "0 \<le> secs"
  shows "0 \<le> secs div 3600" and "secs div 3600 \<le> secs" and "0 \<le> secs mod 3600 div 60" and "secs mod 3600 div 60 \<le> 59"
    and "0 \<le> secs mod 60" and "secs mod 60 \<le> (59 :: int)"
proof -
  have "x div 60 \<le> 59" if "x < 3600" for x :: int using that by simp
  then show "secs mod 3600 div 60 \<le> 59" by simp
  show "secs div 3600 \<le> secs" using assms by linarith
  show "secs mod 60 \<le> 59" using pos_mod_bound [of 60 secs] by simp
qed (use assms in \<open>simp_all add: pos_imp_zdiv_nonneg_iff\<close>)

lemma hms_fields:
  assumes "0 \<le> secs" and "secs \<le> 1000000000"
  defines "fs \<equiv> splitn 3 (CHR '':'') (hms_text secs)"
  shows "length fs = 3" and "parse_i64 (fs ! 0) = Some (secs div 3600)"
    and "parse_i64 (fs ! 1) = Some (secs mod 3600 div 60)" and "parse_i64 (fs ! 2) = Some (secs mod 60)"
proof -
  have fs: "fs = [pad_digits 2 (nat (secs div 3600)), pad_digits 2 (nat (secs mod 3600 div 60)), pad_digits 2 (nat (secs mod 60))]"
    unfolding fs_def hms_text_def by (intro splitn_three pad_avoids) simp_all
  have p: "parse_i64 (pad_digits 2 (nat x)) = Some x" if "0 \<le> x" "x \<le> 1000000000" for x
    using that by (simp add: parse_pad checked_small)
  note b = hms_bounds [OF assms(1)]
  have le: "x \<le> 59 \<Longrightarrow> x \<le> 1000000000" for x :: int by simp
  show "length fs = 3" by (simp add: fs)
  show "parse_i64 (fs ! 0) = Some (secs div 3600)" unfolding fs nth_Cons_0 by (rule p [OF b(1) order_trans [OF b(2) assms(2)]])
  have nths: "[x, y, z] ! 1 = y" "[x, y, z] ! 2 = z" for x y z :: string by simp_all
  show "parse_i64 (fs ! 1) = Some (secs mod 3600 div 60)" unfolding fs nths by (rule p [OF b(3) le [OF b(4)]])
  show "parse_i64 (fs ! 2) = Some (secs mod 60)" unfolding fs nths by (rule p [OF b(5) le [OF b(6)]])
qed

lemma hms_sum: "secs div 3600 * 3600 + secs mod 3600 div 60 * 60 + secs mod 60 = secs" for secs :: int
proof -
  have "secs mod 3600 div 60 * 60 + secs mod 3600 mod 60 = secs mod 3600" by simp
  moreover have "secs mod 3600 mod 60 = secs mod 60" by (rule mod_mod_cancel) simp
  moreover have "secs div 3600 * 3600 + secs mod 3600 = secs" by simp
  ultimately show ?thesis by linarith
qed

lemma checked_ops:
  "\<bar>a * b\<bar> \<le> 1000000000000000000 \<Longrightarrow> checked_mul a b = Some (a * b)"
  "\<bar>a + b\<bar> \<le> 1000000000000000000 \<Longrightarrow> checked_add a b = Some (a + b)"
  by (simp_all add: checked_mul_def checked_add_def checked_small)

lemma trim_hms:
  "\<exists>x v k. hms_text secs @ frac_text frac = pad_digits 2 (nat (secs div 3600)) @ x @ pad_digits v k"
proof (cases "frac = 0")
  case True
  then show ?thesis
    by (intro exI [of _ "CHR '':'' # pad_digits 2 (nat (secs mod 3600 div 60)) @ '':''"] exI) (simp add: hms_text_def frac_text_def)
next
  case False
  then show ?thesis
    by (intro exI [of _ "CHR '':'' # pad_digits 2 (nat (secs mod 3600 div 60)) @ CHR '':'' # pad_digits 2 (nat (secs mod 60)) @ ''.''"] exI)
      (simp add: hms_text_def frac_text_def)
qed

lemma time_roundtrip:
  assumes "0 \<le> micros" and "micros < 839 * 3600 * 1000000"
  shows "parse_time (format_time micros) = Some micros"
proof -
  define secs frac where "secs = micros div 1000000" and "frac = micros mod 1000000"
  have b: "0 \<le> secs" "0 \<le> frac" "frac < 1000000" "micros = secs * 1000000 + frac"
    using assms by (simp_all add: secs_def frac_def pos_imp_zdiv_nonneg_iff)
  have secs: "secs < 839 * 3600" using assms(2) b(2,4) by simp
  define h mi se where "h = secs div 3600" and "mi = secs mod 3600 div 60" and "se = secs mod 60"
  note bs = hms_bounds [OF b(1), folded h_def mi_def se_def] and sum = hms_sum [of secs, folded h_def mi_def se_def]
  have f: "0 \<le> h" "h \<le> 838" "0 \<le> mi" "mi \<le> 59" "0 \<le> se" "se \<le> 59" "h * 3600 + mi * 60 + se = secs"
    using bs sum secs by linarith+
  have shape: "format_time micros = hms_text secs @ frac_text frac"
    using format_hms_text [OF b(1,2)] by (simp add: format_time_def secs_def frac_def)
  have trim: "str_trim (hms_text secs @ frac_text frac) = hms_text secs @ frac_text frac"
    using trim_hms [of secs frac] trim_pad by auto
  note fields = hms_fields [OF b(1), folded h_def mi_def se_def]
  have ops: "checked_mul h 3600 = Some (h * 3600)" "checked_mul mi 60 = Some (mi * 60)"
    "checked_add (h * 3600) (mi * 60) = Some (h * 3600 + mi * 60)" "checked_add (h * 3600 + mi * 60) se = Some secs"
    "checked_mul secs 1000000 = Some (secs * 1000000)" "checked_add (secs * 1000000) frac = Some micros"
    using f b secs by (simp_all add: checked_ops)
  show ?thesis
    unfolding parse_time_def shape trim Let_def split_fraction
    using fields secs f b ops parse_fraction_pad [OF b(2,3)]
    by (simp add: field_or_zero_def)
qed

lemma datetime_roundtrip:
  assumes "0 \<le> fst (civil_from_days (micros div 1000000 div 86400))" and "fst (civil_from_days (micros div 1000000 div 86400)) \<le> 9999"
  shows "parse_datetime (format_datetime micros) = Some micros"
proof -
  define frac where "frac = micros mod 1000000"
  define days tod where "days = micros div 1000000 div 86400" and "tod = micros div 1000000 mod 86400"
  have b: "0 \<le> frac" "frac < 1000000" "0 \<le> tod" "tod < 86400" by (simp_all add: frac_def tod_def)
  have sum: "micros = (days * 86400 + tod) * 1000000 + frac" by (simp add: days_def tod_def frac_def)
  note ymd = format_ymd_civil [OF assms, folded days_def]
  define h mi se where "h = tod div 3600" and "mi = tod mod 3600 div 60" and "se = tod mod 60"
  note bs = hms_bounds [OF b(3), folded h_def mi_def se_def] and split_tod = hms_sum [of tod, folded h_def mi_def se_def]
  have f: "0 \<le> h" "h \<le> 23" "0 \<le> mi" "mi \<le> 59" "0 \<le> se" "se \<le> 59" "h * 3600 + mi * 60 + se = tod"
    using bs split_tod b(4) by linarith+
  have shape: "format_datetime micros = format_ymd days @ CHR '' '' # hms_text tod @ frac_text frac"
    unfolding format_datetime_def Let_def days_def [symmetric] tod_def [symmetric] frac_def [symmetric] format_hms_text [OF b(3,1)] by simp
  obtain w n x v k where ends: "format_ymd days @ CHR '' '' # hms_text tod @ frac_text frac = pad_digits w n @ x @ pad_digits v k"
    using ymd(4) trim_hms [of tod frac] by (metis append.assoc append_Cons)
  then have trim: "str_trim (format_ymd days @ CHR '' '' # hms_text tod @ frac_text frac) = format_ymd days @ CHR '' '' # hms_text tod @ frac_text frac"
    using trim_pad by simp
  have split: "split_once (\<lambda>c. c = CHR '' '' \<or> c = CHR ''T'') (format_ymd days @ CHR '' '' # hms_text tod @ frac_text frac)
      = Some (format_ymd days, hms_text tod @ frac_text frac)"
    using ymd(4) by (intro split_once_at) auto
  note fields = hms_fields [OF b(3), folded h_def mi_def se_def]
  have days: "\<bar>days * 86400\<bar> \<le> 300000000000" using ymd(2,3) by simp
  have ops: "checked_mul days 86400 = Some (days * 86400)" "checked_mul (days * 86400) 1000000 = Some (days * 86400 * 1000000)"
    "checked_mul h 3600 = Some (h * 3600)" "checked_mul mi 60 = Some (mi * 60)"
    "checked_add (h * 3600) (mi * 60) = Some (h * 3600 + mi * 60)" "checked_add (h * 3600 + mi * 60) se = Some tod"
    "checked_mul tod 1000000 = Some (tod * 1000000)"
    "checked_add (days * 86400 * 1000000) (tod * 1000000) = Some (days * 86400 * 1000000 + tod * 1000000)"
    "checked_add (days * 86400 * 1000000 + tod * 1000000) frac = Some micros"
    using f b days sum by (simp_all add: checked_ops abs_le_iff)
  show ?thesis
    unfolding parse_datetime_def shape trim Let_def split option.case prod.case split_fraction
    using ymd(1) fields f b ops sum parse_fraction_pad [OF b(1,2)]
    by (simp add: field_or_zero_def)
qed

subsection \<open>Properties\<close>





text \<open>
  C31. Text round trips. A date, a timestamp in the years 0 to 9999 and a time of day that is
  not negative are read back as they were printed; and what \<open>parse_date\<close> accepts is a date of
  the calendar in those years.
\<close>

theorem date_text_roundtrip:
  "(0 \<le> fst (civil_from_days n) \<and> fst (civil_from_days n) \<le> 9999 \<longrightarrow> parse_date (format_date n) = Some n)
    \<and> (0 \<le> fst (civil_from_days (t div 1000000 div 86400)) \<and> fst (civil_from_days (t div 1000000 div 86400)) \<le> 9999
        \<longrightarrow> parse_datetime (format_datetime t) = Some t)
    \<and> (0 \<le> u \<and> u < 839 * 3600 * 1000000 \<longrightarrow> parse_time (format_time u) = Some u)
    \<and> (parse_date s = Some k \<longrightarrow> (\<exists>y m d. civil (y, m, d) \<and> 0 \<le> y \<and> y \<le> 9999 \<and> k = days_from_civil y m d))"
proof (intro conjI impI)
  assume "parse_date s = Some k"
  then show "\<exists>y m d. civil (y, m, d) \<and> 0 \<le> y \<and> y \<le> 9999 \<and> k = days_from_civil y m d"
    by (auto simp: parse_date_def civil_def Let_def not_less split: list.splits option.splits if_splits)
qed (use format_ymd_civil(1) [of n] datetime_roundtrip [of t] time_roundtrip [of u] in \<open>simp_all add: format_date_def\<close>)

theorem date_text_roundtrip_witness:
  "parse_date ''2024-02-29'' = Some 19782 \<and> format_date 19782 = ''2024-02-29''
    \<and> parse_time ''13:45:30.000250'' = Some 49530000250"
proof -
  have n: "0 \<le> fst (civil_from_days 19782) \<and> fst (civil_from_days 19782) \<le> 9999" "format_date 19782 = ''2024-02-29''"
    "format_time 49530000250 = ''13:45:30.000250''"
    by code_simp+
  have "(0 :: int) \<le> 49530000250 \<and> 49530000250 < (839 * 3600 * 1000000 :: int)" by simp
  with n date_text_roundtrip [of 19782 0 49530000250 "[]" 0] show ?thesis by simp
qed



end
