(* ===== verification/Coll_Fold.thy ===== *)
theory Coll_Fold
  imports Elyra_Prelude
begin

section \<open>Text under the default collation\<close>

text \<open>
  \<open>crates/elyra-core/src/collfold.rs\<close> and the folding functions of \<open>value.rs\<close>. Text is the
  list of its code points, \<open>utf8\<close> its bytes; comparing two strings in Rust compares the bytes.
  Lower-casing of characters outside the table is that of the standard library's Unicode
  tables, an argument of the functions.
\<close>

datatype Ordering = Less | Equal | Greater

definition cmp :: "'a :: linorder \<Rightarrow> 'a \<Rightarrow> Ordering" where
  "cmp a b = (if a < b then Less else if a = b then Equal else Greater)"

fun reverse :: "Ordering \<Rightarrow> Ordering" where
  "reverse Less = Greater"
| "reverse Equal = Equal"
| "reverse Greater = Less"

type_synonym chars = "nat list"

definition utf8_char :: "nat \<Rightarrow> bytes" where
  "utf8_char c =
     (if c < 0x80 then [of_nat c]
      else if c < 0x800 then [of_nat (0xC0 + c div 64), of_nat (0x80 + c mod 64)]
      else if c < 0x10000 then [of_nat (0xE0 + c div 4096), of_nat (0x80 + c div 64 mod 64), of_nat (0x80 + c mod 64)]
      else [of_nat (0xF0 + c div 262144), of_nat (0x80 + c div 4096 mod 64), of_nat (0x80 + c div 64 mod 64), of_nat (0x80 + c mod 64)])"

definition utf8 :: "chars \<Rightarrow> bytes" where
  "utf8 s = concat (map utf8_char s)"

subsection \<open>The table\<close>

definition FOLD :: "(nat \<times> string) list" where
  "FOLD = [
    (0x00C0, ''a''), (0x00C1, ''a''), (0x00C2, ''a''), (0x00C3, ''a''), (0x00C4, ''a''), (0x00C5, ''a''),
    (0x00C6, ''ae''), (0x00C7, ''c''), (0x00C8, ''e''), (0x00C9, ''e''), (0x00CA, ''e''), (0x00CB, ''e''),
    (0x00CC, ''i''), (0x00CD, ''i''), (0x00CE, ''i''), (0x00CF, ''i''), (0x00D0, ''d''), (0x00D1, ''n''),
    (0x00D2, ''o''), (0x00D3, ''o''), (0x00D4, ''o''), (0x00D5, ''o''), (0x00D6, ''o''), (0x00D8, ''o''),
    (0x00D9, ''u''), (0x00DA, ''u''), (0x00DB, ''u''), (0x00DC, ''u''), (0x00DD, ''y''), (0x00DF, ''ss''),
    (0x00E0, ''a''), (0x00E1, ''a''), (0x00E2, ''a''), (0x00E3, ''a''), (0x00E4, ''a''), (0x00E5, ''a''),
    (0x00E6, ''ae''), (0x00E7, ''c''), (0x00E8, ''e''), (0x00E9, ''e''), (0x00EA, ''e''), (0x00EB, ''e''),
    (0x00EC, ''i''), (0x00ED, ''i''), (0x00EE, ''i''), (0x00EF, ''i''), (0x00F0, ''d''), (0x00F1, ''n''),
    (0x00F2, ''o''), (0x00F3, ''o''), (0x00F4, ''o''), (0x00F5, ''o''), (0x00F6, ''o''), (0x00F8, ''o''),
    (0x00F9, ''u''), (0x00FA, ''u''), (0x00FB, ''u''), (0x00FC, ''u''), (0x00FD, ''y''), (0x00FF, ''y''),
    (0x0100, ''a''), (0x0101, ''a''), (0x0102, ''a''), (0x0103, ''a''), (0x0104, ''a''), (0x0105, ''a''),
    (0x0106, ''c''), (0x0107, ''c''), (0x0108, ''c''), (0x0109, ''c''), (0x010A, ''c''), (0x010B, ''c''),
    (0x010C, ''c''), (0x010D, ''c''), (0x010E, ''d''), (0x010F, ''d''), (0x0110, ''d''), (0x0111, ''d''),
    (0x0112, ''e''), (0x0113, ''e''), (0x0114, ''e''), (0x0115, ''e''), (0x0116, ''e''), (0x0117, ''e''),
    (0x0118, ''e''), (0x0119, ''e''), (0x011A, ''e''), (0x011B, ''e''), (0x011C, ''g''), (0x011D, ''g''),
    (0x011E, ''g''), (0x011F, ''g''), (0x0120, ''g''), (0x0121, ''g''), (0x0122, ''g''), (0x0123, ''g''),
    (0x0124, ''h''), (0x0125, ''h''), (0x0126, ''h''), (0x0127, ''h''), (0x0128, ''i''), (0x0129, ''i''),
    (0x012A, ''i''), (0x012B, ''i''), (0x012C, ''i''), (0x012D, ''i''), (0x012E, ''i''), (0x012F, ''i''),
    (0x0130, ''i''), (0x0132, ''ij''), (0x0133, ''ij''), (0x0134, ''j''), (0x0135, ''j''), (0x0136, ''k''),
    (0x0137, ''k''), (0x0139, ''l''), (0x013A, ''l''), (0x013B, ''l''), (0x013C, ''l''), (0x013D, ''l''),
    (0x013E, ''l''), (0x013F, ''l''), (0x0140, ''l''), (0x0141, ''l''), (0x0142, ''l''), (0x0143, ''n''),
    (0x0144, ''n''), (0x0145, ''n''), (0x0146, ''n''), (0x0147, ''n''), (0x0148, ''n''), (0x014C, ''o''),
    (0x014D, ''o''), (0x014E, ''o''), (0x014F, ''o''), (0x0150, ''o''), (0x0151, ''o''), (0x0152, ''oe''),
    (0x0153, ''oe''), (0x0154, ''r''), (0x0155, ''r''), (0x0156, ''r''), (0x0157, ''r''), (0x0158, ''r''),
    (0x0159, ''r''), (0x015A, ''s''), (0x015B, ''s''), (0x015C, ''s''), (0x015D, ''s''), (0x015E, ''s''),
    (0x015F, ''s''), (0x0160, ''s''), (0x0161, ''s''), (0x0162, ''t''), (0x0163, ''t''), (0x0164, ''t''),
    (0x0165, ''t''), (0x0168, ''u''), (0x0169, ''u''), (0x016A, ''u''), (0x016B, ''u''), (0x016C, ''u''),
    (0x016D, ''u''), (0x016E, ''u''), (0x016F, ''u''), (0x0170, ''u''), (0x0171, ''u''), (0x0172, ''u''),
    (0x0173, ''u''), (0x0174, ''w''), (0x0175, ''w''), (0x0176, ''y''), (0x0177, ''y''), (0x0178, ''y''),
    (0x0179, ''z''), (0x017A, ''z''), (0x017B, ''z''), (0x017C, ''z''), (0x017D, ''z''), (0x017E, ''z''),
    (0x017F, ''s''), (0x018D, ''zw''), (0x01A0, ''o''), (0x01A1, ''o''), (0x01AF, ''u''), (0x01B0, ''u''),
    (0x01BE, ''ts''), (0x01C4, ''dz''), (0x01C5, ''dz''), (0x01C6, ''dz''), (0x01C7, ''lj''),
    (0x01C8, ''lj''), (0x01C9, ''lj''), (0x01CA, ''nj''), (0x01CB, ''nj''), (0x01CC, ''nj''), (0x01CD, ''a''),
    (0x01CE, ''a''), (0x01CF, ''i''), (0x01D0, ''i''), (0x01D1, ''o''), (0x01D2, ''o''), (0x01D3, ''u''),
    (0x01D4, ''u''), (0x01D5, ''u''), (0x01D6, ''u''), (0x01D7, ''u''), (0x01D8, ''u''), (0x01D9, ''u''),
    (0x01DA, ''u''), (0x01DB, ''u''), (0x01DC, ''u''), (0x01DE, ''a''), (0x01DF, ''a''), (0x01E0, ''a''),
    (0x01E1, ''a''), (0x01E2, ''ae''), (0x01E3, ''ae''), (0x01E6, ''g''), (0x01E7, ''g''), (0x01E8, ''k''),
    (0x01E9, ''k''), (0x01EA, ''o''), (0x01EB, ''o''), (0x01EC, ''o''), (0x01ED, ''o''), (0x01F0, ''j''),
    (0x01F1, ''dz''), (0x01F2, ''dz''), (0x01F3, ''dz''), (0x01F4, ''g''), (0x01F5, ''g''), (0x01F8, ''n''),
    (0x01F9, ''n''), (0x01FA, ''a''), (0x01FB, ''a''), (0x01FC, ''ae''), (0x01FD, ''ae''), (0x01FE, ''o''),
    (0x01FF, ''o''), (0x0200, ''a''), (0x0201, ''a''), (0x0202, ''a''), (0x0203, ''a''), (0x0204, ''e''),
    (0x0205, ''e''), (0x0206, ''e''), (0x0207, ''e''), (0x0208, ''i''), (0x0209, ''i''), (0x020A, ''i''),
    (0x020B, ''i''), (0x020C, ''o''), (0x020D, ''o''), (0x020E, ''o''), (0x020F, ''o''), (0x0210, ''r''),
    (0x0211, ''r''), (0x0212, ''r''), (0x0213, ''r''), (0x0214, ''u''), (0x0215, ''u''), (0x0216, ''u''),
    (0x0217, ''u''), (0x0218, ''s''), (0x0219, ''s''), (0x021A, ''t''), (0x021B, ''t''), (0x021E, ''h''),
    (0x021F, ''h''), (0x0226, ''a''), (0x0227, ''a''), (0x0228, ''e''), (0x0229, ''e''), (0x022A, ''o''),
    (0x022B, ''o''), (0x022C, ''o''), (0x022D, ''o''), (0x022E, ''o''), (0x022F, ''o''), (0x0230, ''o''),
    (0x0231, ''o''), (0x0232, ''y''), (0x0233, ''y''), (0x0238, ''db''), (0x0239, ''qp'')
  ]"

text \<open>The standard library's binary search: the position of a key in a sorted sequence.\<close>

function binary_search :: "('k :: linorder \<times> 'v) list \<Rightarrow> 'k \<Rightarrow> nat \<Rightarrow> nat \<Rightarrow> nat option" where
  "binary_search t k lo hi =
     (if lo < hi then
        let mid = lo + (hi - lo) div 2; x = fst (t ! mid)
        in if x = k then Some mid
           else if x < k then binary_search t k (mid + 1) hi
           else binary_search t k lo mid
      else None)"
  by pat_completeness auto
termination by (relation "measure (\<lambda>(_, _, lo, hi). hi - lo)") auto

declare binary_search.simps [simp del]

definition fold_char :: "nat \<Rightarrow> string option" where
  "fold_char cp =
     (if \<not> (0xC0 \<le> cp \<and> cp < 0x250) then None
      else map_option (\<lambda>i. snd (FOLD ! i)) (binary_search FOLD cp 0 (length FOLD)))"

subsection \<open>Folding\<close>

definition is_ascii :: "chars \<Rightarrow> bool" where
  "is_ascii s \<longleftrightarrow> (\<forall>c \<in> set s. c < 128)"

definition ascii_lower :: "nat \<Rightarrow> nat" where
  "ascii_lower c = (if 65 \<le> c \<and> c \<le> 90 then c + 32 else c)"

definition fold_str :: "(nat \<Rightarrow> chars) \<Rightarrow> chars \<Rightarrow> chars" where
  "fold_str lower s =
     (if is_ascii s then map ascii_lower s
      else concat (map (\<lambda>c. if c < 128 then [ascii_lower c]
             else case fold_char c of Some f \<Rightarrow> map of_char f | None \<Rightarrow> lower c) s))"

definition fold_like_char :: "(nat \<Rightarrow> chars) \<Rightarrow> nat \<Rightarrow> nat" where
  "fold_like_char lower c =
     (if c < 128 then ascii_lower c
      else case (case fold_char c of Some [x] \<Rightarrow> Some (of_char x) | _ \<Rightarrow> None) of
             Some x \<Rightarrow> x
           | None \<Rightarrow> (case lower c of [x] \<Rightarrow> x | _ \<Rightarrow> c))"

fun ascii_fold_cmp :: "chars \<Rightarrow> chars \<Rightarrow> Ordering" where
  "ascii_fold_cmp (a # as) (b # bs) =
     (let x = ascii_lower a; y = ascii_lower b in if x \<noteq> y then cmp x y else ascii_fold_cmp as bs)"
| "ascii_fold_cmp [] bs = cmp (length ([] :: chars)) (length bs)"
| "ascii_fold_cmp (a # as) [] = cmp (length (a # as)) (length ([] :: chars))"

definition fold_cmp :: "(nat \<Rightarrow> chars) \<Rightarrow> chars \<Rightarrow> chars \<Rightarrow> Ordering" where
  "fold_cmp lower a b =
     (if is_ascii a \<and> is_ascii b then ascii_fold_cmp a b
      else cmp (utf8 (fold_str lower a)) (utf8 (fold_str lower b)))"

subsection \<open>Laws\<close>

lemma cmp_simps [simp]: "cmp a a = Equal" "cmp a b = Equal \<longleftrightarrow> a = b" "cmp a b = Less \<longleftrightarrow> a < b" "cmp a b = Greater \<longleftrightarrow> b < a"
  by (auto simp: cmp_def)

lemma reverse_cmp [simp]: "reverse (cmp a b) = cmp b a"
  by (auto simp: cmp_def)

lemma cmp_Cons: "cmp (x # xs) (y # ys) = (if x = y then cmp xs ys else cmp x y)"
  by (auto simp: cmp_def)

lemma ascii_lower_ascii: "c < 128 \<Longrightarrow> ascii_lower c < 128"
  by (simp add: ascii_lower_def)

lemma of_nat_byte_less: "a < 256 \<Longrightarrow> b < 256 \<Longrightarrow> (of_nat a :: u8) < of_nat b \<longleftrightarrow> a < b"
  by (simp add: word_less_nat_alt unat_of_nat)

lemma of_nat_byte_eq: "a < 256 \<Longrightarrow> b < 256 \<Longrightarrow> (of_nat a :: u8) = of_nat b \<longleftrightarrow> a = b"
  by (metis of_nat_byte_less linorder_neq_iff)

lemma ascii_fold_cmp_utf8:
  "is_ascii a \<Longrightarrow> is_ascii b \<Longrightarrow> ascii_fold_cmp a b = cmp (utf8 (map ascii_lower a)) (utf8 (map ascii_lower b))"
proof (induction a b rule: ascii_fold_cmp.induct)
  case (1 a as b bs)
  let ?x = "ascii_lower a" and ?y = "ascii_lower b"
  have xy: "?x < 128" "?y < 128" using 1(2,3) by (simp_all add: is_ascii_def ascii_lower_ascii)
  then have "utf8 (map ascii_lower (a # as)) = of_nat ?x # utf8 (map ascii_lower as)"
    "utf8 (map ascii_lower (b # bs)) = of_nat ?y # utf8 (map ascii_lower bs)"
    by (simp_all add: utf8_def utf8_char_def)
  moreover have "cmp (of_nat ?x :: u8) (of_nat ?y) = cmp ?x ?y" "(of_nat ?x :: u8) = of_nat ?y \<longleftrightarrow> ?x = ?y"
    using xy by (simp_all add: cmp_def of_nat_byte_less of_nat_byte_eq)
  ultimately show ?case using 1 by (simp add: cmp_Cons Let_def is_ascii_def)
next
  case (2 bs)
  then show ?case by (cases bs) (auto simp: cmp_def utf8_def utf8_char_def is_ascii_def ascii_lower_ascii)
next
  case (3 a as)
  then show ?case by (auto simp: cmp_def utf8_def utf8_char_def is_ascii_def ascii_lower_ascii)
qed

lemma binary_search_sound: "binary_search t k lo hi = Some i \<Longrightarrow> lo \<le> i \<and> i < hi \<and> fst (t ! i) = k"
proof (induction t k lo hi rule: binary_search.induct)
  case step: (1 t k lo hi)
  define mid where "mid = lo + (hi - lo) div 2"
  have run: "lo < hi" using step.prems by (subst (asm) binary_search.simps) (simp split: if_splits)
  then have mid: "lo \<le> mid" "mid < hi" by (auto simp: mid_def)
  have "(if fst (t ! mid) = k then Some mid
      else if fst (t ! mid) < k then binary_search t k (mid + 1) hi else binary_search t k lo mid) = Some i"
    using step.prems run by (subst (asm) binary_search.simps) (simp only: mid_def Let_def if_True simp_thms)
  then show ?case
    using step.IH(1) [OF run mid_def refl] step.IH(2) [OF run mid_def refl] mid by (auto split: if_splits)
qed

lemma binary_search_complete:
  assumes "bt_sorted t" and "hi \<le> length t" and "lo \<le> i" "i < hi" and "fst (t ! i) = k"
  shows "binary_search t k lo hi = Some i"
  using assms
proof (induction t k lo hi rule: binary_search.induct)
  case step: (1 t k lo hi)
  define mid where "mid = lo + (hi - lo) div 2"
  have mid: "lo \<le> mid" "mid < hi" using step.prems(3,4) by (auto simp: mid_def)
  have sorted: "fst (t ! a) < fst (t ! b)" if "a < b" "b < hi" for a b
    using step.prems(1,2) that sorted_wrt_nth_less [of "(<)" "map fst t" a b] by simp
  have body: "binary_search t k lo hi = (if fst (t ! mid) = k then Some mid
      else if fst (t ! mid) < k then binary_search t k (mid + 1) hi else binary_search t k lo mid)"
    using mid by (subst binary_search.simps) (simp add: mid_def Let_def)
  consider (at) "i = mid" | (right) "mid < i" | (left) "i < mid" by linarith
  then show ?case
  proof cases
    case at
    then show ?thesis using step.prems(5) body by simp
  next
    case right
    then have "fst (t ! mid) < k" using sorted [of mid i] step.prems(4,5) by simp
    moreover from this have "binary_search t k (mid + 1) hi = Some i"
      using step.IH(1) [of mid "fst (t ! mid)"] step.prems mid right by (simp add: mid_def)
    ultimately show ?thesis using body by auto
  next
    case left
    then have "k < fst (t ! mid)" using sorted [of i mid] mid step.prems(5) by simp
    moreover from this have "binary_search t k lo mid = Some i"
      using step.IH(2) [of mid "fst (t ! mid)"] step.prems mid left by (simp add: mid_def)
    ultimately show ?thesis using body by auto
  qed
qed

lemma binary_search_map_of:
  assumes "bt_sorted t"
  shows "map_option (\<lambda>i. snd (t ! i)) (binary_search t k 0 (length t)) = map_of t k"
proof (cases "binary_search t k 0 (length t)")
  case None
  have "k \<notin> fst ` set t"
  proof
    assume "k \<in> fst ` set t"
    then obtain i where "i < length t" "fst (t ! i) = k" by (auto simp: in_set_conv_nth)
    then show False using binary_search_complete [OF assms, of "length t" 0 i k] None by simp
  qed
  then show ?thesis using None map_of_eq_None_iff [of t k] by simp
next
  case (Some i)
  then have i: "i < length t" "fst (t ! i) = k" using binary_search_sound by fastforce+
  then have "(k, snd (t ! i)) \<in> set t" by (metis nth_mem prod.collapse)
  then show ?thesis using Some sorted_wrt_map_fst_distinct [OF assms] by simp
qed

lemma FOLD_sorted: "bt_sorted FOLD"
  by (simp add: FOLD_def sorted_wrt1 sorted_wrt2 del: sorted_wrt.simps(2))

lemma FOLD_range: "list_all (\<lambda>(c, f). 0xC0 \<le> c \<and> c < 0x250) FOLD"
  by (simp add: FOLD_def)

lemma fold_char_map_of: "fold_char cp = map_of FOLD cp"
proof (cases "0xC0 \<le> cp \<and> cp < 0x250")
  case True
  then show ?thesis using binary_search_map_of [OF FOLD_sorted] by (simp add: fold_char_def)
next
  case False
  then have "cp \<notin> fst ` set FOLD" using FOLD_range by (fastforce simp: list_all_iff)
  then have "map_of FOLD cp = None" by (simp add: map_of_eq_None_iff)
  then show ?thesis using False by (simp add: fold_char_def)
qed

lemma fold_ascii:
  assumes "is_ascii s"
  shows "fold_str lower s = map ascii_lower s"
  using assms by (simp add: fold_str_def)

lemma fold_cmp_fold: "fold_cmp lower a b = cmp (utf8 (fold_str lower a)) (utf8 (fold_str lower b))"
  by (simp add: fold_cmp_def ascii_fold_cmp_utf8 fold_ascii)

text \<open>
  C33. The folding of a character is the one the table gives it, wherever the binary search
  and the range test in front of it look; and \<open>fold_cmp\<close>, with its path for ASCII text that
  allocates nothing, orders two strings as the bytes of their foldings, so that ordering,
  equality and every key made from \<open>fold\<close> agree.
\<close>

theorem fold_order:
  "fold_char c = map_of FOLD c \<and> fold_cmp lower a b = cmp (utf8 (fold_str lower a)) (utf8 (fold_str lower b))"
  by (simp add: fold_char_map_of fold_cmp_fold)

end
