(* ===== verification/Sql_Decimal.thy ===== *)
theory Sql_Decimal
  imports Civil_Text Coll_Fold
begin

section \<open>Decimals\<close>

text \<open>
  The \<open>DECIMAL\<close> functions of \<open>crates/elyra-core/src/value.rs\<close>: an unscaled \<open>i128\<close> and the
  number of digits after the point. \<open>i128\<close> values are integers, with the range check, the
  saturation or the failure where the code has it; text is ASCII.
\<close>

subsection \<open>\<open>i128\<close>\<close>

abbreviation i128_MAX :: int where
  "i128_MAX \<equiv> 170141183460469231731687303715884105727"

abbreviation i128_MIN :: int where
  "i128_MIN \<equiv> - 170141183460469231731687303715884105728"

definition in_i128 :: "int \<Rightarrow> bool" where
  "in_i128 i \<longleftrightarrow> i128_MIN \<le> i \<and> i \<le> i128_MAX"

definition checked128 :: "int \<Rightarrow> int option" where
  "checked128 i = (if in_i128 i then Some i else None)"

definition saturate :: "int \<Rightarrow> int" where
  "saturate i = (if i < i128_MIN then i128_MIN else if i > i128_MAX then i128_MAX else i)"

definition checked_div :: "int \<Rightarrow> int \<Rightarrow> int option" where
  "checked_div a b = (if b = 0 \<or> (a = i128_MIN \<and> b = -1) then None else Some (a sdiv b))"

definition checked_rem :: "int \<Rightarrow> int \<Rightarrow> int option" where
  "checked_rem a b = (if b = 0 \<or> (a = i128_MIN \<and> b = -1) then None else Some (a smod b))"

text \<open>\<open>parse::<i128>\<close>.\<close>

definition parse_i128 :: "string \<Rightarrow> int option" where
  "parse_i128 s =
     (case s of
        c # cs \<Rightarrow>
          (if c = CHR ''-'' then (case parse_digits cs of Some n \<Rightarrow> checked128 (- int n) | None \<Rightarrow> None)
           else case parse_digits (if c = CHR ''+'' then cs else s) of Some n \<Rightarrow> checked128 (int n) | None \<Rightarrow> None)
      | [] \<Rightarrow> None)"

subsection \<open>Operations\<close>

definition cmp_decimal :: "int \<Rightarrow> nat \<Rightarrow> int \<Rightarrow> nat \<Rightarrow> Ordering" where
  "cmp_decimal au asc bu bsc =
     (let s = max asc bsc;
          a = saturate (au * saturate (10 ^ (s - asc)));
          b = saturate (bu * saturate (10 ^ (s - bsc)))
      in cmp a b)"

definition format_decimal :: "int \<Rightarrow> nat \<Rightarrow> string" where
  "format_decimal units scale =
     (if scale = 0 then (if units < 0 then ''-'' else []) @ show_nat (nat \<bar>units\<bar>)
      else
        let neg = units < 0;
            digits = show_nat (nat \<bar>units\<bar>);
            s = (if length digits \<le> scale
                 then ''0.'' @ replicate (scale - length digits) (CHR ''0'') @ digits
                 else let point = length digits - scale in take point digits @ ''.'' @ drop point digits)
        in if neg then ''-'' @ s else s)"

definition parse_decimal :: "string \<Rightarrow> nat \<Rightarrow> (int \<times> nat) option" where
  "parse_decimal s target_scale =
     (let s = str_trim s;
          (neg, s) = (case s of
              c # rest \<Rightarrow> if c = CHR ''-'' then (True, rest) else (False, if c = CHR ''+'' then rest else s)
            | [] \<Rightarrow> (False, s));
          (int_part, frac_part) = (case split_once (\<lambda>c. c = CHR ''.'') s of Some (a, b) \<Rightarrow> (a, b) | None \<Rightarrow> (s, []))
      in if \<not> list_all is_digit int_part \<or> \<not> list_all is_digit frac_part then None
         else
           let ts = target_scale;
               round_up = ts < length frac_part \<and> 5 \<le> digit_val (frac_part ! ts);
               frac = (if length frac_part \<ge> ts then take ts frac_part
                       else frac_part @ replicate (ts - length frac_part) (CHR ''0''))
           in case parse_i128 (int_part @ frac) of
                None \<Rightarrow> None
              | Some v \<Rightarrow>
                  (case (if round_up then checked128 (v + 1) else Some v) of
                     None \<Rightarrow> None
                   | Some v \<Rightarrow> Some (if neg then - v else v, target_scale)))"

definition div_round_half_away :: "int \<Rightarrow> int \<Rightarrow> int option" where
  "div_round_half_away numerator divisor =
     (case (checked_div numerator divisor, checked_rem numerator divisor) of
        (Some quo, Some remainder) \<Rightarrow>
          (if remainder = 0 then Some quo
           else
             case checked128 \<bar>remainder\<bar> of
               None \<Rightarrow> None
             | Some r \<Rightarrow>
                 (case (case checked128 (r * 2) of
                          Some twice \<Rightarrow> map_option (\<lambda>d. twice \<ge> d) (checked128 \<bar>divisor\<bar>)
                        | None \<Rightarrow> Some True) of
                    None \<Rightarrow> None
                  | Some rounds_away \<Rightarrow>
                      (if \<not> rounds_away then Some quo
                       else
                         let step = (if (numerator < 0) = (divisor < 0) then 1 else -1)
                         in checked128 (quo + step))))
      | _ \<Rightarrow> None)"

definition rescale_decimal :: "int \<Rightarrow> nat \<Rightarrow> nat \<Rightarrow> int option" where
  "rescale_decimal units from_scale to_scale =
     (if from_scale \<le> to_scale then
        (case checked128 (10 ^ (to_scale - from_scale)) of
           Some factor \<Rightarrow> checked128 (units * factor)
         | None \<Rightarrow> None)
      else
        case checked128 (10 ^ (from_scale - to_scale)) of
          None \<Rightarrow> None
        | Some divisor \<Rightarrow>
            (let quo = units sdiv divisor; remainder = units smod divisor
             in if \<bar>remainder\<bar> \<ge> divisor sdiv 2 then checked128 (quo + (if units < 0 then -1 else 1))
                else Some quo))"

subsection \<open>Printing and reading\<close>

lemma format_decimal_pad:
  "format_decimal u (Suc s) =
     (let d = pad_digits (Suc (Suc s)) (nat \<bar>u\<bar>); point = length d - Suc s
      in (if u < 0 then ''-'' else []) @ take point d @ ''.'' @ drop point d)"
proof -
  define D where "D = show_nat (nat \<bar>u\<bar>)"
  have pad: "pad_digits (Suc (Suc s)) (nat \<bar>u\<bar>) = replicate (Suc (Suc s) - length D) (CHR ''0'') @ D"
    by (simp add: pad_digits_def D_def)
  show ?thesis
    unfolding pad format_decimal_def D_def [symmetric]
    by (cases "length D \<le> Suc s") (auto simp: Let_def Suc_diff_le)
qed

lemma show_nat_pad: "show_nat n = pad_digits 1 n"
  by (cases "show_nat n") (simp_all add: pad_digits_def)

lemma parse_i128_pad: "int n \<le> i128_MAX \<Longrightarrow> parse_i128 (pad_digits w n) = Some (int n)"
proof -
  assume n: "int n \<le> i128_MAX"
  obtain c cs where p: "pad_digits w n = c # cs" "is_digit c" using pad_digits_Cons by blast
  have "in_i128 (int n)" using n by (simp add: in_i128_def)
  then show ?thesis using p parse_digits_pad [of w n] digit_not [OF p(2)]
    by (simp add: parse_i128_def checked128_def)
qed

lemma parse_decimal_read:
  assumes "a \<noteq> []" and "list_all is_digit a" and "list_all is_digit b" and "length b = s"
    and "body = (if s = 0 then a else a @ ''.'' @ b)" and "parse_i128 (a @ b) = Some v"
  shows "parse_decimal ((if neg then ''-'' else []) @ body) s = Some (if neg then - v else v, s)"
proof -
  have dot: "\<forall>c \<in> set x. c \<noteq> CHR ''.''" if "list_all is_digit x" for x
    using that digit_not by (auto simp: list_all_iff)
  have split: "(case split_once (\<lambda>c. c = CHR ''.'') body of Some (x, y) \<Rightarrow> (x, y) | None \<Rightarrow> (body, [])) = (a, b)"
    using assms(4,5) split_once_at [of a "\<lambda>c. c = CHR ''.''" "CHR ''.''" b] split_once_none [of a "\<lambda>c. c = CHR ''.''"]
      dot [OF assms(2)] by (auto split: if_splits)
  obtain c cs where a: "a = c # cs" "is_digit c" using assms(1,2) by (cases a) auto
  then obtain ds where body: "body = c # ds" using assms(5) by (auto split: if_splits)
  have "\<forall>x \<in> set body. \<not> is_space x"
    using assms(2,3,5) digit_plain by (auto simp: list_all_iff is_space_def split: if_splits)
  then have trim: "str_trim ((if neg then ''-'' else []) @ body) = (if neg then ''-'' else []) @ body"
    by (intro str_trim_plain) (auto simp: is_space_def)
  have sign: "(case (if neg then ''-'' else []) @ body of
      c # rest \<Rightarrow> if c = CHR ''-'' then (True, rest) else (False, if c = CHR ''+'' then rest else (if neg then ''-'' else []) @ body)
    | [] \<Rightarrow> (False, (if neg then ''-'' else []) @ body)) = (neg, body)"
    using digit_not [OF a(2)] body by (cases neg) auto
  show ?thesis
    unfolding parse_decimal_def trim Let_def sign prod.case split using assms(2,3,4,6) by simp
qed

lemma pad_digits_all: "list_all is_digit (pad_digits w n)"
  using pad_digits_digit by (auto simp: list_all_iff)

lemma format_parse_decimal:
  assumes "i128_MIN < u" and "u \<le> i128_MAX"
  shows "parse_decimal (format_decimal u s) s = Some (u, s)"
proof -
  let ?n = "nat \<bar>u\<bar>"
  have n: "int ?n \<le> i128_MAX" using assms by simp
  have u: "(if u < 0 then - int ?n else int ?n) = u" by simp
  show ?thesis
  proof (cases s)
    case 0
    have "parse_decimal ((if u < 0 then ''-'' else []) @ pad_digits 1 ?n) 0 = Some (if u < 0 then - int ?n else int ?n, 0)"
      using parse_i128_pad [OF n, of 1]
      by (intro parse_decimal_read [where b = "[]"]) (simp_all only: append_Nil2 pad_digits_all pad_digits_nonempty, simp_all)
    then show ?thesis using 0 by (simp only: u format_decimal_def show_nat_pad [of ?n] if_True simp_thms)
  next
    case (Suc k)
    define d where "d = pad_digits (Suc s) ?n"
    define point where "point = length d - s"
    have len: "Suc s \<le> length d" by (simp add: d_def pad_digits_def)
    have "list_all is_digit d" using pad_digits_all by (simp add: d_def)
    then have digits: "list_all is_digit (take point d)" "list_all is_digit (drop point d)"
      by (auto simp: list_all_iff dest: in_set_takeD in_set_dropD)
    have "parse_decimal ((if u < 0 then ''-'' else []) @ take point d @ ''.'' @ drop point d) s
        = Some (if u < 0 then - int ?n else int ?n, s)"
    proof (rule parse_decimal_read [OF _ digits])
      show "take point d \<noteq> []" using len by (auto simp: point_def)
      show "length (drop point d) = s" using len by (simp add: point_def)
      show "parse_i128 (take point d @ drop point d) = Some (int ?n)" using parse_i128_pad [OF n] by (simp add: d_def)
    qed (simp add: Suc)
    then show ?thesis using Suc by (simp only: u format_decimal_pad Let_def d_def point_def)
  qed
qed

text \<open>
  C34. A decimal is read back as printed: what \<open>format_decimal\<close> makes of an unscaled value and
  a scale is parsed at that scale into the same pair, for every value but the smallest
  \<open>i128\<close>, whose digits do not fit a positive \<open>i128\<close>.
\<close>

theorem decimal_text_roundtrip:
  assumes "in_i128 u" and "u \<noteq> i128_MIN"
  shows "parse_decimal (format_decimal u s) s = Some (u, s)"
  using assms by (intro format_parse_decimal) (simp_all add: in_i128_def)

theorem decimal_text_roundtrip_witness:
  "in_i128 (- 105) \<and> - 105 \<noteq> i128_MIN \<and> format_decimal (- 105) 2 = ''-1.05''
     \<and> parse_decimal ''-1.05'' 2 = Some (- 105, 2)"
proof -
  have f: "format_decimal (- 105) 2 = ''-1.05''" by code_simp
  have r: "in_i128 (- 105)" by (simp add: in_i128_def)
  show ?thesis using decimal_text_roundtrip [OF r, of 2] f r by simp
qed

subsection \<open>Rounding\<close>

text \<open>The sign of a quotient, and division by magnitudes.\<close>

definition qsign :: "int \<Rightarrow> int \<Rightarrow> int" where
  "qsign n d = (if (n < 0) = (d < 0) then 1 else -1)"

lemma sdiv_magnitude: "n sdiv d = qsign n d * (\<bar>n\<bar> div \<bar>d\<bar>)" "\<bar>n smod d\<bar> = \<bar>n\<bar> mod \<bar>d\<bar>" if "d \<noteq> 0"
  using that by (auto simp: signed_divide_int_def signed_modulo_int_def qsign_def sgn_if abs_mult)

lemma qsign_distance:
  assumes "d \<noteq> 0"
  shows "\<bar>n - qsign n d * k * d\<bar> = \<bar>\<bar>n\<bar> - k * \<bar>d\<bar>\<bar>"
  using assms by (auto simp: qsign_def abs_if algebra_simps)

lemma half_bound:
  assumes "0 \<le> (a :: int)" "a \<le> m" "0 < b" "a mod b \<noteq> 0"
  shows "2 * (a div b) \<le> m"
proof -
  have "b \<noteq> 1" using assms(4) by auto
  then have "2 * (a div b) \<le> b * (a div b)"
    using assms(1,3) by (intro mult_right_mono) (simp_all add: pos_imp_zdiv_nonneg_iff)
  also have "\<dots> \<le> a" using mult_div_mod_eq [of b a] pos_mod_sign [OF assms(3), of a] by linarith
  finally show ?thesis using assms(2) by simp
qed

lemma div_round_parts:
  assumes "in_i128 n" and "in_i128 d" and "d \<noteq> 0" and "\<not> (n = i128_MIN \<and> d = -1)"
  shows "div_round_half_away n d =
    (let q = \<bar>n\<bar> div \<bar>d\<bar>; r = \<bar>n\<bar> mod \<bar>d\<bar>
     in if r = 0 then Some (qsign n d * q)
        else if \<bar>d\<bar> \<le> 2 * r then Some (qsign n d * (q + 1))
        else if d = i128_MIN then None
        else Some (qsign n d * q))"
proof -
  define q r where "q = \<bar>n\<bar> div \<bar>d\<bar>" and "r = \<bar>n\<bar> mod \<bar>d\<bar>"
  define Q r' where "Q = n sdiv d" and "r' = n smod d"
  have Q: "Q = qsign n d * q" "\<bar>r'\<bar> = r" using sdiv_magnitude [OF assms(3), of n] by (simp_all only: q_def r_def Q_def r'_def)
  have d: "0 < \<bar>d\<bar>" "\<bar>d\<bar> \<le> 1 + i128_MAX" "checked128 \<bar>d\<bar> = (if d = i128_MIN then None else Some \<bar>d\<bar>)"
    using assms(2,3) by (auto simp: in_i128_def checked128_def)
  have r: "0 \<le> r" "r < \<bar>d\<bar>" using d(1) by (simp_all add: r_def)
  have small: "checked128 r = Some r" using r d(2) by (simp add: checked128_def in_i128_def)
  have n: "0 \<le> q" "\<bar>n\<bar> \<le> 1 + i128_MAX" using assms(1) d(1) by (auto simp: q_def in_i128_def pos_imp_zdiv_nonneg_iff)
  have step: "checked128 (Q + qsign n d) = Some (qsign n d * (q + 1))" if "r \<noteq> 0"
    using half_bound [of "\<bar>n\<bar>" "1 + i128_MAX" "\<bar>d\<bar>"] that n d(1) unfolding r_def [symmetric] q_def [symmetric] Q
    by (auto simp: checked128_def in_i128_def qsign_def)
  have ok: "\<not> (d = 0 \<or> (n = i128_MIN \<and> d = -1))" using assms(3,4) by simp
  have zero: "(r' = 0) = (r = 0)" using Q(2) by auto
  have "div_round_half_away n d = (if r' = 0 then Some Q else
      case (case checked128 (r * 2) of Some twice \<Rightarrow> map_option (\<lambda>d. twice \<ge> d) (checked128 \<bar>d\<bar>) | None \<Rightarrow> Some True) of
        None \<Rightarrow> None
      | Some away \<Rightarrow> if \<not> away then Some Q else checked128 (Q + qsign n d))"
    unfolding div_round_half_away_def checked_div_def checked_rem_def if_not_P [OF ok] prod.case option.case
      Q_def [symmetric] r'_def [symmetric] Q(2) small qsign_def Let_def by (rule refl)
  also have "\<dots> = (if r = 0 then Some Q else if \<bar>d\<bar> \<le> 2 * r then Some (qsign n d * (q + 1))
        else if d = i128_MIN then None else Some Q)"
    using step d r unfolding zero by (auto simp: checked128_def in_i128_def)
  finally show ?thesis unfolding Q(1) by (simp only: Let_def q_def r_def)
qed

lemma round_nearest:
  assumes "0 < \<bar>d\<bar>" and "k = (if \<bar>d\<bar> \<le> 2 * (\<bar>n\<bar> mod \<bar>d\<bar>) then \<bar>n\<bar> div \<bar>d\<bar> + 1 else \<bar>n\<bar> div \<bar>d\<bar>)"
  shows "2 * \<bar>n - qsign n d * k * d\<bar> \<le> \<bar>d\<bar>"
    and "2 * \<bar>n - qsign n d * k * d\<bar> = \<bar>d\<bar> \<Longrightarrow> \<bar>n\<bar> < \<bar>qsign n d * k * d\<bar>"
proof -
  define q r where "q = \<bar>n\<bar> div \<bar>d\<bar>" and "r = \<bar>n\<bar> mod \<bar>d\<bar>"
  have n: "\<bar>n\<bar> = q * \<bar>d\<bar> + r" "0 \<le> r" "r < \<bar>d\<bar>" "0 \<le> q"
    using assms(1) by (simp_all add: q_def r_def pos_imp_zdiv_nonneg_iff)
  have k: "k = (if \<bar>d\<bar> \<le> 2 * r then q + 1 else q)" using assms(2) by (simp add: q_def r_def)
  have e: "\<bar>\<bar>n\<bar> - k * \<bar>d\<bar>\<bar> = (if \<bar>d\<bar> \<le> 2 * r then \<bar>d\<bar> - r else r)"
    using n unfolding k by (auto simp: algebra_simps)
  have dist: "\<bar>n - qsign n d * k * d\<bar> = \<bar>\<bar>n\<bar> - k * \<bar>d\<bar>\<bar>" using assms(1) by (intro qsign_distance) simp
  show "2 * \<bar>n - qsign n d * k * d\<bar> \<le> \<bar>d\<bar>" unfolding dist e by auto
  have "\<bar>qsign n d * k * d\<bar> = k * \<bar>d\<bar>" using n(4) k by (auto simp: qsign_def abs_mult)
  then show "\<bar>n\<bar> < \<bar>qsign n d * k * d\<bar>" if "2 * \<bar>n - qsign n d * k * d\<bar> = \<bar>d\<bar>"
    using that [unfolded dist e] n k by (auto simp: algebra_simps split: if_splits)
qed

lemma sdiv_in_i128:
  assumes "in_i128 n" and "\<not> (n = i128_MIN \<and> d = -1)"
  shows "in_i128 (n sdiv d)"
proof (cases "n = i128_MIN")
  case True
  then have "n sdiv d \<noteq> - n" using assms(2) int_sdiv_negated_is_minus1 [of n d] by simp
  then show ?thesis using sdiv_int_range [of n d] True by (simp add: in_i128_def)
next
  case False
  then show ?thesis using sdiv_int_range [of n d] assms(1) by (auto simp: in_i128_def)
qed

lemma div_round_range:
  assumes "in_i128 n" and "div_round_half_away n d = Some q"
  shows "d \<noteq> 0 \<and> \<not> (n = i128_MIN \<and> d = -1) \<and> in_i128 q"
proof -
  have ok: "\<not> (d = 0 \<or> (n = i128_MIN \<and> d = -1))"
    using assms(2) by (auto simp: div_round_half_away_def checked_div_def)
  have "in_i128 (n sdiv d)" using sdiv_in_i128 [OF assms(1)] ok by blast
  then show ?thesis
    using assms(2) ok unfolding div_round_half_away_def checked_div_def checked_rem_def if_not_P [OF ok]
    by (auto simp: checked128_def Let_def split: if_splits option.splits)
qed

lemma div_round_nearest:
  assumes "in_i128 n" and "in_i128 d" and "div_round_half_away n d = Some q"
  shows "2 * \<bar>n - q * d\<bar> \<le> \<bar>d\<bar> \<and> (2 * \<bar>n - q * d\<bar> = \<bar>d\<bar> \<longrightarrow> \<bar>n\<bar> < \<bar>q * d\<bar>)"
proof -
  have ok: "d \<noteq> 0" "\<not> (n = i128_MIN \<and> d = -1)" using div_round_range [OF assms(1,3)] by auto
  define k where "k = (if \<bar>d\<bar> \<le> 2 * (\<bar>n\<bar> mod \<bar>d\<bar>) then \<bar>n\<bar> div \<bar>d\<bar> + 1 else \<bar>n\<bar> div \<bar>d\<bar>)"
  have "q = qsign n d * k"
    using assms(3) ok(1) unfolding div_round_parts [OF assms(1,2) ok] Let_def k_def by (auto split: if_splits)
  then show ?thesis using round_nearest [OF _ k_def] ok(1) by auto
qed

lemma div_round_none:
  assumes "in_i128 n" and "in_i128 d" and "div_round_half_away n d = None"
  shows "d = 0 \<or> (n = i128_MIN \<and> d = -1) \<or> (d = i128_MIN \<and> n \<noteq> 0 \<and> 2 * \<bar>n\<bar> < \<bar>d\<bar>)"
proof (rule ccontr)
  assume no: "\<not> ?thesis"
  then have ok: "d \<noteq> 0" "\<not> (n = i128_MIN \<and> d = -1)" by auto
  then have d: "d = i128_MIN" "\<bar>n\<bar> mod \<bar>d\<bar> \<noteq> 0" "\<not> \<bar>d\<bar> \<le> 2 * (\<bar>n\<bar> mod \<bar>d\<bar>)"
    using assms(3) unfolding div_round_parts [OF assms(1,2) ok] Let_def by (auto split: if_splits)
  have "\<bar>n\<bar> mod \<bar>d\<bar> = \<bar>n\<bar>" if "\<bar>n\<bar> < \<bar>d\<bar>" using that by simp
  moreover have "\<bar>n\<bar> \<le> \<bar>d\<bar>" using assms(1) d(1) by (auto simp: in_i128_def)
  moreover have "\<bar>n\<bar> \<noteq> \<bar>d\<bar>" using d(2) by auto
  ultimately show False using no d by auto
qed

lemma pow10_i128: "k \<le> 38 \<Longrightarrow> checked128 (10 ^ k) = Some (10 ^ k)"
proof -
  assume "k \<le> 38"
  then have "(10 :: int) ^ k \<le> 10 ^ 38" by (intro power_increasing) simp_all
  moreover have "i128_MIN \<le> 10 ^ k" by (rule order_trans [of _ 0]) simp_all
  ultimately show ?thesis by (simp add: checked128_def in_i128_def)
qed

lemma rescale_down:
  assumes "in_i128 n" and "t < f" and "f - t \<le> 38"
  shows "rescale_decimal n f t = div_round_half_away n (10 ^ (f - t))"
proof -
  define D where "D = (10 :: int) ^ (f - t)"
  obtain j where "f - t = Suc j" using assms(2) by (cases "f - t") simp_all
  then obtain H where H: "D = 2 * H" "0 < H" by (auto simp: D_def intro: that [of "5 * 10 ^ j"])
  have D: "checked128 D = Some D" using pow10_i128 [OF assms(3)] by (simp add: D_def)
  then have in_D: "in_i128 D" by (simp add: checked128_def split: if_splits)
  have D0: "D \<noteq> 0" "\<not> (n = i128_MIN \<and> D = -1)" "D \<noteq> i128_MIN" "\<bar>D\<bar> = D" "D sdiv 2 = H" using H by (simp_all add: sdiv_nonneg)
  define q r where "q = \<bar>n\<bar> div D" and "r = \<bar>n\<bar> mod D"
  have parts: "n sdiv D = qsign n D * q" "\<bar>n smod D\<bar> = r"
    using sdiv_magnitude [OF D0(1), of n] by (simp_all add: q_def r_def D0(4))
  have sign: "(if n < 0 then - 1 else 1) = qsign n D" using H by (simp add: qsign_def)
  have q: "0 \<le> q" "r \<noteq> 0 \<Longrightarrow> 2 * q \<le> 1 + i128_MAX" "0 \<le> r"
    using half_bound [of "\<bar>n\<bar>" "1 + i128_MAX" D] assms(1) H by (auto simp: q_def r_def in_i128_def pos_imp_zdiv_nonneg_iff)
  have step: "checked128 (qsign n D * q + qsign n D) = Some (qsign n D * (q + 1))" if "r \<noteq> 0"
    using q that by (auto simp: checked128_def in_i128_def qsign_def)
  have "rescale_decimal n f t = (if r \<ge> H then checked128 (qsign n D * q + qsign n D) else Some (qsign n D * q))"
    unfolding rescale_decimal_def D_def [symmetric] D option.case Let_def parts sign D0(5) using assms(2) by simp
  moreover have "div_round_half_away n D = (if r = 0 then Some (qsign n D * q)
      else if D \<le> 2 * r then Some (qsign n D * (q + 1)) else Some (qsign n D * q))"
    unfolding div_round_parts [OF assms(1) in_D D0(1,2)] Let_def D0(4) q_def r_def using D0(3) by simp
  ultimately show ?thesis using step H by (auto simp: D_def)
qed

text \<open>
  C35. Division of decimals rounds to the nearest integer, ties away from zero: the result of
  \<open>div_round_half_away\<close> is within half a divisor of the exact quotient, a tie has the larger
  magnitude, and there is no result only for a zero divisor, for an unrepresentable quotient
  and for the smallest \<open>i128\<close> as divisor of a smaller number. Dropping up to 38 digits of the
  scale rounds in the same way, and adding them is exact or fails.
\<close>

theorem decimal_rounding:
  assumes "in_i128 n" and "in_i128 d"
  shows "(case div_round_half_away n d of
       Some q \<Rightarrow> d \<noteq> 0 \<and> in_i128 q \<and> 2 * \<bar>n - q * d\<bar> \<le> \<bar>d\<bar> \<and> (2 * \<bar>n - q * d\<bar> = \<bar>d\<bar> \<longrightarrow> \<bar>n\<bar> < \<bar>q * d\<bar>)
     | None \<Rightarrow> d = 0 \<or> (n = i128_MIN \<and> d = -1) \<or> (d = i128_MIN \<and> n \<noteq> 0 \<and> 2 * \<bar>n\<bar> < \<bar>d\<bar>))
   \<and> (t < f \<and> f - t \<le> 38 \<longrightarrow> rescale_decimal n f t = div_round_half_away n (10 ^ (f - t)))
   \<and> (f \<le> t \<and> t - f \<le> 38 \<longrightarrow> rescale_decimal n f t = checked128 (n * 10 ^ (t - f)))"
proof (intro conjI impI)
  show "case div_round_half_away n d of
       Some q \<Rightarrow> d \<noteq> 0 \<and> in_i128 q \<and> 2 * \<bar>n - q * d\<bar> \<le> \<bar>d\<bar> \<and> (2 * \<bar>n - q * d\<bar> = \<bar>d\<bar> \<longrightarrow> \<bar>n\<bar> < \<bar>q * d\<bar>)
     | None \<Rightarrow> d = 0 \<or> (n = i128_MIN \<and> d = -1) \<or> (d = i128_MIN \<and> n \<noteq> 0 \<and> 2 * \<bar>n\<bar> < \<bar>d\<bar>)"
    using div_round_range [OF assms(1)] div_round_nearest [OF assms] div_round_none [OF assms]
    by (cases "div_round_half_away n d") simp_all
  show "rescale_decimal n f t = div_round_half_away n (10 ^ (f - t))" if "t < f \<and> f - t \<le> 38"
    using that assms(1) by (simp add: rescale_down)
  show "rescale_decimal n f t = checked128 (n * 10 ^ (t - f))" if "f \<le> t \<and> t - f \<le> 38"
    using that by (simp add: rescale_decimal_def pow10_i128)
qed

theorem decimal_rounding_witness:
  "in_i128 (- 8875) \<and> in_i128 10 \<and> div_round_half_away (- 8875) 10 = Some (- 888) \<and> rescale_decimal (- 8875) 3 2 = Some (- 888)
     \<and> 2 * \<bar>- 8875 - (- 888) * (10 :: int)\<bar> \<le> 10"
proof -
  have r: "in_i128 (- 8875)" "in_i128 10" by (simp_all add: in_i128_def)
  have d: "div_round_half_away (- 8875) 10 = Some (- 888)" by code_simp
  show ?thesis using decimal_rounding [OF r, of 2 3] r by (simp add: d)
qed

subsection \<open>Comparison\<close>

lemma saturate_in [simp]: "in_i128 i \<Longrightarrow> saturate i = i"
  by (simp add: saturate_def in_i128_def)

lemma saturated_side:
  assumes "\<bar>u\<bar> < i128_MAX" and "\<bar>v\<bar> < i128_MAX"
  shows "cmp (saturate (u * saturate (10 ^ k))) v = cmp (u * 10 ^ k) v"
proof (cases "k \<le> 38")
  case True
  then have "saturate (10 ^ k) = 10 ^ k" using pow10_i128 [OF True] by (simp add: checked128_def split: if_splits)
  then show ?thesis using assms(2) by (auto simp: saturate_def cmp_def)
next
  case False
  then have "(10 :: int) ^ 39 \<le> 10 ^ k" by (intro power_increasing) simp_all
  then have big: "i128_MAX < (10 :: int) ^ k" by simp
  then have sat: "saturate (10 ^ k) = i128_MAX" by (simp add: saturate_def)
  define W where "W = u * 10 ^ k"
  define S where "S = u * i128_MAX"
  consider "u = 0" | "u \<ge> 1" | "u \<le> -1" by linarith
  then show ?thesis
  proof cases
    case 1
    then show ?thesis by (simp add: saturate_def)
  next
    case 2
    then have "1 * 10 ^ k \<le> W" "1 * i128_MAX \<le> S" unfolding W_def S_def by (intro mult_right_mono; simp)+
    then have "i128_MAX < W" "i128_MAX \<le> S" using big by simp_all
    then show ?thesis using assms(2) unfolding sat W_def [symmetric] S_def [symmetric] by (auto simp: saturate_def cmp_def)
  next
    case 3
    then have "W \<le> - 1 * 10 ^ k" "S \<le> - 1 * i128_MAX" unfolding W_def S_def by (intro mult_right_mono; simp)+
    then have "W < - i128_MAX" "S \<le> - i128_MAX" using big by simp_all
    then show ?thesis using assms(2) unfolding sat W_def [symmetric] S_def [symmetric] by (auto simp: saturate_def cmp_def)
  qed
qed

lemma cmp_scale: "0 < (c :: int) \<Longrightarrow> cmp (a * c) (b * c) = cmp a b"
  by (simp add: cmp_def)

lemma cmp_decimal_value:
  assumes "\<bar>u\<bar> < i128_MAX" and "\<bar>v\<bar> < i128_MAX"
  shows "cmp_decimal u a v b = cmp (u * 10 ^ b) (v * 10 ^ a)"
proof (cases "a \<le> b")
  case True
  have v: "saturate v = v" using assms(2) by (intro saturate_in) (auto simp: in_i128_def)
  have "cmp_decimal u a v b = cmp (u * 10 ^ (b - a)) v"
    using saturated_side [OF assms, of "b - a"] True v by (simp add: cmp_decimal_def Let_def max_def saturate_def [of 1])
  also have "\<dots> = cmp (u * 10 ^ (b - a) * 10 ^ a) (v * 10 ^ a)" by (simp add: cmp_scale)
  finally show ?thesis using True by (simp add: mult.assoc flip: power_add)
next
  case False
  have u: "saturate u = u" using assms(1) by (intro saturate_in) (auto simp: in_i128_def)
  have "cmp_decimal u a v b = cmp u (v * 10 ^ (a - b))"
    using arg_cong [OF saturated_side [OF assms(2,1), of "a - b"], of reverse] False u
    by (simp add: cmp_decimal_def Let_def max_def saturate_def [of 1])
  also have "\<dots> = cmp (u * 10 ^ b) (v * 10 ^ (a - b) * 10 ^ b)" by (simp add: cmp_scale)
  finally show ?thesis using False by (simp add: mult.assoc flip: power_add)
qed

text \<open>
  C36. Comparing decimals of different scales compares the numbers they stand for, whatever
  the scales: saturation when a side is scaled up never changes the answer while both
  unscaled values are below \<open>i128::MAX\<close> in magnitude, as those of 38 digits are. At
  \<open>i128::MAX\<close> it does: with scales 0 and 1 that value compares equal to a tenth of itself.
\<close>

theorem decimal_comparison:
  "(\<bar>u\<bar> < i128_MAX \<and> \<bar>v\<bar> < i128_MAX \<longrightarrow> cmp_decimal u a v b = cmp (u * 10 ^ b) (v * 10 ^ a))
   \<and> cmp_decimal i128_MAX 0 i128_MAX 1 = Equal"
proof
  show "cmp_decimal i128_MAX 0 i128_MAX 1 = Equal" by (simp add: cmp_decimal_def saturate_def Let_def)
qed (simp add: cmp_decimal_value)

theorem decimal_comparison_witness:
  "\<bar>105\<bar> < i128_MAX \<and> \<bar>11\<bar> < i128_MAX \<and> cmp_decimal 105 2 11 1 = Less"
proof -
  have "cmp (105 * 10 ^ 1) (11 * 10 ^ 2 :: int) = Less" by simp
  then show ?thesis using decimal_comparison [of 105 11 2 1] by simp
qed

end
