(* ===== verification/Sql_Value.thy ===== *)
theory Sql_Value
  imports Sql_Decimal
begin

section \<open>SQL values\<close>

text \<open>
  The \<open>Value\<close> enum of \<open>crates/elyra-core/src/value.rs\<close> with its comparisons, total orders and
  grouping keys. Integers are words of their width, floats their bit patterns, text the list of
  its code points. The record \<open>std_env\<close> holds what the functions use of the standard library
  and is not spelled out here: lower-casing, float conversion, division and parsing, and the
  \<open>Debug\<close> text of floats and strings; and the date readers of \<open>datetime.rs\<close> on text that is not
  ASCII, where \<open>Civil_Time\<close> has them on ASCII text.
\<close>

subsection \<open>Values\<close>

datatype Collation = Ci | Bin

datatype Value =
    Null
  | Bool bool
  | IntV i64
  | Float u64
  | Text chars
  | Bytes bytes
  | Vector "u32 list"
  | is_Date: Date i32
  | is_DateTime: DateTime i64
  | is_Decimal: Decimal i128 u8
  | is_Time: Time i64
  | Json chars
  | UInt u64

record std_env =
  to_lowercase :: "nat \<Rightarrow> chars"
  i64_as_f64 :: "i64 \<Rightarrow> u64"
  u64_as_f64 :: "u64 \<Rightarrow> u64"
  i128_as_f64 :: "i128 \<Rightarrow> u64"
  f64_div :: "u64 \<Rightarrow> u64 \<Rightarrow> u64"
  f64_pow10 :: "u8 \<Rightarrow> u64"
  parse_f64 :: "chars \<Rightarrow> u64 option"
  f64_debug :: "u64 \<Rightarrow> string"
  f32_debug :: "u32 \<Rightarrow> string"
  str_debug :: "chars \<Rightarrow> string"
  other_date :: "chars \<Rightarrow> int option"
  other_datetime :: "chars \<Rightarrow> int option"
  other_time :: "chars \<Rightarrow> int option"

subsection \<open>Floats by their bits\<close>

definition f64_magnitude :: "u64 \<Rightarrow> nat" where
  "f64_magnitude b = unat b mod 2 ^ 63"

definition f64_negative :: "u64 \<Rightarrow> bool" where
  "f64_negative b \<longleftrightarrow> 2 ^ 63 \<le> unat b"

definition f64_is_nan :: "u64 \<Rightarrow> bool" where
  "f64_is_nan b \<longleftrightarrow> 0x7FF0000000000000 < f64_magnitude b"

definition f64_rank :: "u64 \<Rightarrow> int" where
  "f64_rank b = (if f64_negative b then - int (f64_magnitude b) else int (f64_magnitude b))"

definition f64_partial_cmp :: "u64 \<Rightarrow> u64 \<Rightarrow> Ordering option" where
  "f64_partial_cmp a b = (if f64_is_nan a \<or> f64_is_nan b then None else Some (cmp (f64_rank a) (f64_rank b)))"

text \<open>\<open>f64::total_cmp\<close>: negative numbers, NaNs included, by falling magnitude below the others.\<close>

definition f64_total_rank :: "u64 \<Rightarrow> int" where
  "f64_total_rank b = (if f64_negative b then - int (f64_magnitude b) - 1 else int (f64_magnitude b))"

definition f64_total_cmp :: "u64 \<Rightarrow> u64 \<Rightarrow> Ordering" where
  "f64_total_cmp a b = cmp (f64_total_rank a) (f64_total_rank b)"

definition canonical_f64_bits :: "u64 \<Rightarrow> u64" where
  "canonical_f64_bits f =
     (if f64_magnitude f = 0 then 0
      else if f64_is_nan f then 0x7FF8000000000000
      else f)"

subsection \<open>Numeric views\<close>

definition is_null :: "Value \<Rightarrow> bool" where
  "is_null v \<longleftrightarrow> v = Null"

definition as_f64 :: "std_env \<Rightarrow> Value \<Rightarrow> u64 option" where
  "as_f64 env v =
     (case v of
        IntV i \<Rightarrow> Some (i64_as_f64 env i)
      | UInt u \<Rightarrow> Some (u64_as_f64 env u)
      | Float f \<Rightarrow> Some f
      | Bool b \<Rightarrow> Some (if b then 0x3FF0000000000000 else 0)
      | Decimal u s \<Rightarrow> Some (f64_div env (i128_as_f64 env u) (f64_pow10 env s))
      | _ \<Rightarrow> None)"

text \<open>\<open>char::is_whitespace\<close>.\<close>

definition is_whitespace :: "nat \<Rightarrow> bool" where
  "is_whitespace c \<longleftrightarrow>
     (9 \<le> c \<and> c \<le> 13) \<or> c \<in> {0x20, 0x85, 0xA0, 0x1680, 0x2028, 0x2029, 0x202F, 0x205F, 0x3000} \<or> (0x2000 \<le> c \<and> c \<le> 0x200A)"

definition ascii_digit :: "nat \<Rightarrow> bool" where
  "ascii_digit c \<longleftrightarrow> 48 \<le> c \<and> c \<le> 57"

definition at :: "chars \<Rightarrow> nat \<Rightarrow> nat option" where
  "at s i = (if i < length s then Some (s ! i) else None)"

definition digits_at :: "chars \<Rightarrow> nat \<Rightarrow> nat" where
  "digits_at s i = length (takeWhile ascii_digit (drop i s))"

definition is_sign :: "nat option \<Rightarrow> bool" where
  "is_sign c \<longleftrightarrow> c = Some 43 \<or> c = Some 45"

definition numeric_prefix_end :: "chars \<Rightarrow> nat option" where
  "numeric_prefix_end s =
     (let e0 = (if is_sign (at s 0) then 1 else 0);
          d1 = digits_at s e0;
          e1 = e0 + d1;
          (e2, digits) = (if at s e1 = Some 46 then let d2 = digits_at s (e1 + 1) in (e1 + 1 + d2, d1 + d2) else (e1, d1))
      in if digits = 0 then None
         else Some (if at s e2 = Some 101 \<or> at s e2 = Some 69 then
                let x = (if is_sign (at s (e2 + 1)) then e2 + 2 else e2 + 1); n = digits_at s x
                in if n = 0 then e2 else x + n
              else e2))"

definition mysql_numeric_prefix :: "std_env \<Rightarrow> chars \<Rightarrow> u64" where
  "mysql_numeric_prefix env v =
     (let s = dropWhile is_whitespace v
      in case numeric_prefix_end s of
           None \<Rightarrow> 0
         | Some e \<Rightarrow> (case parse_f64 env (take e s) of Some f \<Rightarrow> f | None \<Rightarrow> 0))"

definition as_mysql_f64 :: "std_env \<Rightarrow> Value \<Rightarrow> u64 option" where
  "as_mysql_f64 env v =
     (case v of
        Text s \<Rightarrow> Some (mysql_numeric_prefix env s)
      | Json s \<Rightarrow> Some (mysql_numeric_prefix env s)
      | _ \<Rightarrow> as_f64 env v)"

subsection \<open>Comparison\<close>

definition cmp_u64_i64 :: "u64 \<Rightarrow> i64 \<Rightarrow> Ordering" where
  "cmp_u64_i64 a b = (if sint b < 0 then Greater else cmp a b)"

definition date_of_text :: "std_env \<Rightarrow> chars \<Rightarrow> int option" where
  "date_of_text env s = (if is_ascii s then parse_date (map char_of s) else other_date env s)"

definition datetime_of_text :: "std_env \<Rightarrow> chars \<Rightarrow> int option" where
  "datetime_of_text env s = (if is_ascii s then parse_datetime (map char_of s) else other_datetime env s)"

definition time_of_text :: "std_env \<Rightarrow> chars \<Rightarrow> int option" where
  "time_of_text env s = (if is_ascii s then parse_time (map char_of s) else other_time env s)"

definition to_days :: "std_env \<Rightarrow> Value \<Rightarrow> int option" where
  "to_days env v =
     (case v of
        Date d \<Rightarrow> Some (sint d)
      | DateTime m \<Rightarrow> Some (sint m div 86400000000)
      | IntV i \<Rightarrow> Some (sint i)
      | Text s \<Rightarrow> (case date_of_text env s of
           Some d \<Rightarrow> Some d
         | None \<Rightarrow> map_option (\<lambda>m. m div 86400000000) (datetime_of_text env s))
      | _ \<Rightarrow> None)"

definition to_micros :: "std_env \<Rightarrow> Value \<Rightarrow> int option" where
  "to_micros env v =
     (case v of
        DateTime t \<Rightarrow> Some (sint t)
      | Date d \<Rightarrow> Some (sint d * 86400 * 1000000)
      | IntV i \<Rightarrow> Some (sint i)
      | Text s \<Rightarrow> datetime_of_text env s
      | _ \<Rightarrow> None)"

definition to_micros_of_day :: "std_env \<Rightarrow> Value \<Rightarrow> int option" where
  "to_micros_of_day env v =
     (case v of
        Time t \<Rightarrow> Some (sint t)
      | Text s \<Rightarrow> time_of_text env s
      | _ \<Rightarrow> None)"

definition zip_with :: "('a \<Rightarrow> 'a \<Rightarrow> 'b option) \<Rightarrow> 'a option \<Rightarrow> 'a option \<Rightarrow> 'b option" where
  "zip_with f a b = (case (a, b) of (Some x, Some y) \<Rightarrow> f x y | _ \<Rightarrow> None)"

definition numeric_cmp :: "std_env \<Rightarrow> Value \<Rightarrow> Value \<Rightarrow> Ordering option" where
  "numeric_cmp env v w = zip_with f64_partial_cmp (as_mysql_f64 env v) (as_mysql_f64 env w)"

definition bin_text_cmp :: "Value \<Rightarrow> Value \<Rightarrow> Ordering option" where
  "bin_text_cmp v w =
     (case v of
        Text a \<Rightarrow> (case w of
            Text b \<Rightarrow> Some (cmp (utf8 a) (utf8 b))
          | Json b \<Rightarrow> Some (cmp (utf8 b) (utf8 a))
          | _ \<Rightarrow> None)
      | Json a \<Rightarrow> (case w of
            Json b \<Rightarrow> Some (cmp (utf8 a) (utf8 b))
          | Text b \<Rightarrow> Some (cmp (utf8 a) (utf8 b))
          | _ \<Rightarrow> None)
      | _ \<Rightarrow> None)"

definition plain_cmp :: "std_env \<Rightarrow> Value \<Rightarrow> Value \<Rightarrow> Ordering option" where
  "plain_cmp env v w =
     (let num = numeric_cmp env v w; folded = (\<lambda>a b. Some (fold_cmp (to_lowercase env) a b))
      in case v of
           Text a \<Rightarrow> (case w of Text b \<Rightarrow> folded a b | Json b \<Rightarrow> folded b a | Bytes b \<Rightarrow> Some (cmp (utf8 a) b) | _ \<Rightarrow> num)
         | Json a \<Rightarrow> (case w of Json b \<Rightarrow> folded a b | Text b \<Rightarrow> folded a b | Bytes b \<Rightarrow> Some (cmp (utf8 a) b) | _ \<Rightarrow> num)
         | Bool a \<Rightarrow> (case w of Bool b \<Rightarrow> Some (cmp a b) | _ \<Rightarrow> num)
         | Bytes a \<Rightarrow> (case w of
               Bytes b \<Rightarrow> Some (cmp a b)
             | Text b \<Rightarrow> Some (cmp a (utf8 b))
             | Json b \<Rightarrow> Some (cmp a (utf8 b))
             | _ \<Rightarrow> num)
         | UInt a \<Rightarrow> (case w of UInt b \<Rightarrow> Some (cmp a b) | IntV b \<Rightarrow> Some (cmp_u64_i64 a b) | _ \<Rightarrow> num)
         | IntV a \<Rightarrow> (case w of
               IntV b \<Rightarrow> Some (cmp (sint a) (sint b))
             | UInt b \<Rightarrow> Some (reverse (cmp_u64_i64 b a))
             | _ \<Rightarrow> num)
         | _ \<Rightarrow> num)"

definition compare_coll :: "std_env \<Rightarrow> Value \<Rightarrow> Value \<Rightarrow> Collation \<Rightarrow> Ordering option" where
  "compare_coll env self other coll =
     (if is_null self \<or> is_null other then None
      else if coll = Bin \<and> bin_text_cmp self other \<noteq> None then bin_text_cmp self other
      else if is_Date self \<or> is_Date other then
        zip_with (\<lambda>a b. Some (cmp a b)) (to_days env self) (to_days env other)
      else if is_DateTime self \<or> is_DateTime other then
        zip_with (\<lambda>a b. Some (cmp a b)) (to_micros env self) (to_micros env other)
      else if is_Decimal self \<or> is_Decimal other then
        (case (self, other) of
           (Decimal au asc, Decimal bu bsc) \<Rightarrow> Some (cmp_decimal (sint au) (unat asc) (sint bu) (unat bsc))
         | _ \<Rightarrow> numeric_cmp env self other)
      else if is_Time self \<or> is_Time other then
        zip_with (\<lambda>a b. Some (cmp a b)) (to_micros_of_day env self) (to_micros_of_day env other)
      else plain_cmp env self other)"

definition compare :: "std_env \<Rightarrow> Value \<Rightarrow> Value \<Rightarrow> Ordering option" where
  "compare env self other = compare_coll env self other Ci"

fun type_rank :: "Value \<Rightarrow> nat" where
  "type_rank Null = 0"
| "type_rank (Bool _) = 1"
| "type_rank (IntV _) = 2"
| "type_rank (UInt _) = 2"
| "type_rank (Decimal _ _) = 3"
| "type_rank (Float _) = 4"
| "type_rank (Date _) = 5"
| "type_rank (Time _) = 6"
| "type_rank (DateTime _) = 7"
| "type_rank (Text _) = 8"
| "type_rank (Json _) = 9"
| "type_rank (Bytes _) = 10"
| "type_rank (Vector _) = 11"

definition total_cmp_coll :: "std_env \<Rightarrow> Value \<Rightarrow> Value \<Rightarrow> Collation \<Rightarrow> Ordering" where
  "total_cmp_coll env self other coll =
     (if is_null self then (if is_null other then Equal else Less)
      else if is_null other then Greater
      else case compare_coll env self other coll of
             Some r \<Rightarrow> r
           | None \<Rightarrow>
               (case (as_f64 env self, as_f64 env other) of
                  (Some a, Some b) \<Rightarrow> f64_total_cmp a b
                | _ \<Rightarrow> cmp (type_rank self) (type_rank other)))"

definition total_cmp :: "std_env \<Rightarrow> Value \<Rightarrow> Value \<Rightarrow> Ordering" where
  "total_cmp env self other =
     (if is_null self then (if is_null other then Equal else Less)
      else if is_null other then Greater
      else case compare env self other of
             Some r \<Rightarrow> r
           | None \<Rightarrow>
               (case (as_f64 env self, as_f64 env other) of
                  (Some a, Some b) \<Rightarrow> f64_total_cmp a b
                | _ \<Rightarrow> cmp (type_rank self) (type_rank other)))"

subsection \<open>Swapping the operands\<close>

definition text_against_json :: "Value \<Rightarrow> Value \<Rightarrow> bool" where
  "text_against_json v w \<longleftrightarrow> (case v of
       Text _ \<Rightarrow> (case w of Json _ \<Rightarrow> True | _ \<Rightarrow> False)
     | Json _ \<Rightarrow> (case w of Text _ \<Rightarrow> True | _ \<Rightarrow> False)
     | _ \<Rightarrow> False)"

lemma reverse_reverse [simp]: "reverse (reverse r) = r"
  by (cases r) simp_all

lemma zip_with_swap:
  assumes "\<And>a b. f b a = map_option reverse (f a b)"
  shows "zip_with f y x = map_option reverse (zip_with f x y)"
  by (auto simp: zip_with_def intro: assms split: option.split)

lemma numeric_cmp_swap: "numeric_cmp env w v = map_option reverse (numeric_cmp env v w)"
  unfolding numeric_cmp_def by (rule zip_with_swap) (simp add: f64_partial_cmp_def)

lemma zip_cmp_swap: "zip_with (\<lambda>a b. Some (cmp a b)) y x = map_option reverse (zip_with (\<lambda>a b. Some (cmp a b)) x y)"
  by (rule zip_with_swap) simp

lemma fold_cmp_swap: "fold_cmp lower b a = reverse (fold_cmp lower a b)"
  by (simp add: fold_cmp_fold)

lemma cmp_decimal_swap: "cmp_decimal v b u a = reverse (cmp_decimal u a v b)"
  by (simp add: cmp_decimal_def Let_def max.commute)

lemma bin_text_cmp_swap:
  "bin_text_cmp w v = (if text_against_json v w then bin_text_cmp v w else map_option reverse (bin_text_cmp v w))"
  by (cases v; cases w) (simp_all add: bin_text_cmp_def text_against_json_def)

lemma plain_cmp_swap:
  "plain_cmp env w v = (if text_against_json v w then plain_cmp env v w else map_option reverse (plain_cmp env v w))"
  by (cases v; cases w)
    (simp_all add: plain_cmp_def text_against_json_def fold_cmp_fold numeric_cmp_swap [symmetric])

lemma bin_text_cmp_texts: "bin_text_cmp v w \<noteq> None \<longleftrightarrow> bin_text_cmp w v \<noteq> None"
  by (subst bin_text_cmp_swap) simp

lemma text_against_json_kinds:
  "text_against_json v w \<Longrightarrow> \<not> is_Date v \<and> \<not> is_Date w \<and> \<not> is_DateTime v \<and> \<not> is_DateTime w
     \<and> \<not> is_Decimal v \<and> \<not> is_Decimal w \<and> \<not> is_Time v \<and> \<not> is_Time w"
  by (cases v; cases w) (simp_all add: text_against_json_def)

lemma decimal_cmp_swap:
  "(case (w, v) of (Decimal au asc, Decimal bu bsc) \<Rightarrow> Some (cmp_decimal (sint au) (unat asc) (sint bu) (unat bsc))
      | _ \<Rightarrow> numeric_cmp env w v)
   = map_option reverse (case (v, w) of
        (Decimal au asc, Decimal bu bsc) \<Rightarrow> Some (cmp_decimal (sint au) (unat asc) (sint bu) (unat bsc))
      | _ \<Rightarrow> numeric_cmp env v w)"
  by (cases v; cases w) (simp_all add: numeric_cmp_swap [symmetric] cmp_decimal_swap [symmetric])

lemma compare_coll_swap:
  "compare_coll env w v coll =
     (if text_against_json v w then compare_coll env v w coll else map_option reverse (compare_coll env v w coll))"
proof -
  note swaps = bin_text_cmp_swap [of w v] plain_cmp_swap [of env w v] decimal_cmp_swap [where w = w and v = v and env = env]
    zip_cmp_swap [of "to_days env w" "to_days env v"] zip_cmp_swap [of "to_micros env w" "to_micros env v"]
    zip_cmp_swap [of "to_micros_of_day env w" "to_micros_of_day env v"]
  note sides = disj_commute [of "is_null w"] disj_commute [of "is_Date w"]
    disj_commute [of "is_DateTime w"] disj_commute [of "is_Decimal w"] disj_commute [of "is_Time w"]
  show ?thesis
  proof (cases "text_against_json v w")
    case True
    then show ?thesis
      using text_against_json_kinds [OF True] swaps(1,2) by (cases "bin_text_cmp v w") (simp_all add: compare_coll_def sides)
  next
    case False
    then have "(map_option reverse (bin_text_cmp v w) \<noteq> None) = (bin_text_cmp v w \<noteq> None)" by simp
    then show ?thesis
      unfolding compare_coll_def sides swaps if_not_P [OF False] if_distrib [of "map_option reverse"] by simp
  qed
qed

text \<open>
  C37. Comparing the other way round gives the reversed answer under both collations, between
  values of any two types, except between text and JSON: there the two arms of the code share
  one comparison, and the swapped call gives the same answer. So \<open>a\<close> as text sorts after
  \<open>b\<close> as JSON and \<open>b\<close> as JSON after \<open>a\<close> as text, although \<open>a\<close> is below \<open>b\<close>.
\<close>

theorem compare_swapped:
  "compare_coll env w v coll =
     (if text_against_json v w then compare_coll env v w coll else map_option reverse (compare_coll env v w coll))
   \<and> total_cmp env (Text [97]) (Json [98]) = Greater \<and> total_cmp env (Json [98]) (Text [97]) = Greater
   \<and> total_cmp env (Text [97]) (Text [98]) = Less"
proof (intro conjI)
  have c: "fold_cmp l [97] [98] = Less" "fold_cmp l [98] [97] = Greater" for l
    by (simp_all add: fold_cmp_def is_ascii_def ascii_lower_def)
  show "total_cmp env (Text [97]) (Json [98]) = Greater" "total_cmp env (Json [98]) (Text [97]) = Greater"
    "total_cmp env (Text [97]) (Text [98]) = Less"
    by (simp_all add: total_cmp_def compare_def compare_coll_def is_null_def plain_cmp_def c)
qed (rule compare_coll_swap)

end
