(* ===== verification/Sql_Keys.thy ===== *)
theory Sql_Keys
  imports Sql_Value
begin

section \<open>Grouping keys\<close>

text \<open>
  The collation keys of \<open>crates/elyra-core/src/value.rs\<close>, by which rows are grouped, made
  distinct and hash-joined: a tag byte and the value's canonical bytes, concatenated over the
  columns of a row.
\<close>

subsection \<open>Debug text\<close>

definition show_int :: "int \<Rightarrow> string" where
  "show_int i = (if i < 0 then CHR ''-'' # show_nat (nat (- i)) else show_nat (nat i))"

fun join :: "string list \<Rightarrow> string" where
  "join [] = []"
| "join [x] = x"
| "join (x # xs) = x @ '', '' @ join xs"

definition debug_list :: "string list \<Rightarrow> string" where
  "debug_list xs = ''['' @ join xs @ '']''"

definition debug_tuple :: "string \<Rightarrow> string list \<Rightarrow> string" where
  "debug_tuple c xs = c @ ''('' @ join xs @ '')''"

fun debug :: "std_env \<Rightarrow> Value \<Rightarrow> string" where
  "debug env Null = ''Null''"
| "debug env (Bool b) = debug_tuple ''Bool'' [if b then ''true'' else ''false'']"
| "debug env (IntV i) = debug_tuple ''Int'' [show_int (sint i)]"
| "debug env (Float f) = debug_tuple ''Float'' [f64_debug env f]"
| "debug env (Text s) = debug_tuple ''Text'' [str_debug env s]"
| "debug env (Bytes b) = debug_tuple ''Bytes'' [debug_list (map (\<lambda>x. show_nat (unat x)) b)]"
| "debug env (Vector v) = debug_tuple ''Vector'' [debug_list (map (f32_debug env) v)]"
| "debug env (Date d) = debug_tuple ''Date'' [show_int (sint d)]"
| "debug env (DateTime t) = debug_tuple ''DateTime'' [show_int (sint t)]"
| "debug env (Decimal u s) = debug_tuple ''Decimal'' [show_int (sint u), show_nat (unat s)]"
| "debug env (Time t) = debug_tuple ''Time'' [show_int (sint t)]"
| "debug env (Json s) = debug_tuple ''Json'' [str_debug env s]"
| "debug env (UInt u) = debug_tuple ''UInt'' [show_nat (unat u)]"

subsection \<open>Keys\<close>

fun strip_zeros :: "int \<Rightarrow> nat \<Rightarrow> int \<times> nat" where
  "strip_zeros unscaled 0 = (unscaled, 0)"
| "strip_zeros unscaled (Suc scale) =
     (if unscaled smod 10 = 0 then strip_zeros (unscaled sdiv 10) scale else (unscaled, Suc scale))"

definition sized :: "bytes \<Rightarrow> bytes" where
  "sized b = to_le_bytes 4 (word_of_nat (length b) :: u32) @ b"

fun push_collation_key :: "std_env \<Rightarrow> Value \<Rightarrow> bytes \<Rightarrow> bytes" where
  "push_collation_key env Null out = out @ [0]"
| "push_collation_key env (IntV i) out = out @ [1] @ to_le_bytes 8 i"
| "push_collation_key env (Bool b) out = out @ [2] @ [if b then 1 else 0]"
| "push_collation_key env (Float f) out = out @ [3] @ to_le_bytes 8 (canonical_f64_bits f)"
| "push_collation_key env (Text s) out = out @ [4] @ sized (utf8 (fold_str (to_lowercase env) s))"
| "push_collation_key env (Json s) out = out @ [4] @ sized (utf8 (fold_str (to_lowercase env) s))"
| "push_collation_key env (UInt u) out =
     (if unat u \<le> 2 ^ 63 - 1 then out @ [1] @ to_le_bytes 8 u else out @ [6] @ to_le_bytes 8 u)"
| "push_collation_key env (Decimal unscaled scale) out =
     (let (u, s) = strip_zeros (sint unscaled) (unat scale)
      in out @ [7] @ to_le_bytes 16 (word_of_int u :: i128) @ [of_nat s])"
| "push_collation_key env other out = out @ [5] @ sized (ascii (debug env other))"

definition collation_key :: "std_env \<Rightarrow> Value \<Rightarrow> bytes" where
  "collation_key env v = push_collation_key env v []"

definition row_collation_key :: "std_env \<Rightarrow> Value list \<Rightarrow> bytes" where
  "row_collation_key env row = foldl (\<lambda>out v. push_collation_key env v out) [] row"

definition push_collation_key_coll :: "std_env \<Rightarrow> Value \<Rightarrow> bytes \<Rightarrow> Collation \<Rightarrow> bytes" where
  "push_collation_key_coll env v out coll =
     (case (v, coll) of
        (Text s, Bin) \<Rightarrow> out @ [4] @ sized (utf8 s)
      | (Json s, Bin) \<Rightarrow> out @ [4] @ sized (utf8 s)
      | _ \<Rightarrow> push_collation_key env v out)"

definition collation_key_coll :: "std_env \<Rightarrow> Value \<Rightarrow> Collation \<Rightarrow> bytes" where
  "collation_key_coll env v coll = push_collation_key_coll env v [] coll"

definition coll_at :: "Collation list \<Rightarrow> nat \<Rightarrow> Collation" where
  "coll_at colls i = (if i < length colls then colls ! i else Ci)"

definition row_collation_key_coll :: "std_env \<Rightarrow> Value list \<Rightarrow> Collation list \<Rightarrow> bytes" where
  "row_collation_key_coll env row colls =
     foldl (\<lambda>out (i, v). push_collation_key_coll env v out (coll_at colls i)) [] (enumerate 0 row)"

subsection \<open>Keys delimit themselves\<close>

lemma push_append: "push_collation_key env v out = out @ push_collation_key env v []"
  by (cases v) (simp_all add: Let_def split: prod.split)

lemma push_coll_append: "push_collation_key_coll env v out coll = out @ collation_key_coll env v coll"
  unfolding push_collation_key_coll_def collation_key_coll_def
  by (cases v; cases coll) (simp_all only: prod.case Value.case Collation.case append_Nil append_assoc push_append [of env _ out])

definition text_of :: "std_env \<Rightarrow> Collation \<Rightarrow> chars \<Rightarrow> bytes" where
  "text_of env coll s = utf8 (if coll = Bin then s else fold_str (to_lowercase env) s)"

lemma key_coll_text:
  "collation_key_coll env (Text s) coll = 4 # sized (text_of env coll s)"
  "collation_key_coll env (Json s) coll = 4 # sized (text_of env coll s)"
  by (cases coll; simp add: collation_key_coll_def push_collation_key_coll_def text_of_def)+

lemma key_coll_other:
  "\<nexists>s. v = Text s \<or> v = Json s \<Longrightarrow> collation_key_coll env v coll = push_collation_key env v []"
  by (cases v; cases coll) (simp_all add: collation_key_coll_def push_collation_key_coll_def)

text \<open>The length of a key can be read off its first five bytes.\<close>

definition key_size :: "bytes \<Rightarrow> nat" where
  "key_size k =
     (let t = unat (hd k)
      in if t = 0 then 1 else if t = 2 then 2 else if t = 4 \<or> t = 5 then 5 + le_nat (take 4 (tl k))
         else if t = 7 then 18 else 9)"

definition small_key :: "std_env \<Rightarrow> Collation \<Rightarrow> Value \<Rightarrow> bool" where
  "small_key env coll v \<longleftrightarrow>
     (case v of
        Text s \<Rightarrow> length (text_of env coll s) < 2 ^ 32
      | Json s \<Rightarrow> length (text_of env coll s) < 2 ^ 32
      | _ \<Rightarrow> length (debug env v) < 2 ^ 32)"

lemma sized_prefix: "length b < 4294967296 \<Longrightarrow> le_nat (take 4 (sized b)) = length b"
  by (simp add: sized_def to_le_bytes_def le_nat_nat_le unat_of_nat)

lemma length_sized [simp]: "length (sized b) = 4 + length b"
  by (simp add: sized_def)

lemma key_size_key:
  assumes "small_key env coll v"
  shows "key_size (collation_key_coll env v coll @ r) = length (collation_key_coll env v coll)"
  using assms
  by (cases v) (simp_all add: key_coll_text key_coll_other key_size_def small_key_def sized_prefix ascii_def Let_def split: prod.split)

lemma key_self_delimiting:
  assumes "small_key env coll v" and "small_key env coll w"
    and "collation_key_coll env v coll @ r = collation_key_coll env w coll @ q"
  shows "collation_key_coll env v coll = collation_key_coll env w coll \<and> r = q"
proof -
  have "length (collation_key_coll env v coll) = length (collation_key_coll env w coll)"
    using key_size_key [OF assms(1), of r] key_size_key [OF assms(2), of q] assms(3) by simp
  then show ?thesis using assms(3) by simp
qed

lemma row_key_concat:
  "foldl (\<lambda>out (i, v). push_collation_key_coll env v out (coll_at colls i)) out (enumerate n row)
     = out @ concat (map (\<lambda>(i, v). collation_key_coll env v (coll_at colls i)) (enumerate n row))"
  by (induction row arbitrary: n out) (simp_all add: push_coll_append)

lemma row_keys_equal:
  assumes "length r = length q"
    and "\<And>i. i < length r \<Longrightarrow> small_key env (coll_at colls (n + i)) (r ! i) \<and> small_key env (coll_at colls (n + i)) (q ! i)"
  shows "concat (map (\<lambda>(i, v). collation_key_coll env v (coll_at colls i)) (enumerate n r))
       = concat (map (\<lambda>(i, v). collation_key_coll env v (coll_at colls i)) (enumerate n q))
     \<longleftrightarrow> (\<forall>i < length r. collation_key_coll env (r ! i) (coll_at colls (n + i)) = collation_key_coll env (q ! i) (coll_at colls (n + i)))"
  using assms
proof (induction r q arbitrary: n rule: list_induct2)
  case (Cons v r w q)
  have small: "small_key env (coll_at colls n) v" "small_key env (coll_at colls n) w" using Cons.prems [of 0] by simp_all
  have IH: "concat (map (\<lambda>(i, v). collation_key_coll env v (coll_at colls i)) (enumerate (Suc n) r))
       = concat (map (\<lambda>(i, v). collation_key_coll env v (coll_at colls i)) (enumerate (Suc n) q))
     \<longleftrightarrow> (\<forall>i < length r. collation_key_coll env (r ! i) (coll_at colls (Suc n + i)) = collation_key_coll env (q ! i) (coll_at colls (Suc n + i)))"
    using Cons.prems [of "Suc i" for i] by (intro Cons.IH) fastforce
  show ?case
    using key_self_delimiting [OF small] IH by (auto simp: All_less_Suc2)
qed simp

subsection \<open>Equal keys, equal values\<close>

lemma sized_inject [simp]: "sized a = sized b \<longleftrightarrow> a = b"
  by (auto simp: sized_def)

lemma to_le_bytes_8 [simp]: "to_le_bytes 8 (x :: u64) = to_le_bytes 8 y \<longleftrightarrow> x = y"
  by (rule to_le_bytes_inject) simp

lemma to_le_bytes_16 [simp]: "to_le_bytes 16 (x :: u128) = to_le_bytes 16 y \<longleftrightarrow> x = y"
  by (rule to_le_bytes_inject) simp

lemma ascii_inject [simp]: "ascii a = ascii b \<longleftrightarrow> a = b"
proof
  assume "ascii a = ascii b"
  from arg_cong [OF this, of "map unat"] have "map (\<lambda>c. unat (of_char c :: u8)) a = map (\<lambda>c. unat (of_char c :: u8)) b"
    by (simp add: ascii_def comp_def)
  moreover have "unat (of_char c :: u8) = of_char c" for c
  proof -
    have "unat (of_nat (of_char c) :: u8) = of_char c"
      using nat_of_char_less_256 [of c] by (simp add: unat_of_nat del: of_nat_of_char)
    then show ?thesis by (simp only: of_nat_of_char)
  qed
  ultimately show "a = b" by (simp add: inj_map_eq_map inj_def)
qed simp

lemma show_nat_inject [simp]: "show_nat a = show_nat b \<longleftrightarrow> a = b"
  using parse_digits_show by (metis option.inject)

lemma show_int_inject [simp]: "show_int a = show_int b \<longleftrightarrow> a = b"
proof -
  have "show_nat n \<noteq> CHR ''-'' # show_nat m" for n m
    using show_nat_digits [of "CHR ''-''" n] digit_plain by fastforce
  then show ?thesis by (auto simp: show_int_def) metis+
qed

lemma f64_bits: "unat b = (if f64_negative b then 2 ^ 63 else 0) + f64_magnitude b"
proof -
  have "unat b < 2 ^ 64" using unsigned_less [of b] by simp
  then show ?thesis unfolding f64_negative_def f64_magnitude_def
    using mod_less [of "unat b" "2 ^ 63"] le_mod_geq [of "2 ^ 63" "unat b"] mod_less [of "unat b - 2 ^ 63" "2 ^ 63"] by auto
qed

lemma canonical_rank:
  assumes "\<not> f64_is_nan a" and "\<not> f64_is_nan b"
  shows "canonical_f64_bits a = canonical_f64_bits b \<longleftrightarrow> f64_rank a = f64_rank b"
proof -
  have eq: "a = b \<longleftrightarrow> f64_negative a = f64_negative b \<and> f64_magnitude a = f64_magnitude b"
    using f64_bits [of a] f64_bits [of b] word_unat_eq_iff [of a b] by metis
  have zero: "f64_magnitude 0 = 0" by (simp add: f64_magnitude_def)
  show ?thesis using assms eq zero by (auto simp: canonical_f64_bits_def f64_rank_def)
qed

lemma strip_zeros_value:
  "strip_zeros u a = (u', a') \<Longrightarrow> a' \<le> a \<and> \<bar>u'\<bar> \<le> \<bar>u\<bar> \<and> u = u' * 10 ^ (a - a') \<and> (a' = 0 \<or> \<not> 10 dvd u')"
proof (induction u a rule: strip_zeros.induct)
  case (2 u s)
  have dvd: "u smod 10 = 0 \<longleftrightarrow> 10 dvd u" by (auto simp: signed_modulo_int_def sgn_if dvd_eq_mod_eq_0 [symmetric])
  show ?case
  proof (cases "u smod 10 = 0")
    case True
    then obtain k where k: "u = 10 * k" using dvd by auto
    then have div: "u sdiv 10 = k" by (auto simp: signed_divide_int_def sgn_if abs_mult)
    have "strip_zeros (u sdiv 10) s = (u', a')" using 2(2) True by (simp only: strip_zeros.simps if_True simp_thms)
    from 2(1) [OF True this]
    have IH: "a' \<le> s \<and> \<bar>u'\<bar> \<le> \<bar>k\<bar> \<and> k = u' * 10 ^ (s - a') \<and> (a' = 0 \<or> \<not> 10 dvd u')" unfolding div .
    then have "u = u' * 10 ^ (Suc s - a')" using k by (simp add: Suc_diff_le)
    moreover have "\<bar>u\<bar> = 10 * \<bar>k\<bar>" using k by (simp add: abs_mult)
    then have "\<bar>u'\<bar> \<le> \<bar>u\<bar>" using IH by linarith
    ultimately show ?thesis using IH by simp
  next
    case False
    then show ?thesis using 2 dvd by auto
  qed
qed auto

lemma canonical_decimal_less:
  fixes u v :: int
  assumes "u * 10 ^ b = v * 10 ^ a" and "a < b"
  shows "10 dvd v"
proof -
  obtain k where k: "b = a + Suc k" using assms(2) by (metis add_Suc_right less_imp_Suc_add)
  have "10 ^ a * (u * 10 ^ Suc k) = 10 ^ a * v" using assms(1) by (simp add: k power_add algebra_simps)
  then have "v = 10 * (u * 10 ^ k)" by simp
  then show ?thesis by (rule dvdI)
qed

lemma strip_zeros_equal: "strip_zeros u a = strip_zeros v b \<longleftrightarrow> u * 10 ^ b = v * 10 ^ a"
proof -
  obtain u' a' v' b' where s: "strip_zeros u a = (u', a')" "strip_zeros v b = (v', b')" by (metis surj_pair)
  note c = strip_zeros_value [OF s(1)] strip_zeros_value [OF s(2)]
  then have "u * 10 ^ b = u' * 10 ^ b' * 10 ^ ((a - a') + (b - b'))" "v * 10 ^ a = v' * 10 ^ a' * 10 ^ ((a - a') + (b - b'))"
    by (simp_all add: algebra_simps flip: power_add)
  then have "u * 10 ^ b = v * 10 ^ a \<longleftrightarrow> u' * 10 ^ b' = v' * 10 ^ a'" by simp
  moreover have "u' = v' \<and> a' = b'" if e: "u' * 10 ^ b' = v' * 10 ^ a'"
  proof -
    have "a' = b'"
      using canonical_decimal_less [OF e] canonical_decimal_less [OF e [symmetric]] c by (cases a' b' rule: linorder_cases) auto
    then show ?thesis using e by simp
  qed
  ultimately show ?thesis by (auto simp: s)
qed

lemma takeWhile_join:
  assumes "\<forall>c \<in> set x. is_digit c"
  shows "takeWhile is_digit (join (x # xs)) = x"
  using assms by (cases xs) (auto simp: takeWhile_append takeWhile_eq_all_conv is_digit_def)

lemma join_inject:
  assumes "\<forall>x \<in> set xs. x \<noteq> [] \<and> (\<forall>c \<in> set x. is_digit c)" and "\<forall>x \<in> set ys. x \<noteq> [] \<and> (\<forall>c \<in> set x. is_digit c)"
    and "join xs = join ys"
  shows "xs = ys"
  using assms
proof (induction xs arbitrary: ys)
  case Nil
  then show ?case by (cases ys rule: join.cases) auto
next
  case (Cons x xs)
  from Cons.prems obtain y zs where ys: "ys = y # zs" by (cases ys; cases xs) auto
  have "x = y" using takeWhile_join [of x xs] takeWhile_join [of y zs] Cons.prems ys by auto
  then have "(xs = [] \<and> zs = []) \<or> (xs \<noteq> [] \<and> zs \<noteq> [] \<and> join xs = join zs)"
    using Cons.prems(3) ys by (cases xs; cases zs) auto
  then show ?case using Cons ys \<open>x = y\<close> by auto
qed

lemma debug_tuple_inject [simp]: "debug_tuple c [x] = debug_tuple c [y] \<longleftrightarrow> x = y"
  by (simp add: debug_tuple_def)

lemma debug_bytes_inject [simp]:
  "debug_list (map (\<lambda>x. show_nat (unat x)) (a :: bytes)) = debug_list (map (\<lambda>x. show_nat (unat x)) b) \<longleftrightarrow> a = b"
proof
  assume "debug_list (map (\<lambda>x. show_nat (unat x)) a) = debug_list (map (\<lambda>x. show_nat (unat x)) b)"
  then have "map (\<lambda>x. show_nat (unat x)) a = map (\<lambda>x. show_nat (unat x)) b"
    by (intro join_inject) (auto simp: debug_list_def show_nat_digits)
  moreover have "inj (\<lambda>x :: u8. show_nat (unat x))" by (rule injI) (simp add: word_unat_eq_iff)
  ultimately show "a = b" by (simp add: inj_map_eq_map)
qed simp

lemma sint_negative: "sint (x :: u64) < 0 \<longleftrightarrow> 2 ^ 63 \<le> unat x"
proof -
  have "unat x < 2 ^ 64" using unsigned_less [of x] by simp
  then have "unat x div 2 ^ 63 = (if 2 ^ 63 \<le> unat x then 1 else 0)" by (auto intro: div_nat_eqI)
  moreover have "sint x < 0 \<longleftrightarrow> bit (int (unat x)) 63" by (simp add: sint_uint)
  then have "sint x < 0 \<longleftrightarrow> odd (unat x div 2 ^ 63)" unfolding bit_of_nat_iff_bit bit_iff_odd [of "unat x"] .
  ultimately show ?thesis by (simp only:) simp
qed

lemma decimal_key_inject:
  fixes u v :: i128 and a b :: u8
  assumes "strip_zeros (sint u) (unat a) = (u', a')" and "strip_zeros (sint v) (unat b) = (v', b')"
    and "\<bar>sint u\<bar> < i128_MAX" and "\<bar>sint v\<bar> < i128_MAX"
  shows "(word_of_int u' :: i128) = word_of_int v' \<and> (of_nat a' :: u8) = of_nat b' \<longleftrightarrow> (u', a') = (v', b')"
proof -
  note c = strip_zeros_value [OF assms(1)] strip_zeros_value [OF assms(2)]
  have in_range: "sint (word_of_int k :: i128) = k" if "\<bar>k\<bar> < i128_MAX" for k
    using that by (simp add: signed_of_int signed_take_bit_int_eq_self abs_less_iff)
  have "sint (word_of_int u' :: i128) = u'" "sint (word_of_int v' :: i128) = v'"
    using c assms(3,4) by (intro in_range; linarith)+
  then have "(word_of_int u' :: i128) = word_of_int v' \<longleftrightarrow> u' = v'" by metis
  moreover have "unat a < 256" "unat b < 256" using unsigned_less [of a] unsigned_less [of b] by simp_all
  then have "a' < 256" "b' < 256" using c by linarith+
  ultimately show ?thesis using of_nat_byte_eq by auto
qed

subsection \<open>Grouping\<close>

text \<open>
  Values a column can hold together, and the ones whose comparison is exact: no NaN, which
  compares with nothing, no decimal at the limit of \<open>i128\<close>, no vector.
\<close>

fun key_kind :: "Value \<Rightarrow> nat" where
  "key_kind (UInt _) = 2"
| "key_kind (Json _) = 8"
| "key_kind v = type_rank v"

definition exact_key :: "Value \<Rightarrow> bool" where
  "exact_key v \<longleftrightarrow>
     (case v of
        Float f \<Rightarrow> \<not> f64_is_nan f
      | Decimal u _ \<Rightarrow> \<bar>sint u\<bar> < i128_MAX
      | Vector _ \<Rightarrow> False
      | _ \<Rightarrow> True)"

definition same_group :: "std_env \<Rightarrow> Value \<Rightarrow> Value \<Rightarrow> Collation \<Rightarrow> bool" where
  "same_group env v w coll \<longleftrightarrow> (v = Null \<and> w = Null) \<or> compare_coll env v w coll = Some Equal"

definition groupable :: "Value \<Rightarrow> Value \<Rightarrow> bool" where
  "groupable v w \<longleftrightarrow> exact_key v \<and> exact_key w \<and> (v = Null \<or> w = Null \<or> key_kind v = key_kind w)"

lemma text_group:
  assumes "v = Text a \<or> v = Json a" and "w = Text b \<or> w = Json b"
  shows "collation_key_coll env v coll = collation_key_coll env w coll \<longleftrightarrow> same_group env v w coll"
proof -
  have "collation_key_coll env v coll = collation_key_coll env w coll \<longleftrightarrow> text_of env coll a = text_of env coll b"
    using assms by (auto simp: key_coll_text)
  moreover have "compare_coll env v w coll = Some Equal \<longleftrightarrow> text_of env coll a = text_of env coll b"
    using assms eq_commute [of "text_of env coll b" "text_of env coll a"]
    by (elim disjE; cases coll; simp add: compare_coll_def is_null_def bin_text_cmp_def plain_cmp_def fold_cmp_fold text_of_def)
  ultimately show ?thesis using assms by (auto simp: same_group_def)
qed

lemma decimal_group:
  assumes "v = Decimal u a" and "w = Decimal x b" and "exact_key v" and "exact_key w"
  shows "collation_key_coll env v coll = collation_key_coll env w coll \<longleftrightarrow> same_group env v w coll"
proof -
  obtain u' a' x' b' where s: "strip_zeros (sint u) (unat a) = (u', a')" "strip_zeros (sint x) (unat b) = (x', b')"
    by (metis surj_pair)
  have e: "\<bar>sint u\<bar> < i128_MAX" "\<bar>sint x\<bar> < i128_MAX" using assms by (simp_all add: exact_key_def)
  have "collation_key_coll env v coll = collation_key_coll env w coll
      \<longleftrightarrow> (word_of_int u' :: i128) = word_of_int x' \<and> (of_nat a' :: u8) = of_nat b'"
    using assms(1,2) s by (simp add: key_coll_other)
  also have "\<dots> \<longleftrightarrow> sint u * 10 ^ unat b = sint x * 10 ^ unat a"
    unfolding decimal_key_inject [OF s e] using strip_zeros_equal [of "sint u" "unat a" "sint x" "unat b"] by (simp only: s)
  also have "\<dots> \<longleftrightarrow> same_group env v w coll"
    using assms(1,2) e by (simp add: same_group_def compare_coll_def is_null_def bin_text_cmp_def cmp_decimal_value)
  finally show ?thesis .
qed

lemma integer_group:
  assumes "v = IntV i \<or> v = UInt i" and "w = IntV j \<or> w = UInt j"
  shows "collation_key_coll env v coll = collation_key_coll env w coll \<longleftrightarrow> same_group env v w coll"
proof -
  have neg: "sint x < 0 \<longleftrightarrow> \<not> unat x \<le> 2 ^ 63 - 1" for x :: u64 using sint_negative [of x] by auto
  have mixed: "cmp_u64_i64 x y = Equal \<longleftrightarrow> x = y \<and> unat x \<le> 2 ^ 63 - 1" for x y :: u64
    using neg [of y] by (auto simp: cmp_u64_i64_def)
  have rev: "reverse r = Equal \<longleftrightarrow> r = Equal" for r by (cases r) simp_all
  show ?thesis
    using assms
    by (elim disjE; cases coll)
      (auto simp: key_coll_other same_group_def compare_coll_def is_null_def bin_text_cmp_def plain_cmp_def Let_def mixed rev word_eq_iff_signed [symmetric])
qed

lemma key_groups:
  assumes "groupable v w"
  shows "collation_key_coll env v coll = collation_key_coll env w coll \<longleftrightarrow> same_group env v w coll"
proof (cases "v = Null \<or> w = Null")
  case True
  then show ?thesis
    by (cases v; cases w) (auto simp: key_coll_other key_coll_text same_group_def compare_coll_def is_null_def Let_def split: prod.split)
next
  case False
  then have kind: "key_kind v = key_kind w" "exact_key v" "exact_key w" using assms by (auto simp: groupable_def)
  note simps = key_coll_other same_group_def compare_coll_def is_null_def bin_text_cmp_def
  show ?thesis
  proof (cases v)
    case (IntV i)
    with kind obtain x where "w = IntV x \<or> w = UInt x" by (cases w) auto
    with IntV kind show ?thesis by (intro integer_group) auto
  next
    case (UInt i)
    with kind obtain x where "w = IntV x \<or> w = UInt x" by (cases w) auto
    with UInt kind show ?thesis by (intro integer_group) auto
  next
    case (Text a)
    with kind obtain x where "w = Text x \<or> w = Json x" by (cases w) auto
    with Text kind show ?thesis by (intro text_group) auto
  next
    case (Json a)
    with kind obtain x where "w = Text x \<or> w = Json x" by (cases w) auto
    with Json kind show ?thesis by (intro text_group) auto
  next
    case (Decimal u a)
    with kind obtain x y where "w = Decimal x y" by (cases w) auto
    with Decimal kind show ?thesis by (intro decimal_group) auto
  next
    case (Float f)
    with kind show ?thesis
      by (cases w) (simp_all add: simps plain_cmp_def numeric_cmp_def as_mysql_f64_def as_f64_def zip_with_def
          f64_partial_cmp_def exact_key_def canonical_rank)
  qed (use kind False in \<open>cases w; simp add: simps plain_cmp_def exact_key_def to_days_def to_micros_def to_micros_of_day_def zip_with_def word_eq_iff_signed [symmetric]\<close>)+
qed

text \<open>
  C38. Rows whose columns hold values of one kind (integers of both signs, text and JSON,
  decimals of any scales, and so on, or \<open>NULL\<close>) have the same grouping key if and only if every
  column compares equal under its collation or is \<open>NULL\<close> in both: equal numbers of different
  scale or signedness and texts that fold alike are grouped together, and the concatenation of
  the columns' keys never confuses two rows. Between kinds the promise fails: \<open>TRUE\<close> compares
  equal to the float 1 and has another key.
\<close>

theorem grouping_keys:
  assumes "length r = length q"
    and "\<forall>i < length r. groupable (r ! i) (q ! i) \<and> small_key env (coll_at colls i) (r ! i) \<and> small_key env (coll_at colls i) (q ! i)"
  shows "(row_collation_key_coll env r colls = row_collation_key_coll env q colls
       \<longleftrightarrow> (\<forall>i < length r. same_group env (r ! i) (q ! i) (coll_at colls i)))
     \<and> compare env (Bool True) (Float 0x3FF0000000000000) = Some Equal
     \<and> collation_key env (Bool True) \<noteq> collation_key env (Float 0x3FF0000000000000)"
proof (intro conjI)
  have "row_collation_key_coll env r colls = row_collation_key_coll env q colls \<longleftrightarrow>
      (\<forall>i < length r. collation_key_coll env (r ! i) (coll_at colls (0 + i)) = collation_key_coll env (q ! i) (coll_at colls (0 + i)))"
    unfolding row_collation_key_coll_def row_key_concat append_Nil using assms by (intro row_keys_equal) simp_all
  also have "\<dots> \<longleftrightarrow> (\<forall>i < length r. same_group env (r ! i) (q ! i) (coll_at colls i))"
    using assms(2) key_groups by auto
  finally show "row_collation_key_coll env r colls = row_collation_key_coll env q colls
      \<longleftrightarrow> (\<forall>i < length r. same_group env (r ! i) (q ! i) (coll_at colls i))" .
  show "compare env (Bool True) (Float 0x3FF0000000000000) = Some Equal"
    by (simp add: compare_def compare_coll_def is_null_def bin_text_cmp_def plain_cmp_def numeric_cmp_def as_mysql_f64_def
        as_f64_def zip_with_def f64_partial_cmp_def f64_is_nan_def f64_magnitude_def)
  show "collation_key env (Bool True) \<noteq> collation_key env (Float 0x3FF0000000000000)"
    by (simp add: collation_key_def)
qed

theorem grouping_keys_witness:
  "let env = \<lparr>to_lowercase = \<lambda>c. [c], i64_as_f64 = \<lambda>_. 0, u64_as_f64 = \<lambda>_. 0, i128_as_f64 = \<lambda>_. 0, f64_div = \<lambda>_ _. 0,
         f64_pow10 = \<lambda>_. 0, parse_f64 = \<lambda>_. None, f64_debug = \<lambda>_. [], f32_debug = \<lambda>_. [], str_debug = \<lambda>_. [],
         other_date = \<lambda>_. None, other_datetime = \<lambda>_. None, other_time = \<lambda>_. None\<rparr>;
       r = [Decimal 10 1, Text [70, 111]]; q = [Decimal 100 2, Json [102, 111]]
   in (\<forall>i < length r. groupable (r ! i) (q ! i) \<and> small_key env (coll_at [] i) (r ! i) \<and> small_key env (coll_at [] i) (q ! i))
      \<and> row_collation_key_coll env r [] = row_collation_key_coll env q []"
proof -
  define env where "env = \<lparr>to_lowercase = \<lambda>c. [c], i64_as_f64 = \<lambda>_. 0, u64_as_f64 = \<lambda>_. 0, i128_as_f64 = \<lambda>_. 0, f64_div = \<lambda>_ _. 0,
         f64_pow10 = \<lambda>_. 0, parse_f64 = \<lambda>_. None, f64_debug = \<lambda>_. [], f32_debug = \<lambda>_. [], str_debug = \<lambda>_. [],
         other_date = \<lambda>_. None, other_datetime = \<lambda>_. None, other_time = \<lambda>_. None\<rparr>"
  let ?r = "[Decimal 10 1, Text [70, 111]]" and ?q = "[Decimal 100 2, Json [102, 111]]"
  have d: "show_int 10 = ''10''" "show_int 100 = ''100''" "show_nat (Suc 0) = ''1''" "show_nat 2 = ''2''" by code_simp+
  have ok: "\<forall>i < length ?r. groupable (?r ! i) (?q ! i) \<and> small_key env (coll_at [] i) (?r ! i) \<and> small_key env (coll_at [] i) (?q ! i)"
    by (simp add: All_less_Suc2 groupable_def exact_key_def small_key_def debug_tuple_def d text_of_def utf8_def utf8_char_def coll_at_def
        fold_str_def is_ascii_def ascii_lower_def)
  have "\<forall>i < length ?r. same_group env (?r ! i) (?q ! i) (coll_at [] i)"
    by (simp add: All_less_Suc2 same_group_def compare_coll_def is_null_def bin_text_cmp_def plain_cmp_def coll_at_def cmp_decimal_value
        fold_cmp_def is_ascii_def ascii_lower_def)
  then have "row_collation_key_coll env ?r [] = row_collation_key_coll env ?q []"
    using grouping_keys [OF _ ok] by simp
  then show ?thesis using ok by (simp only: env_def Let_def)
qed

end
