(* ===== verification/Key_Encoding.thy ===== *)
theory Key_Encoding
  imports Errors Sql_Keys
begin

section \<open>Storage keys of rows\<close>

text \<open>
  \<open>crates/elyra-engine/src/keyenc.rs\<close>: the encoding of key columns whose byte order is the order
  of the values. What a component's encoding promises (appended bytes matter only between equal
  values) is the locale \<open>memcomparable\<close>; composite keys follow from it.
\<close>

subsection \<open>Encoding\<close>

definition escape :: "bytes \<Rightarrow> bytes" where
  "escape s = concat (map (\<lambda>b. if b = 0 then [0, 1] else [b]) s)"

definition encode_component :: "std_env \<Rightarrow> Value \<Rightarrow> Collation \<Rightarrow> bytes \<Rightarrow> Error + bytes" where
  "encode_component env v coll out =
     (let chars = (\<lambda>s. let s = (if coll = Bin then s else fold_str (to_lowercase env) s)
                       in Inr (out @ escape (utf8 s) @ [0, 0]))
      in case v of
           IntV i \<Rightarrow> Inr (out @ to_be_bytes 8 (i XOR 0x8000000000000000))
         | UInt u \<Rightarrow> Inr (out @ to_be_bytes 8 u)
         | Date d \<Rightarrow> Inr (out @ to_be_bytes 4 (d XOR 0x80000000))
         | DateTime t \<Rightarrow> Inr (out @ to_be_bytes 8 (t XOR 0x8000000000000000))
         | Decimal u _ \<Rightarrow> Inr (out @ to_be_bytes 16 (u XOR push_bit 127 1))
         | Time t \<Rightarrow> Inr (out @ to_be_bytes 8 (t XOR 0x8000000000000000))
         | Bool b \<Rightarrow> Inr (out @ [if b then 1 else 0])
         | Text s \<Rightarrow> chars s
         | Json s \<Rightarrow> chars s
         | other \<Rightarrow> Inl (Unsupported (''value type cannot be used as a key: '' @ debug env other)))"

definition encode_key_coll :: "std_env \<Rightarrow> Value list \<Rightarrow> Collation list \<Rightarrow> Error + bytes" where
  "encode_key_coll env values colls =
     foldE (\<lambda>out (i, v). encode_component env v (coll_at colls i) out) [] (enumerate 0 values)"

definition encode_columns_coll :: "std_env \<Rightarrow> Value list \<Rightarrow> nat list \<Rightarrow> Collation list \<Rightarrow> Error + bytes" where
  "encode_columns_coll env row columns colls =
     foldE (\<lambda>out (position, column).
              if column < length row then encode_component env (row ! column) (coll_at colls position) out
              else Inl (Storage ''key column is outside the stored row''))
           [] (enumerate 0 columns)"

definition encode :: "std_env \<Rightarrow> Value \<Rightarrow> Error + bytes" where
  "encode env v = encode_component env v Ci []"

definition encode_coll :: "std_env \<Rightarrow> Value \<Rightarrow> Collation \<Rightarrow> Error + bytes" where
  "encode_coll env v coll = encode_component env v coll []"

definition encode_rowid :: "u64 \<Rightarrow> bytes" where
  "encode_rowid rowid = to_be_bytes 8 rowid"

subsection \<open>Codes that compare as their values\<close>

definition then_with :: "Ordering \<Rightarrow> Ordering \<Rightarrow> Ordering" where
  "then_with a b = (if a = Equal then b else a)"

fun lex_cmp :: "('a \<Rightarrow> 'a \<Rightarrow> Ordering) \<Rightarrow> 'a list \<Rightarrow> 'a list \<Rightarrow> Ordering" where
  "lex_cmp c (x # xs) (y # ys) = then_with (c x y) (lex_cmp c xs ys)"
| "lex_cmp c [] [] = Equal"
| "lex_cmp c [] (y # ys) = Less"
| "lex_cmp c (x # xs) [] = Greater"

locale memcomparable =
  fixes code :: "'a \<Rightarrow> bytes"
    and order_of :: "'a \<Rightarrow> 'a \<Rightarrow> Ordering"
    and same_type :: "'a \<Rightarrow> 'a \<Rightarrow> bool"
  assumes code_order: "same_type x y \<Longrightarrow> cmp (code x @ r) (code y @ s) = then_with (order_of x y) (cmp r s)"
begin

lemma concat_order:
  "list_all2 same_type xs ys \<Longrightarrow> cmp (concat (map code xs)) (concat (map code ys)) = lex_cmp order_of xs ys"
  by (induction xs ys rule: list_all2_induct) (simp_all add: code_order)

end

lemma cmp_same_length:
  assumes "length a = length b"
  shows "cmp (a @ r) (b @ s) = then_with (cmp a b) (cmp r (s :: bytes))"
  using append_less_append_same_length [OF assms, of r s] assms
  by (auto simp: then_with_def cmp_def)

lemma cmp_be_bytes:
  assumes "LENGTH('w::len) = 8 * n"
  shows "cmp (to_be_bytes n (x :: 'w word)) (to_be_bytes n y) = cmp x y"
  using to_be_bytes_less [OF assms, of x y] to_be_bytes_less [OF assms, of y x]
  by (cases x y rule: linorder_cases) (auto simp: cmp_def)

lemma be_bytes_order:
  assumes "LENGTH('w::len) = 8 * n"
  shows "cmp (to_be_bytes n (x :: 'w word) @ r) (to_be_bytes n y @ s) = then_with (cmp x y) (cmp r s)"
  by (simp add: cmp_same_length cmp_be_bytes [OF assms])

text \<open>Flipping the sign bit turns the signed order into the unsigned one.\<close>

lemma flip_sign: "x XOR push_bit (LENGTH('w) - 1) 1 = x + 2 ^ (LENGTH('w) - 1)" for x :: "'w :: len word"
proof -
  let ?k = "LENGTH('w) - 1"
  have "(2 :: 'w word) ^ ?k + 2 ^ ?k = 2 ^ LENGTH('w)" by (cases "LENGTH('w)") simp_all
  then have "- ((2 :: 'w word) ^ ?k) = 2 ^ ?k" by (simp add: eq_neg_iff_add_eq_0 minus_equation_iff)
  then show ?thesis
    unfolding flip_bit_eq_xor [symmetric]
    by (simp add: flip_bit_eq_if set_bit_eq unset_bit_eq flip: uminus_add_conv_diff)
qed

lemma flip_sign_order: "cmp (x XOR push_bit (LENGTH('w) - 1) 1) (y XOR push_bit (LENGTH('w) - 1) 1) = cmp (sint x) (sint y)"
  for x y :: "'w :: len word"
proof -
  have "uint (z + 2 ^ k) = take_bit LENGTH('w) (uint z + 2 ^ k)" for z :: "'w word" and k
    by transfer (metis take_bit_add take_bit_of_int of_int_power of_int_numeral mod_mod_trivial take_bit_take_bit min.idem)
  then have s: "sint z + 2 ^ (LENGTH('w) - 1) = uint (z + 2 ^ (LENGTH('w) - 1))" for z :: "'w word"
    by (simp add: sint_uint signed_take_bit_eq_take_bit_shift)
  have u: "cmp a b = cmp (uint a) (uint b)" for a b :: "'w word" by (simp add: cmp_def word_less_def word_uint_eq_iff)
  have "cmp (x + 2 ^ (LENGTH('w) - 1)) (y + 2 ^ (LENGTH('w) - 1)) = cmp (uint (x + 2 ^ (LENGTH('w) - 1))) (uint (y + 2 ^ (LENGTH('w) - 1)))"
    by (rule u)
  also have "\<dots> = cmp (sint x) (sint y)" unfolding s [symmetric] by (simp add: cmp_def)
  finally show ?thesis by (simp only: flip_sign)
qed

lemma escape_simps: "escape [] = []" "escape (b # s) = (if b = 0 then [0, 1] else [b]) @ escape s"
  by (simp_all add: escape_def)

lemma escape_order: "cmp (escape a @ [0, 0] @ r) (escape b @ [0, 0] @ s) = then_with (cmp a b) (cmp r s)"
proof (induction a b rule: list_induct2')
  case 1
  then show ?case by (simp add: escape_simps then_with_def cmp_Cons)
next
  case (4 x xs y ys)
  have pos: "0 < z \<longleftrightarrow> z \<noteq> 0" for z :: u8 by (simp add: word_gt_0)
  show ?case
  proof (cases "x = y")
    case True
    then show ?thesis using 4 by (simp add: escape_simps cmp_Cons)
  next
    case False
    then show ?thesis by (auto simp: escape_simps then_with_def cmp_def pos)
  qed
qed (auto simp: escape_simps then_with_def cmp_Cons cmp_def word_gt_0)

subsection \<open>Components\<close>

definition is_key_type :: "Value \<Rightarrow> bool" where
  "is_key_type v \<longleftrightarrow> (case v of Null \<Rightarrow> False | Float _ \<Rightarrow> False | Bytes _ \<Rightarrow> False | Vector _ \<Rightarrow> False | _ \<Rightarrow> True)"

text \<open>Values of one key column: one type and, for decimals, the scale of the column.\<close>

definition column_typed :: "Value \<Rightarrow> Value \<Rightarrow> bool" where
  "column_typed v w \<longleftrightarrow>
     (case v of
        IntV _ \<Rightarrow> (case w of IntV _ \<Rightarrow> True | _ \<Rightarrow> False)
      | UInt _ \<Rightarrow> (case w of UInt _ \<Rightarrow> True | _ \<Rightarrow> False)
      | Date _ \<Rightarrow> is_Date w
      | DateTime _ \<Rightarrow> is_DateTime w
      | Decimal _ a \<Rightarrow> (case w of Decimal _ b \<Rightarrow> a = b | _ \<Rightarrow> False)
      | Time _ \<Rightarrow> is_Time w
      | Bool _ \<Rightarrow> (case w of Bool _ \<Rightarrow> True | _ \<Rightarrow> False)
      | Text _ \<Rightarrow> (case w of Text _ \<Rightarrow> True | _ \<Rightarrow> False)
      | Json _ \<Rightarrow> (case w of Json _ \<Rightarrow> True | _ \<Rightarrow> False)
      | _ \<Rightarrow> False)"

definition key_code :: "std_env \<Rightarrow> Value \<times> Collation \<Rightarrow> bytes" where
  "key_code env x = (case encode_coll env (fst x) (snd x) of Inr b \<Rightarrow> b | Inl _ \<Rightarrow> [])"

definition column_cmp :: "std_env \<Rightarrow> Value \<times> Collation \<Rightarrow> Value \<times> Collation \<Rightarrow> Ordering" where
  "column_cmp env x y = (case compare_coll env (fst x) (fst y) (snd x) of Some r \<Rightarrow> r | None \<Rightarrow> Equal)"

definition columns_typed :: "Value \<times> Collation \<Rightarrow> Value \<times> Collation \<Rightarrow> bool" where
  "columns_typed x y \<longleftrightarrow> snd x = snd y \<and> column_typed (fst x) (fst y)"

lemma key_code_simps:
  "key_code env (IntV i, c) = to_be_bytes 8 (i XOR 0x8000000000000000)"
  "key_code env (UInt u, c) = to_be_bytes 8 u"
  "key_code env (Date d, c) = to_be_bytes 4 (d XOR 0x80000000)"
  "key_code env (DateTime t, c) = to_be_bytes 8 (t XOR 0x8000000000000000)"
  "key_code env (Decimal m a, c) = to_be_bytes 16 (m XOR 0x80000000000000000000000000000000)"
  "key_code env (Time t, c) = to_be_bytes 8 (t XOR 0x8000000000000000)"
  "key_code env (Bool b, c) = [if b then 1 else 0]"
  "key_code env (Text s, c) = escape (text_of env c s) @ [0, 0]"
  "key_code env (Json s, c) = escape (text_of env c s) @ [0, 0]"
  by (simp_all add: key_code_def encode_coll_def encode_component_def text_of_def push_bit_eq_mult Let_def)

lemma sint_saturate: "saturate (sint x) = sint x" for x :: i128
  using sint_lt [of x] sint_ge [of x] by (intro saturate_in) (simp add: in_i128_def)

lemma column_cmp_simps:
  "column_cmp env (IntV i, c) (IntV j, c) = cmp (sint i) (sint j)"
  "column_cmp env (UInt u, c) (UInt v, c) = cmp u v"
  "column_cmp env (Date d, c) (Date e, c) = cmp (sint d) (sint e)"
  "column_cmp env (DateTime t, c) (DateTime x, c) = cmp (sint t) (sint x)"
  "column_cmp env (Decimal m a, c) (Decimal n a, c) = cmp (sint m) (sint n)"
  "column_cmp env (Time t, c) (Time x, c) = cmp (sint t) (sint x)"
  "column_cmp env (Bool p, c) (Bool q, c) = cmp p q"
  "column_cmp env (Text s, c) (Text y, c) = cmp (text_of env c s) (text_of env c y)"
  "column_cmp env (Json s, c) (Json y, c) = cmp (text_of env c s) (text_of env c y)"
  by (cases c; simp add: column_cmp_def compare_coll_def is_null_def bin_text_cmp_def plain_cmp_def to_days_def to_micros_def
      to_micros_of_day_def zip_with_def cmp_decimal_def sint_saturate saturate_def [of 1] fold_cmp_fold text_of_def)+

lemma flipped_cmp:
  "cmp ((x :: 64 word) XOR 0x8000000000000000) ((y :: 64 word) XOR 0x8000000000000000) = cmp (sint x) (sint y)"
  "cmp ((d :: 32 word) XOR 0x80000000) ((e :: 32 word) XOR 0x80000000) = cmp (sint d) (sint e)"
  "cmp ((m :: 128 word) XOR 0x80000000000000000000000000000000) ((n :: 128 word) XOR 0x80000000000000000000000000000000)
     = cmp (sint m) (sint n)"
  using flip_sign_order [of x y] flip_sign_order [of d e] flip_sign_order [of m n] by simp_all

lemma width_order:
  "cmp (to_be_bytes 8 (x :: 64 word) @ r) (to_be_bytes 8 (y :: 64 word) @ s) = then_with (cmp x y) (cmp r s)"
  "cmp (to_be_bytes 4 (d :: 32 word) @ r) (to_be_bytes 4 (e :: 32 word) @ s) = then_with (cmp d e) (cmp r s)"
  "cmp (to_be_bytes 16 (m :: 128 word) @ r) (to_be_bytes 16 (n :: 128 word) @ s) = then_with (cmp m n) (cmp r s)"
  by (simp_all add: be_bytes_order)

lemma bool_order: "cmp ([if a then 1 else 0 :: u8] @ r) ([if b then 1 else 0] @ s) = then_with (cmp a b) (cmp r s)"
  by (cases a; cases b) (simp_all add: cmp_Cons then_with_def cmp_def)

lemma escaped_order: "cmp ((escape a @ [0, 0]) @ r) ((escape b @ [0, 0]) @ s) = then_with (cmp a b) (cmp r s)"
  using escape_order [of a r b s] by (simp only: append_assoc)

lemma column_order:
  assumes "column_typed v w"
  shows "cmp (key_code env (v, c) @ r) (key_code env (w, c) @ s) = then_with (column_cmp env (v, c) (w, c)) (cmp r s)"
  using assms
  by (cases v; cases w)
    (simp_all only: column_typed_def Value.case Value.disc simp_thms key_code_simps column_cmp_simps width_order
      flipped_cmp bool_order escaped_order)

lemma column_memcomparable: "memcomparable (key_code env) (column_cmp env) columns_typed"
proof
  show "cmp (key_code env x @ r) (key_code env y @ s) = then_with (column_cmp env x y) (cmp r s)"
    if "columns_typed x y" for x y r s
    using that column_order [of "fst x" "fst y" env "snd x" r s] by (cases x; cases y) (simp add: columns_typed_def)
qed

interpretation key_col: memcomparable "key_code env" "column_cmp env" columns_typed for env
  by (rule column_memcomparable)

interpretation rowid: memcomparable encode_rowid cmp "\<lambda>_ _. True"
  by unfold_locales (simp add: encode_rowid_def be_bytes_order [where 'w = 64 and n = 8])

subsection \<open>Composite keys\<close>

lemma encode_component_ok:
  "encode_component env v c out = (if is_key_type v then Inr (out @ key_code env (v, c))
     else Inl (Unsupported (''value type cannot be used as a key: '' @ debug env v)))"
  by (cases v) (simp_all add: encode_component_def key_code_def encode_coll_def is_key_type_def Let_def)

definition with_colls :: "nat \<Rightarrow> Value list \<Rightarrow> Collation list \<Rightarrow> (Value \<times> Collation) list" where
  "with_colls n values colls = map (\<lambda>(i, v). (v, coll_at colls i)) (enumerate n values)"

definition not_a_key :: "std_env \<Rightarrow> Value \<Rightarrow> Error" where
  "not_a_key env v = Unsupported (''value type cannot be used as a key: '' @ debug env v)"

lemma foldE_encode:
  "foldE (\<lambda>out (i, v). encode_component env v (coll_at colls i) out) out (enumerate n vs)
     = (case find (\<lambda>v. \<not> is_key_type v) vs of
          None \<Rightarrow> Inr (out @ concat (map (key_code env) (with_colls n vs colls)))
        | Some v \<Rightarrow> Inl (not_a_key env v))"
  by (induction vs arbitrary: n out)
    (auto simp: encode_component_ok with_colls_def not_a_key_def bindE_simps split: option.split)

lemma encode_key_coll_find:
  "encode_key_coll env vs colls
     = (case find (\<lambda>v. \<not> is_key_type v) vs of
          None \<Rightarrow> Inr (concat (map (key_code env) (with_colls 0 vs colls)))
        | Some v \<Rightarrow> Inl (not_a_key env v))"
  unfolding encode_key_coll_def foldE_encode append_Nil by (rule refl)

lemma typed_key_types: "column_typed v w \<Longrightarrow> is_key_type v \<and> is_key_type w"
  by (cases v; cases w) (simp_all add: column_typed_def is_key_type_def)

lemma with_colls_typed: "list_all2 column_typed r q \<Longrightarrow> list_all2 columns_typed (with_colls n r colls) (with_colls n q colls)"
  by (induction r q arbitrary: n rule: list_all2_induct) (simp_all add: with_colls_def columns_typed_def)

lemma typed_encodes:
  assumes "list_all2 column_typed r q"
  shows "encode_key_coll env r colls = Inr (concat (map (key_code env) (with_colls 0 r colls)))"
    and "encode_key_coll env q colls = Inr (concat (map (key_code env) (with_colls 0 q colls)))"
proof -
  have "\<forall>v \<in> set r. is_key_type v" "\<forall>v \<in> set q. is_key_type v"
    using assms by (induction r q rule: list_all2_induct) (auto dest: typed_key_types)
  then have "find (\<lambda>v. \<not> is_key_type v) r = None" "find (\<lambda>v. \<not> is_key_type v) q = None" by (simp_all add: find_None_iff)
  then show "encode_key_coll env r colls = Inr (concat (map (key_code env) (with_colls 0 r colls)))"
    "encode_key_coll env q colls = Inr (concat (map (key_code env) (with_colls 0 q colls)))"
    by (simp_all add: encode_key_coll_find)
qed

text \<open>
  C39. The byte order of storage keys is the order of the rows: keys of two rows with the same
  column types (decimals at their column's scale) are encoded without error, and their bytes
  compare as the first column on which the rows differ compares under its collation. Hidden
  row ids are ordered as numbers.
\<close>

theorem key_order:
  assumes "list_all2 column_typed r q"
  shows "(\<exists>a b. encode_key_coll env r colls = Inr a \<and> encode_key_coll env q colls = Inr b
       \<and> cmp a b = lex_cmp (column_cmp env) (with_colls 0 r colls) (with_colls 0 q colls))
     \<and> cmp (encode_rowid i) (encode_rowid j) = cmp i j"
  using typed_encodes [OF assms, of env colls] key_col.concat_order [OF with_colls_typed [OF assms], of env 0 colls]
    rowid.code_order [where x = i and y = j and r = "[]" and s = "[]"]
  by (auto simp: then_with_def split: if_splits)

theorem key_order_witness:
  "let env = \<lparr>to_lowercase = \<lambda>c. [c], i64_as_f64 = \<lambda>_. 0, u64_as_f64 = \<lambda>_. 0, i128_as_f64 = \<lambda>_. 0, f64_div = \<lambda>_ _. 0,
         f64_pow10 = \<lambda>_. 0, parse_f64 = \<lambda>_. None, f64_debug = \<lambda>_. [], f32_debug = \<lambda>_. [], str_debug = \<lambda>_. [],
         other_date = \<lambda>_. None, other_datetime = \<lambda>_. None, other_time = \<lambda>_. None\<rparr>;
       r = [Text [70], IntV (- 1)]; q = [Text [102], IntV 1]
   in list_all2 column_typed r q \<and> (\<exists>a b. encode_key_coll env r [] = Inr a \<and> encode_key_coll env q [] = Inr b \<and> a < b)"
proof -
  have typed: "list_all2 column_typed [Text [70], IntV (- 1)] [Text [102], IntV 1]" by (simp add: column_typed_def)
  have "lex_cmp (column_cmp env) (with_colls 0 [Text [70], IntV (- 1)] []) (with_colls 0 [Text [102], IntV 1] []) = Less" for env
    by (simp add: with_colls_def coll_at_def column_cmp_simps then_with_def text_of_def fold_str_def is_ascii_def ascii_lower_def)
  then show ?thesis using key_order [OF typed, of _ "[]" 0 0] typed unfolding Let_def by (metis cmp_simps(3))
qed

lemma foldE_columns:
  "\<forall>c \<in> set columns. c < length row \<Longrightarrow>
     foldE (\<lambda>out (position, column).
              if column < length row then encode_component env (row ! column) (coll_at colls position) out
              else Inl (Storage ''key column is outside the stored row'')) out (enumerate n columns)
       = foldE (\<lambda>out (i, v). encode_component env v (coll_at colls i) out) out (enumerate n (map ((!) row) columns))"
  by (induction columns arbitrary: n out) (auto simp: encode_component_ok bindE_simps)

lemma foldE_columns_outside:
  "\<forall>i \<in> set before. i < length row \<and> is_key_type (row ! i) \<Longrightarrow> length row \<le> c \<Longrightarrow>
     foldE (\<lambda>out (position, column).
              if column < length row then encode_component env (row ! column) (coll_at colls position) out
              else Inl (Storage ''key column is outside the stored row'')) out (enumerate n (before @ c # rest))
       = Inl (Storage ''key column is outside the stored row'')"
  by (induction before arbitrary: n out) (auto simp: encode_component_ok bindE_simps)

text \<open>
  C40. Which keys exist: encoding succeeds exactly when every value has a key type, with the
  columns' codes one after the other, and otherwise refuses the first value that has none (a
  \<open>NULL\<close>, a float, bytes or a vector) by name. Encoding selected columns of a stored row is
  encoding the tuple of those columns, and a column outside the row is a storage error.
\<close>

theorem key_encoding_total:
  assumes "\<forall>c \<in> set columns. c < length row"
  shows "encode_columns_coll env row columns colls = encode_key_coll env (map ((!) row) columns) colls
   \<and> encode_key_coll env vs colls
       = (case find (\<lambda>v. \<not> is_key_type v) vs of
            None \<Rightarrow> Inr (concat (map (key_code env) (with_colls 0 vs colls)))
          | Some v \<Rightarrow> Inl (not_a_key env v))
   \<and> (list_all is_key_type (map ((!) row) columns) \<and> length row \<le> c \<longrightarrow>
        encode_columns_coll env row (columns @ c # rest) colls = Inl (Storage ''key column is outside the stored row''))"
proof (intro conjI impI)
  show "encode_columns_coll env row columns colls = encode_key_coll env (map ((!) row) columns) colls"
    unfolding encode_columns_coll_def encode_key_coll_def by (rule foldE_columns [OF assms])
  show "encode_columns_coll env row (columns @ c # rest) colls = Inl (Storage ''key column is outside the stored row'')"
    if "list_all is_key_type (map ((!) row) columns) \<and> length row \<le> c"
    unfolding encode_columns_coll_def using that assms by (intro foldE_columns_outside) (auto simp: list_all_iff)
qed (rule encode_key_coll_find)

theorem key_encoding_total_witness:
  "let env = \<lparr>to_lowercase = \<lambda>c. [c], i64_as_f64 = \<lambda>_. 0, u64_as_f64 = \<lambda>_. 0, i128_as_f64 = \<lambda>_. 0, f64_div = \<lambda>_ _. 0,
         f64_pow10 = \<lambda>_. 0, parse_f64 = \<lambda>_. None, f64_debug = \<lambda>_. [], f32_debug = \<lambda>_. [], str_debug = \<lambda>_. [],
         other_date = \<lambda>_. None, other_datetime = \<lambda>_. None, other_time = \<lambda>_. None\<rparr>;
       row = [Null, Bool True]
   in (\<forall>c \<in> set [1]. c < length row)
      \<and> encode_columns_coll env row [1] [] = encode_key_coll env [Bool True] []
      \<and> encode_key_coll env [Bool True, Null] [] = Inl (Unsupported ''value type cannot be used as a key: Null'')
      \<and> encode_columns_coll env row [1, 2] [] = Inl (Storage ''key column is outside the stored row'')"
proof -
  have ok: "\<forall>c \<in> set [1]. c < length [Null, Bool True]" by simp
  note t = key_encoding_total [OF ok, where colls = "[]" and vs = "[Bool True, Null]" and c = 2 and rest = "[]"]
  show ?thesis unfolding Let_def using t ok by (simp add: is_key_type_def not_a_key_def)
qed

end
