(* ===== verification/Spec2Isabelle.thy ===== *)
theory Spec2Isabelle
  imports Storage_Scans Storage_History Group_Commit Replica_Sync Session_Laws Lock_Manager Raft_Log_Laws Raft_Cluster Packet_Framing Key_Encoding
begin

text \<open>
  A verification library for ElyraSQL, a MySQL-compatible SQL database in Rust. Paths are
  relative to \<open>src/crates\<close>.

  \<^bold>\<open>The program.\<close> A client speaks the MySQL protocol to the server (\<open>elyra-wire\<close>,
  \<open>elyra-server/src/lib.rs\<close>). A session (\<open>elyra-engine/src/session.rs\<close>) runs its statements in
  a transaction: it reads a snapshot of the storage, stages its writes in memory, and commits
  them with the values it relied on. Table locks (\<open>lockmgr.rs\<close>) keep explicit \<open>LOCK TABLES\<close>
  apart. A commit is a job of the group-commit writer (\<open>elyra-storage/src/db.rs\<close>), one thread
  that folds jobs into storage transactions, validates them, publishes what it wrote to the
  replicas and waits for their acknowledgement. The storage (\<open>elyra-storage/src/lib.rs\<close>) is one
  ordered keyspace in a \<open>redb\<close> file. In a cluster a write goes through Raft first
  (\<open>elyra-server/src/cluster.rs\<close>, \<open>raftlog.rs\<close>), and every node applies the committed entries
  to its storage.

  \<^bold>\<open>Theories.\<close>
  \<^item> \<open>Elyra_Prelude\<close>: machine integers as words, \<open>Result\<close> as a sum type with \<open>bindE\<close> for the
    \<open>?\<close> operator, byte strings in the order of the storage, integer encodings, \<open>BTreeMap\<close> and
    \<open>BTreeSet\<close> as sorted lists. \<open>Rust_Text\<close>: the string functions of the standard library that
    small text files are read with.
  \<^item> \<open>Errors\<close>: \<open>elyra-core/src/error.rs\<close>, the error type and its codes on the wire.
  \<^item> \<open>Storage_Engine\<close>: every operation of \<open>elyra-storage/src/lib.rs\<close> on a handle (the record
    \<open>storage\<close>). \<open>redb\<close> is third-party: a record of functions that the definitions take as an
    argument. \<open>Storage_Laws\<close> has its documented behaviour as the locale \<open>redb_laws\<close> (a write
    transaction is atomic and isolated, a range is sorted and complete), interpreted on a
    reference keyspace so that the contract is known to be satisfiable, and the effect of every
    write path on the keyspace seen as a map: a validated commit is all or nothing (C1), a
    group of validated or of plain jobs is a serial execution of them (C2, C3).
    \<open>Storage_History\<close> has a step relation with one rule per operation and the meaning of the
    write epoch (C4). \<open>Storage_Scans\<close> shows that paging terminates and is complete (C5), what
    the ordered walk over two index prefixes visits (C6) and that a backup is exact (C7).
  \<^item> \<open>Group_Commit\<close>: the writer loop of \<open>elyra-storage/src/db.rs\<close> for every arrival pattern. It
    answers every job as a serial execution would (C8), and the published log replays to the
    same contents (C9). \<open>Replica_Sync\<close>: the replica table and the commit barrier (C10).
  \<^item> \<open>Session_Txn\<close>: the transaction of a session (the records \<open>TxnState\<close> and \<open>Session\<close>) with
    its staged writes, undo log, savepoints, reads through the overlay and commit.
    \<open>Session_Laws\<close>: the invariant of the staged state with its memory account, savepoints
    (C11), reads (C12), what a commit has validated (C13), and scans (C14, C15).
  \<^item> \<open>Lock_Manager\<close>: \<open>lockmgr.rs\<close> with \<open>LOCK TABLES\<close> and the statement-long locks; sessions
    interleave in a step relation (C16 to C18).
  \<^item> \<open>Raft_Log\<close>, \<open>Raft_Log_Laws\<close>: \<open>raftlog.rs\<close> with its files (C19 to C23). \<open>Raft_Node\<close>: the
    handlers of \<open>cluster.rs\<close>. \<open>Raft_Cluster\<close>: all nodes, with a network that loses, delays and
    repeats messages and nodes that restart. Quorums are the locale \<open>quorum_system\<close>,
    interpreted by majorities of the members; election safety rests on it (C24, C25).
  \<^item> \<open>Packet_Framing\<close>: the packets of the client protocol, \<open>elyra-wire/src/packet_reader.rs\<close>
    and \<open>packet_writer.rs\<close> (C26 to C28).
  \<^item> \<open>Civil_Time\<close>, \<open>Civil_Text\<close>: \<open>elyra-core/src/datetime.rs\<close>. Day numbers agree with the
    Gregorian calendar, defined by the length of its months and the date after a date (C29,
    C30); dates and times are read back as printed (C31), but for the sign of a time (C32).
  \<^item> The values of \<open>elyra-core/src/value.rs\<close>. \<open>Coll_Fold\<close>: text folding with the table of
    \<open>collfold.rs\<close> (C33). \<open>Sql_Decimal\<close>: decimals, printed and parsed (C34), rounded (C35) and
    compared (C36). \<open>Sql_Value\<close>: the type \<open>Value\<close> with its comparisons (C37). \<open>Sql_Keys\<close>: the
    keys rows are grouped by (C38).
  \<^item> \<open>Key_Encoding\<close>: \<open>elyra-engine/src/keyenc.rs\<close>, the keys under which rows and index entries are
    stored. The locale \<open>memcomparable\<close> says what a component's code promises; it is interpreted on
    the encoding of a column and on row ids, and gives the order of composite keys (C39, C40).

  \<^bold>\<open>How code becomes definitions.\<close> A struct is a record and an enum a datatype; a method is a
  function from the old state to the new one and its result. An error is a value of a sum
  type, so an early return is a branch. A loop is a recursive function with a termination
  proof. No definition uses fuel: the loops that wait for other threads, the network or the
  clock take what happens during the wait as a list, one element per turn, and the
  statements hold for every such list. What a lock protects is one step; where the code
  releases a lock in between, the model has two steps (\<open>propose\<close> in \<open>Raft_Node\<close>). Counters that
  only grow by one (terms, log indexes, lengths) are naturals; where wrap-around matters they
  are words.

  \<^bold>\<open>Parameters.\<close> \<open>redb\<close> (a record of its functions), \<open>bincode\<close> (a pair of functions), the state
  machine a Raft entry is applied to, the outcome of file operations, clocks and random
  timeouts; for values, Unicode lower-casing, conversion, division and printing of floats, and
  the reading of dates in text that is not ASCII (the record \<open>std_env\<close>).

  \<^bold>\<open>Not modelled.\<close> The SQL side: parsing (third-party), planning and execution (\<open>exec.rs\<close>,
  \<open>predicate.rs\<close>, \<open>eval.rs\<close>, \<open>aggregate.rs\<close>, \<open>sort.rs\<close> and the rest of \<open>elyra-engine\<close>), which
  needs a semantics of SQL over the syntax trees of the parser crate. The vectorized and
  approximate parts (\<open>elyra-olap\<close>, \<open>elyra-vector\<close>, \<open>embedix.rs\<close>) compute with floating-point
  numbers; so do two functions of \<open>value.rs\<close>, \<open>to_wire_string\<close>, which prints floats, and the JSON
  validator, which parses them. Accounts and privileges (\<open>users.rs\<close>), the binary log
  (\<open>binlog.rs\<close>) and JSON documents (\<open>json.rs\<close>) are left out, although nothing stands in the way
  of a model. The rest of the wire protocol, TLS, sockets, signal handling, metrics and the
  command line are input and output over third-party crates.
\<close>

end
